(* ===== verification/C_Prelude.thy ===== *)
theory C_Prelude
  imports Main "HOL-Library.Word" "HOL-Library.Signed_Division" "HOL-Library.Monad_Syntax"
begin

text \<open>
  Shared ground of the development: the machine types of the target (a Cortex-M4: 8 bit
  bytes, 16 and 32 bit unsigned integers, 32 bit \<open>int\<close> and \<open>size_t\<close>), C memory objects as
  lists of cells, and the option monad in which every C function is written.

  A result \<open>None\<close> always means undefined behaviour of the C program: an access outside the
  object a pointer points into. Error codes the C code returns are ordinary values under
  \<open>Some\<close>. A theorem that a function returns \<open>Some\<close> is therefore a memory-safety theorem.
\<close>

section \<open>Machine types\<close>

type_synonym u8 = "8 word"
type_synonym u16 = "16 word"
type_synonym u32 = "32 word"
type_synonym bytes = "u8 list"

named_theorems mem_simps \<open>reading and writing C memory objects\<close>
named_theorems wire_simps \<open>the byte sequences the serialisers write\<close>

section \<open>Memory objects\<close>

text \<open>
  \<open>rd\<close> and \<open>wr\<close> are a checked load and store of one cell, \<open>rd_bytes\<close> and \<open>wr_bytes\<close> the
  two halves of \<open>memcpy\<close>. A pointer into an object is an index.
\<close>

definition rd :: "'a list \<Rightarrow> nat \<Rightarrow> 'a option" where
  "rd b i = (if i < length b then Some (b ! i) else None)"

definition wr :: "'a list \<Rightarrow> nat \<Rightarrow> 'a \<Rightarrow> 'a list option" where
  "wr b i x = (if i < length b then Some (b[i := x]) else None)"

definition rd_bytes :: "'a list \<Rightarrow> nat \<Rightarrow> nat \<Rightarrow> 'a list option" where
  "rd_bytes b p n = (if p + n \<le> length b then Some (take n (drop p b)) else None)"

definition wr_bytes :: "'a list \<Rightarrow> nat \<Rightarrow> 'a list \<Rightarrow> 'a list option" where
  "wr_bytes b p xs =
     (if p + length xs \<le> length b then Some (take p b @ xs @ drop (p + length xs) b) else None)"

lemma rd_Some [mem_simps]: "i < length b \<Longrightarrow> rd b i = Some (b ! i)"
  by (simp add: rd_def)

lemma rd_eq_Some [mem_simps]: "rd b i = Some x \<longleftrightarrow> i < length b \<and> x = b ! i"
  by (auto simp: rd_def)

lemma wr_eq_Some [mem_simps]: "wr b i x = Some b' \<longleftrightarrow> i < length b \<and> b' = b[i := x]"
  by (auto simp: wr_def)

lemma wr_is_wr_bytes: "wr b i x = wr_bytes b i [x]"
  by (auto simp: wr_def wr_bytes_def upd_conv_take_nth_drop)

lemma wr_bytes_eq_Some [mem_simps]:
  "wr_bytes b p xs = Some b' \<longleftrightarrow>
     p + length xs \<le> length b \<and> b' = take p b @ xs @ drop (p + length xs) b"
  by (auto simp: wr_bytes_def)

lemma length_wr_bytes: "wr_bytes b p xs = Some b' \<Longrightarrow> length b' = length b"
  by (auto simp: mem_simps)

lemma wr_bytes_ok:
  "p + length xs \<le> length b \<Longrightarrow> \<exists>b'. wr_bytes b p xs = Some b' \<and> length b' = length b"
  by (auto simp: wr_bytes_def)

lemma wr_bytes_Nil [simp]: "p \<le> length b \<Longrightarrow> wr_bytes b p [] = Some b"
  by (simp add: wr_bytes_def)

text \<open>Two stores next to each other are one store of the concatenation.\<close>

lemma wr_bytes_append:
  "wr_bytes b p xs \<bind> (\<lambda>b'. wr_bytes b' (p + length xs) ys) = wr_bytes b p (xs @ ys)"
proof (cases "p + length xs \<le> length b")
  case True
  then have "length (take p b @ xs @ drop (p + length xs) b) = length b"
    by simp
  with True show ?thesis
    by (simp add: wr_bytes_def ac_simps)
next
  case False
  then show ?thesis by (simp add: wr_bytes_def)
qed

lemma rd_bytes_wr_bytes:
  assumes "wr_bytes b p xs = Some b'"
  shows "rd_bytes b' p (length xs) = Some xs"
  using assms by (auto simp: wr_bytes_def rd_bytes_def split: if_splits)

lemma take_wr_bytes0: "wr_bytes b 0 xs = Some b' \<Longrightarrow> take (length xs) b' = xs"
  by (auto simp: mem_simps)

section \<open>Output through a moving pointer\<close>

text \<open>
  The serialisers write through \<open>unsigned char *ptr\<close>, which starts at the buffer and moves
  past what it writes: a pair of the buffer and the pointer's offset. \<open>emit\<close> writes a
  block and moves the pointer past it.
\<close>

type_synonym wptr = "bytes \<times> nat"

fun emit :: "wptr \<Rightarrow> bytes \<Rightarrow> wptr option" where
  "emit (b, p) xs = map_option (\<lambda>b'. (b', p + length xs)) (wr_bytes b p xs)"

lemma emit_emit [wire_simps]: "emit w xs \<bind> (\<lambda>w'. emit w' ys) = emit w (xs @ ys)"
proof (cases w)
  case (Pair b p)
  have "wr_bytes b p xs \<bind> (\<lambda>b'. wr_bytes b' (p + length xs) ys) = wr_bytes b p (xs @ ys)"
    by (rule wr_bytes_append)
  then show ?thesis using Pair
    by (cases "wr_bytes b p xs") (auto simp: add.assoc)
qed

lemma emit_emit_bind [wire_simps]:
  "emit w xs \<bind> (\<lambda>w'. emit w' ys \<bind> f) = emit w (xs @ ys) \<bind> f"
  by (simp flip: emit_emit)

lemma emit_fits:
  "p + length xs \<le> length b \<Longrightarrow>
     emit (b, p) xs = Some (take p b @ xs @ drop (p + length xs) b, p + length xs)"
  by (simp add: emit.simps wr_bytes_def)

lemma emit_overflow: "length b < p + length xs \<Longrightarrow> emit (b, p) xs = None"
  by (simp add: emit.simps wr_bytes_def)

text \<open>A serialiser's \<open>rc = ptr - buf; return rc\<close>.\<close>

lemma emit_result [wire_simps]:
  "emit w xs \<bind> (\<lambda>ptr. Some (int (snd ptr), fst ptr)) = map_option (\<lambda>(b, n). (int n, b)) (emit w xs)"
  by (cases "emit w xs") auto

lemma emit_map [wire_simps]:
  "emit w xs \<bind> (\<lambda>w'. map_option f (emit w' ys)) = map_option f (emit w (xs @ ys))"
  by (simp flip: emit_emit add: map_option_bind comp_def)

declare emit.simps [simp del]

section \<open>C strings\<close>

text \<open>
  A \<open>char *\<close> is the list of the bytes from the pointer to the end of its object.
  \<open>strlen\<close> scans for the terminating zero byte; without one it leaves the object.
\<close>

fun c_strlen :: "bytes \<Rightarrow> nat option" where
  "c_strlen [] = None"
| "c_strlen (c # cs) = (if c = 0 then Some 0 else map_option Suc (c_strlen cs))"

definition c_str :: "bytes \<Rightarrow> bytes" where
  "c_str s = s @ [0]"

lemma c_strlen_c_str [simp]: "0 \<notin> set s \<Longrightarrow> c_strlen (c_str s) = Some (length s)"
  by (induction s) (auto simp: c_str_def)

lemma c_strlen_bound: "c_strlen s = Some n \<Longrightarrow> n < length s"
  by (induction s arbitrary: n) (auto split: if_splits)

lemma take_c_str [simp]: "take (length s) (c_str s) = s"
  by (simp add: c_str_def)

section \<open>Arithmetic of C integers\<close>

lemma sdiv_nonneg [simp]: "0 \<le> (a::int) \<Longrightarrow> 0 < b \<Longrightarrow> a sdiv b = a div b"
  by (cases "a = 0") (simp_all add: signed_divide_int_def)

lemma smod_nonneg [simp]: "0 \<le> (a::int) \<Longrightarrow> 0 < b \<Longrightarrow> a smod b = a mod b"
  by (cases "a = 0") (simp_all add: signed_modulo_int_def)

lemma unat_u8_lt [simp]: "unat (c :: u8) < 256"
  using unsigned_less [of c] by simp

lemma unat_u16_lt [simp]: "unat (c :: u16) < 65536"
  using unsigned_less [of c] by simp

end
