(* ===== verification/MQTT_Packet.thy ===== *)
theory MQTT_Packet
  imports C_Prelude
begin

unbundle bit_operations_syntax

text \<open>
  The packet primitives of \<open>MQTT/MQTTPacket.c\<close> and \<open>MQTT/MQTTPacket.h\<close>: the fixed header
  byte, the variable-length encoding of the remaining length, the readers and writers of
  integers and strings, and the two functions that read a packet from a byte source.

  A \<open>MQTTString\<close> holds a C string or a counted string; a pointer is the list of the bytes
  from it to the end of its object. A source of bytes (the function pointer \<open>getcharfn\<close> or
  \<open>getfn\<close> of the code) is a function of its own state and the number of bytes wanted; it
  returns its result code, the bytes it stored and its new state, or \<open>None\<close> when it reads
  outside an object.
\<close>

section \<open>Constants, header byte, strings\<close>

abbreviation (input) MQTTPACKET_BUFFER_TOO_SHORT :: int where "MQTTPACKET_BUFFER_TOO_SHORT \<equiv> -2"
abbreviation (input) MQTTPACKET_READ_ERROR :: int where "MQTTPACKET_READ_ERROR \<equiv> -1"

abbreviation (input) CONNECT :: u8 where "CONNECT \<equiv> 1"
abbreviation (input) CONNACK :: u8 where "CONNACK \<equiv> 2"
abbreviation (input) PUBLISH :: u8 where "PUBLISH \<equiv> 3"
abbreviation (input) PUBACK :: u8 where "PUBACK \<equiv> 4"
abbreviation (input) PUBREC :: u8 where "PUBREC \<equiv> 5"
abbreviation (input) PUBREL :: u8 where "PUBREL \<equiv> 6"
abbreviation (input) PUBCOMP :: u8 where "PUBCOMP \<equiv> 7"
abbreviation (input) SUBSCRIBE :: u8 where "SUBSCRIBE \<equiv> 8"
abbreviation (input) SUBACK :: u8 where "SUBACK \<equiv> 9"
abbreviation (input) UNSUBSCRIBE :: u8 where "UNSUBSCRIBE \<equiv> 10"
abbreviation (input) UNSUBACK :: u8 where "UNSUBACK \<equiv> 11"
abbreviation (input) PINGREQ :: u8 where "PINGREQ \<equiv> 12"
abbreviation (input) PINGRESP :: u8 where "PINGRESP \<equiv> 13"
abbreviation (input) DISCONNECT :: u8 where "DISCONNECT \<equiv> 14"

text \<open>
  The union \<open>MQTTHeader\<close>: one byte, or the bit fields \<open>retain:1, qos:2, dup:1, type:4\<close> from
  the least significant bit. Storing to a bit field keeps its low bits.
\<close>

definition mk_header :: "u8 \<Rightarrow> u8 \<Rightarrow> u8 \<Rightarrow> u8 \<Rightarrow> u8" where
  "mk_header typ dup qos retain =
     push_bit 4 (take_bit 4 typ) OR push_bit 3 (take_bit 1 dup) OR
     push_bit 1 (take_bit 2 qos) OR take_bit 1 retain"

definition hdr_type :: "u8 \<Rightarrow> u8" where "hdr_type h = take_bit 4 (drop_bit 4 h)"
definition hdr_dup :: "u8 \<Rightarrow> u8" where "hdr_dup h = take_bit 1 (drop_bit 3 h)"
definition hdr_qos :: "u8 \<Rightarrow> u8" where "hdr_qos h = take_bit 2 (drop_bit 1 h)"
definition hdr_retain :: "u8 \<Rightarrow> u8" where "hdr_retain h = take_bit 1 h"

record mqtt_string =
  cstring :: "bytes option"
  lenstring_len :: int
  lenstring_data :: "bytes option"

definition MQTTString_initializer :: mqtt_string where
  "MQTTString_initializer = \<lparr>cstring = None, lenstring_len = 0, lenstring_data = None\<rparr>"

type_synonym 's getfn = "'s \<Rightarrow> nat \<Rightarrow> (int \<times> bytes \<times> 's) option"

section \<open>The remaining length\<close>

text \<open>\<open>buf[rc++] = d\<close> is a store at the pointer plus \<open>rc\<close>; the result is the number of bytes.\<close>

function encode_loop :: "bytes \<Rightarrow> nat \<Rightarrow> nat \<Rightarrow> int \<Rightarrow> (bytes \<times> nat) option" where
  "encode_loop b p rc len =
     (let d = word_of_int (len smod 128) :: u8;
          len' = len sdiv 128;
          d' = (if len' > 0 then d OR 0x80 else d)
      in do {
        b' \<leftarrow> wr b (p + rc) d';
        if len' > 0 then encode_loop b' p (rc + 1) len' else Some (b', rc + 1)
      })"
  by pat_completeness auto

lemma sdiv128_pos: "(0::int) < len sdiv 128 \<Longrightarrow> 0 < len \<and> len sdiv 128 < len"
proof -
  assume a: "0 < len sdiv 128"
  then have "0 < len"
    by (cases "len < 0") (auto simp: signed_divide_int_def sgn_if split: if_splits)
  then show ?thesis using a by simp
qed

termination encode_loop
  by (relation "measure (\<lambda>(b, p, rc, len). nat len)") (auto dest: sdiv128_pos)

declare encode_loop.simps [simp del]

definition MQTTPacket_encode :: "bytes \<Rightarrow> nat \<Rightarrow> int \<Rightarrow> (bytes \<times> nat) option" where
  "MQTTPacket_encode b p len = encode_loop b p 0 len"

text \<open>The statement \<open>ptr += MQTTPacket_encode(ptr, len)\<close> of the serialisers.\<close>

definition encode_adv :: "wptr \<Rightarrow> int \<Rightarrow> wptr option" where
  "encode_adv w len = do { (b, n) \<leftarrow> MQTTPacket_encode (fst w) (snd w) len; Some (b, snd w + n) }"

abbreviation (input) MAX_NO_OF_REMAINING_LENGTH_BYTES :: nat where
  "MAX_NO_OF_REMAINING_LENGTH_BYTES \<equiv> 4"

text \<open>
  The loop of \<open>MQTTPacket_decode\<close>: \<open>len\<close> bytes counted so far, the multiplier and the value.
  The byte variable keeps its value when the source stores nothing.
\<close>

function decode_loop ::
    "'s getfn \<Rightarrow> 's \<Rightarrow> u8 \<Rightarrow> nat \<Rightarrow> int \<Rightarrow> int \<Rightarrow> (nat \<times> int \<times> 's) option" where
  "decode_loop getfn s c len mult val =
     (let len' = len + 1 in
      if len' > MAX_NO_OF_REMAINING_LENGTH_BYTES then Some (len', val, s)
      else do {
        (rc, bs, s') \<leftarrow> getfn s 1;
        if rc \<noteq> 1 then Some (len', val, s')
        else
          let c' = (case bs of [] \<Rightarrow> c | x # _ \<Rightarrow> x);
              val' = val + uint (c' AND 127) * mult;
              mult' = mult * 128
          in if c' AND 128 \<noteq> 0 then decode_loop getfn s' c' len' mult' val'
             else Some (len', val', s')
      })"
  by pat_completeness auto

termination decode_loop
  by (relation "measure (\<lambda>(getfn, s, c, len, mult, val). 5 - len)") auto

declare decode_loop.simps [simp del]

definition MQTTPacket_decode :: "'s getfn \<Rightarrow> 's \<Rightarrow> (nat \<times> int \<times> 's) option" where
  "MQTTPacket_decode getfn s = decode_loop getfn s 0 0 1 0"

definition MQTTPacket_len :: "int \<Rightarrow> int" where
  "MQTTPacket_len rem_len =
     (let r = rem_len + 1 in
      if r < 128 then r + 1 else if r < 16384 then r + 2 else if r < 2097151 then r + 3 else r + 4)"

text \<open>
  \<open>bufchar\<close> reads from the static \<open>bufptr\<close>: each round of its loop stores the next byte at
  the same address, so only the last of \<open>count\<close> bytes survives.
\<close>

definition bufchar :: "bytes \<Rightarrow> nat getfn" where
  "bufchar buf p n =
     (if p + n \<le> length buf
      then Some (int n, if n = 0 then [] else [buf ! (p + n - 1)], p + n) else None)"

definition MQTTPacket_decodeBuf :: "bytes \<Rightarrow> nat \<Rightarrow> (nat \<times> int) option" where
  "MQTTPacket_decodeBuf buf p =
     do { (len, val, _) \<leftarrow> MQTTPacket_decode (bufchar buf) p; Some (len, val) }"

section \<open>Integers and strings\<close>

definition readInt :: "bytes \<Rightarrow> nat \<Rightarrow> (int \<times> nat) option" where
  "readInt buf p = do { a \<leftarrow> rd buf p; b \<leftarrow> rd buf (p + 1); Some (256 * uint a + uint b, p + 2) }"

definition readChar :: "bytes \<Rightarrow> nat \<Rightarrow> (u8 \<times> nat) option" where
  "readChar buf p = do { c \<leftarrow> rd buf p; Some (c, p + 1) }"

definition writeChar :: "wptr \<Rightarrow> u8 \<Rightarrow> wptr option" where
  "writeChar w c = do { b \<leftarrow> wr (fst w) (snd w) c; Some (b, snd w + 1) }"

definition writeInt :: "wptr \<Rightarrow> int \<Rightarrow> wptr option" where
  "writeInt w n = do {
     w \<leftarrow> writeChar w (word_of_int (n sdiv 256));
     writeChar w (word_of_int (n smod 256)) }"

definition writeCString :: "wptr \<Rightarrow> bytes \<Rightarrow> wptr option" where
  "writeCString w s = do {
     len \<leftarrow> c_strlen s;
     w \<leftarrow> writeInt w (int len);
     src \<leftarrow> rd_bytes s 0 len;
     emit w src }"

definition getLenStringLen :: "bytes \<Rightarrow> int option" where
  "getLenStringLen ptr = do { a \<leftarrow> rd ptr 0; b \<leftarrow> rd ptr 1; Some (256 * uint a + uint b) }"

definition writeMQTTString :: "wptr \<Rightarrow> mqtt_string \<Rightarrow> wptr option" where
  "writeMQTTString w s =
     (if lenstring_len s > 0 then do {
        w \<leftarrow> writeInt w (lenstring_len s);
        d \<leftarrow> lenstring_data s;
        src \<leftarrow> rd_bytes d 0 (nat (lenstring_len s));
        emit w src }
      else case cstring s of
        Some c \<Rightarrow> writeCString w c
      | None \<Rightarrow> writeInt w 0)"

text \<open>
  \<open>readMQTTLenString\<close> reads at offset \<open>p\<close>, up to the end pointer \<open>e\<close>. It stores the length
  before it checks it, and always clears the C string.
\<close>

definition readMQTTLenString ::
    "mqtt_string \<Rightarrow> bytes \<Rightarrow> nat \<Rightarrow> int \<Rightarrow> (int \<times> mqtt_string \<times> nat) option" where
  "readMQTTLenString s buf p e =
     (if e - int p > 1 then do {
        (n, p) \<leftarrow> readInt buf p;
        let s = s\<lparr>lenstring_len := n\<rparr>;
        if int p + n \<le> e
        then Some (1, s\<lparr>lenstring_data := Some (drop p buf), cstring := None\<rparr>, p + nat n)
        else Some (0, s\<lparr>cstring := None\<rparr>, p) }
      else Some (0, s\<lparr>cstring := None\<rparr>, p))"

definition MQTTstrlen :: "mqtt_string \<Rightarrow> int option" where
  "MQTTstrlen s = (case cstring s of
     Some c \<Rightarrow> map_option int (c_strlen c)
   | None \<Rightarrow> Some (lenstring_len s))"

fun c_strncmp_eq :: "nat \<Rightarrow> bytes \<Rightarrow> bytes \<Rightarrow> bool option" where
  "c_strncmp_eq 0 _ _ = Some True"
| "c_strncmp_eq (Suc n) (x # xs) (y # ys) =
     (if x \<noteq> y then Some False else if x = 0 then Some True else c_strncmp_eq n xs ys)"
| "c_strncmp_eq (Suc n) _ _ = None"

definition MQTTPacket_equals :: "mqtt_string \<Rightarrow> bytes \<Rightarrow> bool option" where
  "MQTTPacket_equals a bptr = do {
     (aptr, alen) \<leftarrow> (case cstring a of
         Some c \<Rightarrow> do { n \<leftarrow> c_strlen c; Some (Some c, int n) }
       | None \<Rightarrow> Some (lenstring_data a, lenstring_len a));
     blen \<leftarrow> c_strlen bptr;
     if alen = int blen
     then (if alen = 0 then Some True else do { ap \<leftarrow> aptr; c_strncmp_eq (nat alen) ap bptr })
     else Some False }"

section \<open>Reading a packet\<close>

text \<open>
  \<open>MQTTPacket_read\<close>: header byte, remaining length, body. The result of the decoding is
  ignored, as in the code. The bytes the source stores go into the caller's buffer.
\<close>

definition MQTTPacket_read :: "'s getfn \<Rightarrow> 's \<Rightarrow> bytes \<Rightarrow> int \<Rightarrow> (int \<times> bytes \<times> 's) option" where
  "MQTTPacket_read getfn s buf buflen = do {
     (rc, bs, s) \<leftarrow> getfn s 1;
     buf \<leftarrow> wr_bytes buf 0 bs;
     if rc \<noteq> 1 then Some (-1, buf, s) else do {
       (_, rem_len, s) \<leftarrow> MQTTPacket_decode getfn s;
       (buf, n) \<leftarrow> MQTTPacket_encode buf 1 rem_len;
       let len = 1 + n;
       if rem_len + int len > buflen then Some (-1, buf, s) else do {
         (rc, buf, s) \<leftarrow>
           (if rem_len \<noteq> 0 then do {
              (rc, bs, s) \<leftarrow> getfn s (nat rem_len);
              buf \<leftarrow> wr_bytes buf len bs;
              Some (rc, buf, s) }
            else Some (rem_len, buf, s));
         if rc \<noteq> rem_len then Some (-1, buf, s) else do {
           h \<leftarrow> rd buf 0;
           Some (uint (hdr_type h), buf, s) } } } }"


section \<open>The wire format\<close>

text \<open>
  What the writers put on the wire: \<open>vbi\<close> is the variable byte integer of the remaining
  length, \<open>u16be\<close> a two-byte integer, \<open>lenstr\<close> a counted string.
\<close>

fun vbi :: "nat \<Rightarrow> bytes" where
  "vbi n = (if n < 128 then [of_nat n] else (of_nat (n mod 128) OR 128) # vbi (n div 128))"

declare vbi.simps [simp del]

definition u16be :: "nat \<Rightarrow> bytes" where
  "u16be n = [of_nat (n div 256), of_nat (n mod 256)]"

definition lenstr :: "bytes \<Rightarrow> bytes" where
  "lenstr s = u16be (length s) @ s"

lemmas hdr_defs = mk_header_def hdr_type_def hdr_dup_def hdr_qos_def hdr_retain_def

lemmas hdr_bits = bit_or_iff bit_push_bit_iff bit_take_bit_iff bit_drop_bit_eq comp_def

lemma hdr_type_mk_header [simp]: "hdr_type (mk_header t d q r) = take_bit 4 t"
  by (rule bit_word_eqI, unfold hdr_defs hdr_bits) auto

lemma hdr_dup_mk_header [simp]: "hdr_dup (mk_header t d q r) = take_bit 1 d"
  by (rule bit_word_eqI, unfold hdr_defs hdr_bits) auto

lemma hdr_qos_mk_header [simp]: "hdr_qos (mk_header t d q r) = take_bit 2 q"
  by (rule bit_word_eqI, unfold hdr_defs hdr_bits) auto

lemma hdr_retain_mk_header [simp]: "hdr_retain (mk_header t d q r) = take_bit 1 r"
  by (rule bit_word_eqI, unfold hdr_defs hdr_bits) auto

lemma mk_header_hdr: "mk_header (hdr_type h) (hdr_dup h) (hdr_qos h) (hdr_retain h) = h"
  by (rule bit_word_eqI, unfold hdr_defs hdr_bits)
     (auto simp: less_Suc_eq numeral_eq_Suc)

lemma c_and_127: "uint (c AND 127) = uint c mod 128" for c :: u8
proof -
  have "(127 :: u8) = mask 7"
    by (simp add: mask_eq_exp_minus_1)
  then have "c AND 127 = take_bit 7 c"
    by (simp only: take_bit_eq_mask)
  then have "uint (c AND 127) = take_bit 7 (uint c)"
    by (simp only: unsigned_take_bit_eq)
  then show ?thesis by (simp add: take_bit_eq_mod)
qed

lemma c_and_128: "c AND 128 = 0 \<longleftrightarrow> uint c < 128" for c :: u8
proof -
  have "uint c < 256"
    using uint_lt2p [of c] by simp
  then have "uint c < 128 \<longleftrightarrow> even (uint c div 128)"
    using uint_ge_0 [of c] by presburger
  also have "\<dots> \<longleftrightarrow> \<not> bit c 7"
    using bit_iff_odd [of "uint c" 7] by (simp add: bit_uint_iff)
  also have "\<dots> \<longleftrightarrow> c AND 128 = 0"
    using and_exp_eq_0_iff_not_bit [of c 7] by simp
  finally show ?thesis by blast
qed

lemma vbi_cont_plus: "k < 128 \<Longrightarrow> (of_nat k OR 128 :: u8) = of_nat (k + 128)"
proof -
  assume "k < 128"
  then have "(of_nat k :: u8) = take_bit 7 (of_nat k)"
    by (simp add: take_bit_of_nat take_bit_nat_eq_self)
  then have "(of_nat k :: u8) AND 2 ^ 7 = 0"
    by (metis and_exp_eq_0_iff_not_bit bit_take_bit_iff less_irrefl)
  then have "(of_nat k OR 2 ^ 7 :: u8) = of_nat k + 2 ^ 7"
    by (simp only: disjunctive_add_eq_or)
  then show ?thesis by simp
qed

lemma uint_of_nat_u8: "k < 256 \<Longrightarrow> uint (of_nat k :: u8) = int k"
  by (simp add: unsigned_of_nat take_bit_nat_eq_self)

lemma uint_vbi_cont: "k < 128 \<Longrightarrow> uint (of_nat k OR 128 :: u8) = int k + 128"
  using uint_of_nat_u8 [of "k + 128"] by (simp add: vbi_cont_plus)


lemma vbi_small: "n < 128 \<Longrightarrow> vbi n = [of_nat n]"
  and vbi_large: "128 \<le> n \<Longrightarrow> vbi n = of_nat (n mod 128 + 128) # vbi (n div 128)"
  by (simp_all add: vbi.simps [of n] vbi_cont_plus)

lemma length_vbi_pos: "0 < length (vbi n)"
  by (cases "n < 128") (simp_all add: vbi_small vbi_large)

lemma length_vbi_le: "n < 128 ^ k \<Longrightarrow> 0 < k \<Longrightarrow> length (vbi n) \<le> k"
proof (induction k arbitrary: n)
  case 0
  then show ?case by simp
next
  case (Suc k)
  show ?case
  proof (cases "n < 128")
    case True
    then show ?thesis by (simp add: vbi_small)
  next
    case False
    with Suc.prems have "n div 128 < 128 ^ k" "0 < k"
      by (auto simp: less_mult_imp_div_less mult.commute intro: gr0I)
    with Suc.IH False show ?thesis by (simp add: vbi_large)
  qed
qed

section \<open>The writers put the wire format\<close>

lemma encode_loop_emit:
  "encode_loop b p rc (int n) =
     map_option (\<lambda>b'. (b', rc + length (vbi n))) (wr_bytes b (p + rc) (vbi n))"
proof (induction n arbitrary: b rc rule: less_induct)
  case (less n)
  show ?case
  proof (cases "n < 128")
    case True
    then show ?thesis
      by (simp add: encode_loop.simps [of b p rc "int n"] vbi_small wr_is_wr_bytes)
         (cases "wr_bytes b (p + rc) [word_of_nat n]"; simp)
  next
    case False
    let ?d = "of_nat (n mod 128 + 128) :: u8"
    have d: "(word_of_int (int n mod 128) :: u8) OR 128 = ?d"
    proof -
      have "(word_of_int (int n mod 128) :: u8) = of_nat (n mod 128)"
        by (metis of_nat_numeral of_int_of_nat_eq zmod_int)
      then show ?thesis using vbi_cont_plus [of "n mod 128"] by simp
    qed
    have IH: "encode_loop b' p (rc + 1) (int (n div 128)) =
       map_option (\<lambda>b'. (b', rc + 1 + length (vbi (n div 128)))) (wr_bytes b' (p + (rc + 1)) (vbi (n div 128)))"
      for b' using less.IH [of "n div 128"] False by simp
    have "0 < int n div 128" "int n div 128 = int (n div 128)"
      using False by (auto simp: zdiv_int)
    then have "encode_loop b p rc (int n) =
       wr_bytes b (p + rc) [?d] \<bind> (\<lambda>b'. encode_loop b' p (rc + 1) (int (n div 128)))"
      by (subst encode_loop.simps) (simp add: Let_def d wr_is_wr_bytes)
    also have "\<dots> = map_option (\<lambda>b'. (b', rc + 1 + length (vbi (n div 128))))
       (wr_bytes b (p + rc) [?d] \<bind> (\<lambda>b'. wr_bytes b' (p + rc + length [?d]) (vbi (n div 128))))"
      unfolding IH by (cases "wr_bytes b (p + rc) [?d]") auto
    also have "\<dots> = map_option (\<lambda>b'. (b', rc + length (vbi n))) (wr_bytes b (p + rc) (vbi n))"
      unfolding wr_bytes_append using False by (simp add: vbi_large)
    finally show ?thesis .
  qed
qed

lemma encode_adv_emit [wire_simps]: "0 \<le> n \<Longrightarrow> encode_adv w n = emit w (vbi (nat n))"
  using encode_loop_emit [of "fst w" "snd w" 0 "nat n"]
  by (cases w; cases "wr_bytes (fst w) (snd w) (vbi (nat n))")
     (simp_all add: encode_adv_def MQTTPacket_encode_def emit.simps)

lemma writeChar_emit [wire_simps]: "writeChar w c = emit w [c]"
  by (cases w; cases "wr_bytes (fst w) (snd w) [c]") (simp_all add: writeChar_def wr_is_wr_bytes emit.simps)

lemma writeInt_emit [wire_simps]: "0 \<le> n \<Longrightarrow> writeInt w n = emit w (u16be (nat n))"
proof -
  assume "0 \<le> n"
  then obtain k where k: "n = int k" by (metis nonneg_int_cases)
  have "(word_of_int (int k div 256) :: u8) = of_nat (k div 256)"
    "(word_of_int (int k mod 256) :: u8) = of_nat (k mod 256)"
    by (metis of_nat_numeral of_int_of_nat_eq zdiv_int zmod_int)+
  then show ?thesis by (simp add: writeInt_def wire_simps u16be_def k)
qed

text \<open>
  The text a \<open>MQTTString\<close> stands for, and what makes one usable: a C string is terminated
  and comes without a counted string (\<open>writeMQTTString\<close> prefers the counted one while
  \<open>MQTTstrlen\<close> prefers the C string), and a counted string has the bytes it counts.
\<close>

definition text_of :: "mqtt_string \<Rightarrow> bytes" where
  "text_of s = (case cstring s of
     Some c \<Rightarrow> (case c_strlen c of Some n \<Rightarrow> take n c | None \<Rightarrow> [])
   | None \<Rightarrow> (case lenstring_data s of Some d \<Rightarrow> take (nat (lenstring_len s)) d | None \<Rightarrow> []))"

definition wf_mqtt_string :: "mqtt_string \<Rightarrow> bool" where
  "wf_mqtt_string s = (case cstring s of
     Some c \<Rightarrow> c_strlen c \<noteq> None \<and> lenstring_len s = 0
   | None \<Rightarrow> (case lenstring_data s of
       Some d \<Rightarrow> 0 \<le> lenstring_len s \<and> lenstring_len s \<le> int (length d)
     | None \<Rightarrow> lenstring_len s = 0))"

lemma MQTTstrlen_text: "wf_mqtt_string s \<Longrightarrow> MQTTstrlen s = Some (int (length (text_of s)))"
  by (auto simp: wf_mqtt_string_def text_of_def MQTTstrlen_def dest: c_strlen_bound
      split: option.splits)

lemma writeCString_emit [wire_simps]:
  "c_strlen c = Some n \<Longrightarrow> writeCString w c = emit w (lenstr (take n c))"
  using c_strlen_bound [of c n]
  by (simp add: writeCString_def wire_simps rd_bytes_def lenstr_def)

lemma writeMQTTString_emit [wire_simps]:
  assumes "wf_mqtt_string s"
  shows "writeMQTTString w s = emit w (lenstr (text_of s))"
proof (cases "cstring s")
  case None
  with assms show ?thesis
    by (cases "lenstring_data s"; cases "lenstring_len s = 0")
       (auto simp: wf_mqtt_string_def text_of_def writeMQTTString_def wire_simps lenstr_def rd_bytes_def)
next
  case (Some c)
  with assms show ?thesis
    by (auto simp: wf_mqtt_string_def text_of_def writeMQTTString_def wire_simps)
qed

section \<open>Reading back\<close>

lemma rd_drop: "drop p b = c # r \<Longrightarrow> rd b p = Some c"
  by (metis drop_eq_Nil leI list.discI nth_via_drop rd_Some)

lemma drop_step: "drop p b = xs @ r \<Longrightarrow> drop (p + length xs) b = r"
  by (metis add.commute append_eq_conv_conj drop_drop)

lemma drop_step1: "drop p b = c # r \<Longrightarrow> drop (Suc p) b = r"
  by (metis drop_Suc list.sel(3) tl_drop)

lemma length_u16be [simp]: "length (u16be n) = 2"
  by (simp add: u16be_def)

lemma length_lenstr [simp]: "length (lenstr s) = 2 + length s"
  by (simp add: lenstr_def)

lemma readInt_u16be:
  assumes "drop p buf = u16be n @ r" and "n < 65536"
  shows "readInt buf p = Some (int n, p + 2)"
proof -
  have 1: "rd buf p = Some (of_nat (n div 256))"
    using assms(1) by (intro rd_drop) (simp add: u16be_def)
  have 2: "rd buf (Suc p) = Some (of_nat (n mod 256))"
    using drop_step1 [of p buf] assms(1) by (intro rd_drop) (simp add: u16be_def)
  have "256 * int (n div 256) + int (n mod 256) = int n"
    by (metis add.commute mod_mult_div_eq of_nat_add of_nat_mult of_nat_numeral)
  with assms(2) show ?thesis
    by (simp add: readInt_def 1 2 uint_of_nat_u8)
qed

lemma readInt_range: "readInt buf p = Some (n, q) \<Longrightarrow> 0 \<le> n \<and> n < 65536 \<and> q = p + 2"
proof -
  assume "readInt buf p = Some (n, q)"
  then obtain a b :: u8 where "n = 256 * uint a + uint b" "q = p + 2"
    by (auto simp: readInt_def split: Option.bind_splits)
  moreover have "uint a < 256" "uint b < 256" "0 \<le> uint a" "0 \<le> uint b"
    using uint_lt2p [of a] uint_lt2p [of b] by simp_all
  ultimately show ?thesis by auto
qed

lemma readInt_defined: "p + 1 < length buf \<Longrightarrow> \<exists>n. readInt buf p = Some (n, p + 2)"
  by (simp add: readInt_def mem_simps)

lemma readMQTTLenString_lenstr:
  assumes d: "drop p buf = lenstr t @ r" and "length t < 65536" and e: "int p + 2 + int (length t) \<le> e"
  shows "readMQTTLenString s buf p e =
    Some (1, \<lparr>cstring = None, lenstring_len = int (length t), lenstring_data = Some (t @ r)\<rparr>,
          p + 2 + length t)"
proof -
  have "drop p buf = u16be (length t) @ t @ r"
    using d by (simp add: lenstr_def)
  then have "readInt buf p = Some (int (length t), p + 2)" "drop (p + 2) buf = t @ r"
    using readInt_u16be [OF _ assms(2)] drop_step [of p buf "u16be (length t)"] by auto
  with e show ?thesis
    by (cases s) (simp add: readMQTTLenString_def)
qed

text \<open>
  Reading a string is safe whenever the end pointer is within the buffer, and never
  moves the pointer past the end.
\<close>

lemma readMQTTLenString_safe:
  assumes "e \<le> int (length buf)"
  shows "\<exists>rc s' q. readMQTTLenString s buf p e = Some (rc, s', q) \<and>
    (rc = 0 \<or> rc = 1) \<and> p \<le> q \<and> (int p \<le> e \<longrightarrow> int q \<le> e) \<and> (rc = 1 \<longrightarrow> wf_mqtt_string s')"
proof (cases "e - int p > 1")
  case True
  with assms obtain n where n: "readInt buf p = Some (n, p + 2)"
    using readInt_defined [of p buf] by auto
  with True assms readInt_range [OF n] show ?thesis
    by (auto simp: readMQTTLenString_def wf_mqtt_string_def Let_def)
next
  case False
  then show ?thesis by (simp add: readMQTTLenString_def)
qed

text \<open>
  The steps of a parser: at offset \<open>p\<close> the buffer continues with the expected field, and
  behind it the rest. \<open>str_is\<close> says that a string was read back as a counted string.
\<close>

lemma readChar_drop [mem_simps]: "drop p b = c # r \<Longrightarrow> readChar b p = Some (c, Suc p)"
  by (simp add: readChar_def rd_drop)

definition str_is :: "mqtt_string \<Rightarrow> bytes \<Rightarrow> bool" where
  "str_is s t \<longleftrightarrow> cstring s = None \<and> lenstring_len s = int (length t) \<and>
     (case lenstring_data s of Some d \<Rightarrow> take (length t) d = t | None \<Rightarrow> False)"

lemma read_str:
  assumes "drop p buf = lenstr t @ r" and "length t < 65536" and "int p + 2 + int (length t) \<le> e"
  shows "\<exists>s'. readMQTTLenString s buf p e = Some (1, s', p + 2 + length t) \<and> str_is s' t \<and>
    drop (p + 2 + length t) buf = r"
  using readMQTTLenString_lenstr [OF assms, of s] drop_step [OF assms(1)]
  by (auto simp: str_is_def)

lemma readInt_drop:
  "drop p buf = u16be n @ r \<Longrightarrow> n < 65536 \<Longrightarrow> readInt buf p = Some (int n, p + 2) \<and> drop (p + 2) buf = r"
  using readInt_u16be drop_step [of p buf "u16be n" r] by simp

section \<open>Byte sources\<close>

text \<open>
  The interface of a source: \<open>pending\<close> is what it still holds. \<open>byte_source\<close> delivers one
  byte at a time, which is all that decoding a length needs; a \<open>block_source\<close> delivers any
  number of bytes it holds, as the body of a packet needs.
\<close>

locale byte_source =
  fixes getfn :: "'s getfn" and pending :: "'s \<Rightarrow> bytes"
  assumes get_one: "pending s = c # r \<Longrightarrow> \<exists>s'. getfn s 1 = Some (1, [c], s') \<and> pending s' = r"
begin

lemma decode_loop_vbi:
  assumes "pending s = vbi n @ r" and "n < 128 ^ (4 - len)" and "len < 4"
  shows "\<exists>s'. decode_loop getfn s c len mult val =
      Some (len + length (vbi n), val + int n * mult, s') \<and> pending s' = r"
  using assms
proof (induction n arbitrary: s c len mult val rule: less_induct)
  case (less n)
  show ?case
  proof (cases "n < 128")
    case True
    with less.prems obtain s' where s': "getfn s 1 = Some (1, [of_nat n], s')" "pending s' = r"
      using get_one [of s "of_nat n" r] by (auto simp: vbi_small)
    have u: "uint (of_nat n :: u8) = int n"
      using True by (simp add: uint_of_nat_u8)
    then have "(of_nat n :: u8) AND 128 = 0" "uint ((of_nat n :: u8) AND 127) = int n"
      using True by (simp_all only: c_and_127 c_and_128) simp_all
    then show ?thesis using s' less.prems(3) True
      by (subst decode_loop.simps) (simp add: vbi_small)
  next
    case False
    let ?c = "of_nat (n mod 128 + 128) :: u8"
    obtain s1 where s1: "getfn s 1 = Some (1, [?c], s1)" "pending s1 = vbi (n div 128) @ r"
      using get_one [of s ?c "vbi (n div 128) @ r"] less.prems(1) False by (auto simp: vbi_large)
    have u: "uint ?c = int (n mod 128) + 128"
      by (subst uint_of_nat_u8) simp_all
    have c: "?c AND 128 \<noteq> 0" "uint (?c AND 127) = int (n mod 128)"
      by (simp_all only: c_and_127 c_and_128 u) simp_all
    have "len < 3" "n div 128 < 128 ^ (4 - Suc len)"
    proof -
      have "\<not> 4 - len = 1" using less.prems(2) False by (intro notI) simp
      with less.prems(3) show "len < 3" by simp
      then have "128 ^ (4 - len) = 128 * (128::nat) ^ (4 - Suc len)"
        by (simp flip: power_Suc add: Suc_diff_Suc)
      with less.prems(2) show "n div 128 < 128 ^ (4 - Suc len)"
        by (simp add: less_mult_imp_div_less mult.commute)
    qed
    with less.IH [of "n div 128" s1 "Suc len" ?c "mult * 128" "val + int (n mod 128) * mult"] s1 False
    obtain s' where s': "decode_loop getfn s1 ?c (Suc len) (mult * 128) (val + int (n mod 128) * mult) =
        Some (Suc len + length (vbi (n div 128)), val + int (n mod 128) * mult + int (n div 128) * (mult * 128), s')"
      and p': "pending s' = r" by auto
    have "int n = int (n mod 128) + int (n div 128) * 128"
      by (metis mod_div_mult_eq of_nat_add of_nat_mult of_nat_numeral)
    then have v: "val + int (n mod 128) * mult + int (n div 128) * (mult * 128) = val + int n * mult"
      by (simp add: algebra_simps)
    show ?thesis
      using s' s1 p' \<open>len < 3\<close> c False unfolding v
      by (subst decode_loop.simps) (simp add: vbi_large del: of_nat_add)
  qed
qed

lemma decode_vbi:
  assumes "pending s = vbi n @ r" and "n < 2 ^ 28"
  shows "\<exists>s'. MQTTPacket_decode getfn s = Some (length (vbi n), int n, s') \<and> pending s' = r"
  using decode_loop_vbi [of s n r 0 0 1 0] assms by (simp add: MQTTPacket_decode_def)

end

locale block_source = byte_source +
  assumes get_block: "n \<le> length (pending s) \<Longrightarrow> 0 < n \<Longrightarrow>
    \<exists>s'. getfn s n = Some (int n, take n (pending s), s') \<and> pending s' = drop n (pending s)"

interpretation buf_source: byte_source "bufchar buf" "\<lambda>p. drop p buf"
proof
  fix p c r
  assume d: "drop p buf = c # r"
  then have "p < length buf" "buf ! p = c" "drop (Suc p) buf = r"
    by (metis drop_eq_Nil leI list.discI, metis nth_via_drop, metis drop_step1)
  then show "\<exists>s'. bufchar buf p 1 = Some (1, [c], s') \<and> drop s' buf = r"
    by (auto simp: bufchar_def)
qed

lemma decodeBuf_vbi:
  assumes "drop p buf = vbi n @ r" and "n < 2 ^ 28"
  shows "MQTTPacket_decodeBuf buf p = Some (length (vbi n), int n)"
  using buf_source.decode_vbi [OF assms] by (auto simp: MQTTPacket_decodeBuf_def)

section \<open>Bounds\<close>

text \<open>Whatever the source answers, decoding counts at most five bytes and stays below 2^28.\<close>

lemma decode_loop_bounds:
  assumes "decode_loop getfn s c len mult val = Some (len', val', s')"
    and "len < 5" and "mult = 128 ^ len" and "0 \<le> val" and "val < 128 ^ len"
  shows "len < len' \<and> len' \<le> 5 \<and> 0 \<le> val' \<and> val' < 2 ^ 28"
  using assms
proof (induction getfn s c len mult val rule: decode_loop.induct)
  case (1 getfn s c len mult val)
  show ?case
  proof (cases "4 < len + 1")
    case True
    with "1.prems" have "len = 4" by simp
    with "1.prems" True show ?thesis
      by (simp add: decode_loop.simps [of getfn s c 4])
  next
    case False
    then have pw: "(128::int) ^ len \<le> 128 ^ 3" and pw4: "(128::int) ^ Suc len \<le> 128 ^ 4"
      by (intro power_increasing; simp)+
    obtain rc bs s1 where g: "getfn s 1 = Some (rc, bs, s1)"
      using "1.prems"(1) False
      by (auto simp: decode_loop.simps [of getfn s c len mult val] split: Option.bind_splits)
    let ?c = "case bs of [] \<Rightarrow> c | x # _ \<Rightarrow> x"
    let ?v = "val + uint (?c AND 127) * mult"
    show ?thesis
    proof (cases "rc = 1")
      case False
      with g \<open>\<not> 4 < len + 1\<close> have "decode_loop getfn s c len mult val = Some (len + 1, val, s1)"
        by (simp add: decode_loop.simps [of getfn s c len mult val])
      with "1.prems" pw \<open>\<not> 4 < len + 1\<close> show ?thesis by auto
    next
      case True
      have "0 \<le> uint (?c AND 127)" "uint (?c AND 127) \<le> 127"
        unfolding c_and_127 by simp_all
      then have "0 \<le> uint (?c AND 127) * mult" and "uint (?c AND 127) * mult \<le> 127 * mult"
        using "1.prems"(3) by (auto intro: mult_right_mono)
      moreover have "val < mult" using "1.prems"(3,5) by simp
      ultimately have "0 \<le> ?v" "?v < 128 * mult" using "1.prems"(4) by linarith+
      then have v: "0 \<le> ?v" "?v < 128 ^ Suc len" using "1.prems"(3) by simp_all
      show ?thesis
      proof (cases "?c AND 128 = 0")
        case True
        with g \<open>rc = 1\<close> \<open>\<not> 4 < len + 1\<close> have "decode_loop getfn s c len mult val = Some (len + 1, ?v, s1)"
          by (simp add: decode_loop.simps [of getfn s c len mult val] Let_def)
        with "1.prems"(1) v pw4 \<open>\<not> 4 < len + 1\<close> show ?thesis by auto
      next
        case False
        with g \<open>rc = 1\<close> \<open>\<not> 4 < len + 1\<close>
        have "decode_loop getfn s c len mult val = decode_loop getfn s1 ?c (len + 1) (mult * 128) ?v"
          by (simp add: decode_loop.simps [of getfn s c len mult val] Let_def)
        with "1.prems"(1)
        have "decode_loop getfn s1 ?c (len + 1) (mult * 128) ?v = Some (len', val', s')"
          by simp
        then have "len + 1 < len' \<and> len' \<le> 5 \<and> 0 \<le> val' \<and> val' < 2 ^ 28"
          using "1.IH" [OF refl \<open>\<not> 4 < len + 1\<close> g refl refl _ refl refl refl] \<open>rc = 1\<close> False
            "1.prems"(3) v \<open>\<not> 4 < len + 1\<close> by simp
        then show ?thesis by simp
      qed
    qed
  qed
qed

lemma decode_bounds:
  "MQTTPacket_decode getfn s = Some (len, val, s') \<Longrightarrow> 1 \<le> len \<and> len \<le> 5 \<and> 0 \<le> val \<and> val < 2 ^ 28"
  using decode_loop_bounds [of getfn s 0 0 1 0] by (simp add: MQTTPacket_decode_def)

text \<open>
  \<open>MQTTPacket_len\<close> never underestimates the length of a packet that MQTT allows: it is
  the header byte, the remaining length and the length's own encoding, or one byte more.
\<close>

lemma length_vbi_cases:
  "n < 2 ^ 28 \<Longrightarrow> length (vbi n) =
     (if n < 128 then 1 else if n < 16384 then 2 else if n < 2097152 then 3 else 4)"
  by (simp add: vbi_small vbi_large div_mult2_eq [symmetric] less_mult_imp_div_less not_less
        div_greater_zero_iff)

lemma MQTTPacket_len_bound:
  assumes "n < 2 ^ 28"
  shows "1 + int (length (vbi n)) + int n \<le> MQTTPacket_len (int n)"
    and "MQTTPacket_len (int n) \<le> 2 + int (length (vbi n)) + int n"
  using assms by (auto simp: length_vbi_cases MQTTPacket_len_def Let_def)

section \<open>Framing\<close>

text \<open>Storing a single byte through \<open>memcpy\<close> and the copy of a block at the front of a buffer.\<close>

lemma wr_bytes_single: "0 < length b \<Longrightarrow> wr_bytes b 0 [c] = Some (c # drop 1 b)"
  by (cases b) (simp_all add: wr_bytes_def)

lemma MQTTPacket_encode_emit:
  "MQTTPacket_encode b p (int n) = map_option (\<lambda>b'. (b', length (vbi n))) (wr_bytes b p (vbi n))"
  by (simp add: MQTTPacket_encode_def encode_loop_emit)

definition packet :: "u8 \<Rightarrow> bytes \<Rightarrow> bytes" where
  "packet h body = h # vbi (length body) @ body"

lemma length_packet [simp]: "length (packet h body) = 1 + length (vbi (length body)) + length body"
  by (simp add: packet_def)

lemma emit_packet:
  assumes "length (packet h body) \<le> length buf"
  shows "emit (buf, 0) (packet h body) =
    Some (packet h body @ drop (length (packet h body)) buf, length (packet h body))"
  using emit_fits [of 0 "packet h body" buf] assms by simp

context block_source
begin

lemma read_packet:
  assumes p: "pending s = packet h body @ r" and n: "length body < 2 ^ 28"
    and fits: "length (packet h body) \<le> length buf"
  shows "\<exists>s'. MQTTPacket_read getfn s buf (int (length buf)) =
      Some (uint (hdr_type h), packet h body @ drop (length (packet h body)) buf, s') \<and> pending s' = r"
proof -
  let ?n = "length body" and ?v = "vbi (length body)"
  obtain s1 where s1: "getfn s 1 = Some (1, [h], s1)" "pending s1 = ?v @ body @ r"
    using get_one [of s h "?v @ body @ r"] p by (auto simp: packet_def)
  obtain s2 where s2: "MQTTPacket_decode getfn s1 = Some (length ?v, int ?n, s2)" "pending s2 = body @ r"
    using decode_vbi [OF s1(2) n] by auto
  have b1: "wr_bytes buf 0 [h] = Some (h # drop 1 buf)"
    using fits by (intro wr_bytes_single) (auto simp: packet_def)
  have "MQTTPacket_encode (h # drop 1 buf) 1 (int ?n) =
      Some (h # ?v @ drop (1 + length ?v) buf, length ?v)"
    using fits by (simp add: MQTTPacket_encode_emit wr_bytes_def)
  note enc = this
  show ?thesis
  proof (cases "body = []")
    case True
    with s1 s2 b1 enc fits show ?thesis
      by (simp add: MQTTPacket_read_def rd_def packet_def)
  next
    case False
    then obtain s3 where s3: "getfn s2 ?n = Some (int ?n, body, s3)" "pending s3 = r"
      using get_block [of ?n s2] s2(2) by auto
    have "wr_bytes (h # ?v @ drop (1 + length ?v) buf) (1 + length ?v) body =
      Some (packet h body @ drop (length (packet h body)) buf)"
      using fits by (simp add: wr_bytes_def packet_def add.commute)
    with s1 s2 s3 b1 enc fits False show ?thesis
      by (simp add: MQTTPacket_read_def rd_def) (simp add: packet_def)
  qed
qed

end

section \<open>Properties\<close>

text \<open>
  C34: The remaining length survives the wire: every length MQTT allows (below 2^28) that is
  encoded into a buffer with room for it takes one to four bytes, and decoding at the same place
  gives the length and the number of bytes back; nothing outside of these bytes changes.
\<close>

theorem remaining_length_roundtrip:
  assumes "n < 2 ^ 28" and "p + 4 \<le> length buf"
  shows "\<exists>buf' k. MQTTPacket_encode buf p (int n) = Some (buf', k) \<and> 1 \<le> k \<and> k \<le> 4 \<and>
    MQTTPacket_decodeBuf buf' p = Some (k, int n) \<and>
    take p buf' = take p buf \<and> drop (p + k) buf' = drop (p + k) buf"
proof -
  have k: "length (vbi n) \<le> 4" "1 \<le> length (vbi n)"
    using assms(1) length_vbi_le [of n 4] length_vbi_pos [of n] by (simp_all add: Suc_le_eq)
  let ?b = "take p buf @ vbi n @ drop (p + length (vbi n)) buf"
  have w: "wr_bytes buf p (vbi n) = Some ?b" using assms(2) k by (simp add: wr_bytes_def)
  have "drop p ?b = vbi n @ drop (p + length (vbi n)) buf" using assms(2) by simp
  from decodeBuf_vbi [OF this assms(1)] w k assms(2) show ?thesis
    by (intro exI [of _ ?b] exI [of _ "length (vbi n)"]) (simp add: MQTTPacket_encode_emit)
qed

theorem remaining_length_roundtrip_witness:
  "\<exists>buf' k. MQTTPacket_encode (replicate 6 0) 1 321 = Some (buf', k) \<and> k \<le> 4 \<and>
    MQTTPacket_decodeBuf buf' 1 = Some (k, 321)"
  using remaining_length_roundtrip [of 321 1 "replicate 6 0"] by auto

text \<open>
  The length check the serialisers make before they write is sound: for every remaining
  length MQTT allows, \<open>MQTTPacket_len\<close> is at least the length of the whole packet, and at most
  one byte more.
\<close>

theorem packet_len_sound:
  assumes "length body < 2 ^ 28"
  shows "int (length (packet h body)) \<le> MQTTPacket_len (int (length body)) \<and>
    MQTTPacket_len (int (length body)) \<le> int (length (packet h body)) + 1"
  using MQTTPacket_len_bound [OF assms] by simp

theorem packet_len_sound_witness:
  "int (length (packet 0 (replicate 200 0))) \<le> MQTTPacket_len (int (length (replicate 200 (0 :: u8))))"
  using packet_len_sound [of "replicate 200 0" 0] by simp

lemma decode_loop_total:
  assumes src: "\<And>s n. \<exists>rc bs s'. getfn s n = Some (rc, bs, s') \<and> length bs \<le> n"
  shows "\<exists>k v s'. decode_loop getfn s c len mult val = Some (k, v, s')"
proof (induction "5 - len" arbitrary: s c len mult val)
  case 0
  then show ?case by (simp add: decode_loop.simps [of getfn s c len])
next
  case (Suc m)
  obtain rc bs s' where g: "getfn s 1 = Some (rc, bs, s')" using src by blast
  from Suc.hyps(2) have "m = 5 - (len + 1)" by simp
  from Suc.hyps(1) [OF this] g show ?case
    by (subst decode_loop.simps) (simp add: Let_def)
qed

text \<open>
  C33: Reading a packet never leaves the buffer: whatever bytes and result codes the source
  answers, as long as it never stores more than it was asked for, \<open>MQTTPacket_read\<close> returns,
  with every store inside a caller's buffer of at least five bytes, and yields -1 or a packet type below 16.
\<close>

theorem packet_read_memory_safe:
  assumes src: "\<And>s n. \<exists>rc bs s'. getfn s n = Some (rc, bs, s') \<and> length bs \<le> n"
    and buf: "5 \<le> length buf"
  shows "\<exists>rc buf' s'. MQTTPacket_read getfn s buf (int (length buf)) = Some (rc, buf', s') \<and>
    length buf' = length buf \<and> - 1 \<le> rc \<and> rc < 16"
proof -
  obtain rc bs s1 where g1: "getfn s 1 = Some (rc, bs, s1)" "length bs \<le> 1" using src by blast
  then have "0 + length bs \<le> length buf" using buf by simp
  then obtain b1 where b1: "wr_bytes buf 0 bs = Some b1" "length b1 = length buf"
    using wr_bytes_ok by blast
  show ?thesis
  proof (cases "rc = 1")
    case False
    with g1 b1 show ?thesis by (simp add: MQTTPacket_read_def)
  next
    case True
    obtain k v s2 where d: "MQTTPacket_decode getfn s1 = Some (k, v, s2)"
      using decode_loop_total [where getfn = getfn and s = s1 and c = 0 and len = 0 and mult = 1 and val = 0, OF src] by (auto simp: MQTTPacket_decode_def)
    then have v: "0 \<le> v" "v < 2 ^ 28" using decode_bounds [OF d] by auto
    then have lv: "length (vbi (nat v)) \<le> 4" using length_vbi_le [of "nat v" 4] by simp
    let ?n = "length (vbi (nat v))"
    have "1 + ?n \<le> length b1" using lv buf b1(2) by simp
    then obtain b2 where "wr_bytes b1 1 (vbi (nat v)) = Some b2" "length b2 = length b1"
      using wr_bytes_ok by blast
    then have b2: "MQTTPacket_encode b1 1 v = Some (b2, ?n)" "length b2 = length buf"
      using MQTTPacket_encode_emit [of b1 1 "nat v"] v(1) b1(2) by simp_all
    have ty: "- 1 \<le> uint (hdr_type h) \<and> uint (hdr_type h) < 16" for h
    proof -
      have "uint (hdr_type h) = take_bit 4 (uint (drop_bit 4 h))"
        by (simp only: hdr_type_def unsigned_take_bit_eq)
      then show ?thesis by (simp add: take_bit_eq_mod order.trans [of "- 1" 0])
    qed
    show ?thesis
    proof (cases "v + int (1 + ?n) > int (length buf) \<or> v = 0")
      case True
      with g1 b1 d b2 \<open>rc = 1\<close> ty buf show ?thesis
        by (auto simp: MQTTPacket_read_def rd_def)
    next
      case False
      obtain rc3 bs3 s3 where g3: "getfn s2 (nat v) = Some (rc3, bs3, s3)" "length bs3 \<le> nat v"
        using src by blast
      then have "1 + ?n + length bs3 \<le> length b2" using False b2(2) v(1) by auto
      then obtain b3 where "wr_bytes b2 (1 + ?n) bs3 = Some b3" "length b3 = length buf"
        using wr_bytes_ok b2(2) by metis
      with g1 b1 d b2 g3 False \<open>rc = 1\<close> ty buf show ?thesis
        by (auto simp: MQTTPacket_read_def rd_def)
    qed
  qed
qed

theorem packet_read_memory_safe_witness:
  "\<exists>rc buf' s'. MQTTPacket_read (\<lambda>s n. Some (int n, replicate n 0x7F, s)) () (replicate 5 0) 5 =
     Some (rc, buf', s') \<and> length buf' = 5 \<and> rc < 16"
  using packet_read_memory_safe [of "\<lambda>s n. Some (int n, replicate n 0x7F, s)" "replicate 5 0" "()"] by auto

end
