(* ===== verification/MQTT_Connect.thy ===== *)
theory MQTT_Connect
  imports MQTT_Packet
begin

unbundle bit_operations_syntax

text \<open>
  Connecting: \<open>MQTT/MQTTConnect.h\<close>, \<open>MQTTConnectClient.c\<close> and \<open>MQTTConnectServer.c\<close>. A
  serialiser takes the buffer and the length the caller claims for it, and returns its
  result code and the buffer; a deserialiser takes the old values of what it stores through
  pointers and returns the new ones with its result code.
\<close>

section \<open>Connect flags and connect data\<close>

text \<open>
  The union \<open>MQTTConnectFlags\<close>: from the least significant bit one unused bit, then
  \<open>cleansession:1, will:1, willQoS:2, willRetain:1, password:1, username:1\<close>.
\<close>

record connect_flags =
  f_username :: u8
  f_password :: u8
  f_willRetain :: u8
  f_willQoS :: u8
  f_will :: u8
  f_cleansession :: u8

definition flags_all :: "connect_flags \<Rightarrow> u8" where
  "flags_all f =
     push_bit 7 (take_bit 1 (f_username f)) OR push_bit 6 (take_bit 1 (f_password f)) OR
     push_bit 5 (take_bit 1 (f_willRetain f)) OR push_bit 3 (take_bit 2 (f_willQoS f)) OR
     push_bit 2 (take_bit 1 (f_will f)) OR push_bit 1 (take_bit 1 (f_cleansession f))"

definition flags_of :: "u8 \<Rightarrow> connect_flags" where
  "flags_of b = \<lparr>f_username = take_bit 1 (drop_bit 7 b), f_password = take_bit 1 (drop_bit 6 b),
     f_willRetain = take_bit 1 (drop_bit 5 b), f_willQoS = take_bit 2 (drop_bit 3 b),
     f_will = take_bit 1 (drop_bit 2 b), f_cleansession = take_bit 1 (drop_bit 1 b)\<rparr>"

record will_options =
  will_struct_id :: bytes
  will_struct_version :: int
  topicName :: mqtt_string
  message :: mqtt_string
  retained :: u8
  will_qos :: u8

record connect_data =
  struct_id :: bytes
  struct_version :: int
  MQTTVersion :: u8
  clientID :: mqtt_string
  keepAliveInterval :: u16
  cleansession :: u8
  willFlag :: u8
  will :: will_options
  username :: mqtt_string
  password :: mqtt_string

definition MQTTPacket_willOptions_initializer :: will_options where
  "MQTTPacket_willOptions_initializer =
     \<lparr>will_struct_id = [0x4D, 0x51, 0x54, 0x57], will_struct_version = 0,
      topicName = MQTTString_initializer, message = MQTTString_initializer,
      retained = 0, will_qos = 0\<rparr>"

definition MQTTPacket_connectData_initializer :: connect_data where
  "MQTTPacket_connectData_initializer =
     \<lparr>struct_id = [0x4D, 0x51, 0x54, 0x43], struct_version = 0, MQTTVersion = 4,
      clientID = MQTTString_initializer, keepAliveInterval = 60, cleansession = 1, willFlag = 0,
      will = MQTTPacket_willOptions_initializer,
      username = MQTTString_initializer, password = MQTTString_initializer\<rparr>"

text \<open>The protocol names \<open>MQTT\<close> and \<open>MQIsdp\<close>.\<close>

definition name_MQTT :: bytes where "name_MQTT = [0x4D, 0x51, 0x54, 0x54]"
definition name_MQIsdp :: bytes where "name_MQIsdp = [0x4D, 0x51, 0x49, 0x73, 0x64, 0x70]"

definition present :: "mqtt_string \<Rightarrow> bool" where
  "present s \<longleftrightarrow> cstring s \<noteq> None \<or> lenstring_data s \<noteq> None"

section \<open>Client side\<close>

definition MQTTSerialize_connectLength :: "connect_data \<Rightarrow> int option" where
  "MQTTSerialize_connectLength opts = do {
     let len = (if MQTTVersion opts = 3 then 12 else if MQTTVersion opts = 4 then 10 else 0);
     n \<leftarrow> MQTTstrlen (clientID opts);
     let len = len + n + 2;
     len \<leftarrow> (if willFlag opts \<noteq> 0 then do {
         t \<leftarrow> MQTTstrlen (topicName (will opts));
         m \<leftarrow> MQTTstrlen (message (will opts));
         Some (len + (t + 2 + m + 2)) } else Some len);
     len \<leftarrow> (if present (username opts) then do {
         u \<leftarrow> MQTTstrlen (username opts); Some (len + (u + 2)) } else Some len);
     if present (password opts) then do {
         p \<leftarrow> MQTTstrlen (password opts); Some (len + (p + 2)) } else Some len }"

definition connect_flags_of :: "connect_data \<Rightarrow> connect_flags" where
  "connect_flags_of opts =
     (let w = willFlag opts \<noteq> 0 in
      \<lparr>f_username = (if present (username opts) then 1 else 0),
       f_password = (if present (password opts) then 1 else 0),
       f_willRetain = (if w then retained (will opts) else 0),
       f_willQoS = (if w then will_qos (will opts) else 0),
       f_will = (if w then 1 else 0),
       f_cleansession = cleansession opts\<rparr>)"

definition MQTTSerialize_connect :: "bytes \<Rightarrow> int \<Rightarrow> connect_data \<Rightarrow> (int \<times> bytes) option" where
  "MQTTSerialize_connect buf buflen opts = do {
     len \<leftarrow> MQTTSerialize_connectLength opts;
     if MQTTPacket_len len > buflen then Some (MQTTPACKET_BUFFER_TOO_SHORT, buf)
     else do {
       ptr \<leftarrow> writeChar (buf, 0) (mk_header CONNECT 0 0 0);
       ptr \<leftarrow> encode_adv ptr len;
       ptr \<leftarrow> (if MQTTVersion opts = 4
              then do { ptr \<leftarrow> writeCString ptr (c_str name_MQTT); writeChar ptr 4 }
              else do { ptr \<leftarrow> writeCString ptr (c_str name_MQIsdp); writeChar ptr 3 });
       ptr \<leftarrow> writeChar ptr (flags_all (connect_flags_of opts));
       ptr \<leftarrow> writeInt ptr (uint (keepAliveInterval opts));
       ptr \<leftarrow> writeMQTTString ptr (clientID opts);
       ptr \<leftarrow> (if willFlag opts \<noteq> 0 then do {
           ptr \<leftarrow> writeMQTTString ptr (topicName (will opts));
           writeMQTTString ptr (message (will opts)) } else Some ptr);
       ptr \<leftarrow> (if f_username (connect_flags_of opts) \<noteq> 0
              then writeMQTTString ptr (username opts) else Some ptr);
       ptr \<leftarrow> (if f_password (connect_flags_of opts) \<noteq> 0
              then writeMQTTString ptr (password opts) else Some ptr);
       Some (int (snd ptr), fst ptr) } }"

text \<open>
  \<open>MQTTDeserialize_connack\<close>: the result code starts as 0 but is overwritten by the length of
  the remaining-length field before the packet is checked.
\<close>

definition MQTTDeserialize_connack :: "u8 \<Rightarrow> u8 \<Rightarrow> bytes \<Rightarrow> (int \<times> u8 \<times> u8) option" where
  "MQTTDeserialize_connack sessionPresent connack_rc buf = do {
     (h, cur) \<leftarrow> readChar buf 0;
     if hdr_type h \<noteq> CONNACK then Some (0, sessionPresent, connack_rc)
     else do {
       (n, mylen) \<leftarrow> MQTTPacket_decodeBuf buf cur;
       let cur = cur + n;
       if mylen < 2 then Some (int n, sessionPresent, connack_rc)
       else do {
         (f, cur) \<leftarrow> readChar buf cur;
         (c, cur) \<leftarrow> readChar buf cur;
         Some (1, take_bit 1 f, c) } } }"

definition MQTTSerialize_zero :: "bytes \<Rightarrow> int \<Rightarrow> u8 \<Rightarrow> (int \<times> bytes) option" where
  "MQTTSerialize_zero buf buflen packettype =
     (if buflen < 2 then Some (MQTTPACKET_BUFFER_TOO_SHORT, buf)
      else do {
        ptr \<leftarrow> writeChar (buf, 0) (mk_header packettype 0 0 0);
        ptr \<leftarrow> encode_adv ptr 0;
        Some (int (snd ptr), fst ptr) })"

definition MQTTSerialize_disconnect :: "bytes \<Rightarrow> int \<Rightarrow> (int \<times> bytes) option" where
  "MQTTSerialize_disconnect buf buflen = MQTTSerialize_zero buf buflen DISCONNECT"

definition MQTTSerialize_pingreq :: "bytes \<Rightarrow> int \<Rightarrow> (int \<times> bytes) option" where
  "MQTTSerialize_pingreq buf buflen = MQTTSerialize_zero buf buflen PINGREQ"

section \<open>Server side\<close>

text \<open>\<open>memcmp\<close> of a pointer with a name of the code over \<open>n\<close> bytes.\<close>

definition c_memcmp_eq :: "bytes option \<Rightarrow> bytes \<Rightarrow> nat \<Rightarrow> bool option" where
  "c_memcmp_eq d name n =
     (if n = 0 then Some True
      else do { a \<leftarrow> d; x \<leftarrow> rd_bytes a 0 n; y \<leftarrow> rd_bytes name 0 n; Some (x = y) })"

definition MQTTPacket_checkVersion :: "mqtt_string \<Rightarrow> int \<Rightarrow> bool option" where
  "MQTTPacket_checkVersion protocol version =
     (if version = 3 then
        c_memcmp_eq (lenstring_data protocol) name_MQIsdp (nat (min 6 (lenstring_len protocol)))
      else if version = 4 then
        c_memcmp_eq (lenstring_data protocol) name_MQTT (nat (min 4 (lenstring_len protocol)))
      else Some False)"

text \<open>The credentials: \<open>None\<close> stands for \<open>goto exit\<close> with \<open>rc\<close> still 0.\<close>

definition read_credentials ::
    "connect_flags \<Rightarrow> connect_data \<Rightarrow> bytes \<Rightarrow> nat \<Rightarrow> int \<Rightarrow> (int \<times> connect_data) option" where
  "read_credentials f d buf cur e =
     (if f_username f \<noteq> 0 then
        (if e - int cur < 3 then Some (0, d)
         else do {
           (rc, u, cur) \<leftarrow> readMQTTLenString (username d) buf cur e;
           let d = d\<lparr>username := u\<rparr>;
           if rc = 0 then Some (0, d)
           else if f_password f \<noteq> 0 then
             (if e - int cur < 3 then Some (0, d)
              else do {
                (rc, p, cur) \<leftarrow> readMQTTLenString (password d) buf cur e;
                Some (if rc = 0 then 0 else 1, d\<lparr>password := p\<rparr>) })
           else Some (1, d) })
      else if f_password f \<noteq> 0 then Some (0, d) else Some (1, d))"

definition MQTTDeserialize_connect :: "connect_data \<Rightarrow> bytes \<Rightarrow> int \<Rightarrow> (int \<times> connect_data) option" where
  "MQTTDeserialize_connect d buf len = do {
     (h, cur) \<leftarrow> readChar buf 0;
     if hdr_type h \<noteq> CONNECT then Some (0, d)
     else do {
       (n, mylen) \<leftarrow> MQTTPacket_decodeBuf buf cur;
       let cur = cur + n;
       (rc, protocol, cur) \<leftarrow> readMQTTLenString MQTTString_initializer buf cur len;
       if rc = 0 \<or> len - int cur < 0 then Some (0, d)
       else do {
         (v, cur) \<leftarrow> readChar buf cur;
         ok \<leftarrow> MQTTPacket_checkVersion protocol (uint v);
         if \<not> ok then Some (0, d)
         else do {
           (fb, cur) \<leftarrow> readChar buf cur;
           let f = flags_of fb;
           let d = d\<lparr>cleansession := f_cleansession f\<rparr>;
           (k, cur) \<leftarrow> readInt buf cur;
           let d = d\<lparr>keepAliveInterval := word_of_int k\<rparr>;
           (rc, c, cur) \<leftarrow> readMQTTLenString (clientID d) buf cur len;
           let d = d\<lparr>clientID := c\<rparr>;
           if rc = 0 then Some (0, d)
           else
             let d = d\<lparr>willFlag := f_will f\<rparr>
             in if f_will f \<noteq> 0 then do {
               let d = d\<lparr>will := (will d)\<lparr>will_qos := f_willQoS f, retained := f_willRetain f\<rparr>\<rparr>;
               (rc, t, cur) \<leftarrow> readMQTTLenString (topicName (will d)) buf cur len;
               let d = d\<lparr>will := (will d)\<lparr>topicName := t\<rparr>\<rparr>;
               if rc = 0 then Some (0, d)
               else do {
                 (rc, m, cur) \<leftarrow> readMQTTLenString (message (will d)) buf cur len;
                 let d = d\<lparr>will := (will d)\<lparr>message := m\<rparr>\<rparr>;
                 if rc = 0 then Some (0, d) else read_credentials f d buf cur len } }
             else read_credentials f d buf cur len } } } }"

definition MQTTSerialize_connack :: "bytes \<Rightarrow> int \<Rightarrow> u8 \<Rightarrow> u8 \<Rightarrow> (int \<times> bytes) option" where
  "MQTTSerialize_connack buf buflen connack_rc sessionPresent =
     (if buflen < 2 then Some (MQTTPACKET_BUFFER_TOO_SHORT, buf)
      else do {
        ptr \<leftarrow> writeChar (buf, 0) (mk_header CONNACK 0 0 0);
        ptr \<leftarrow> encode_adv ptr 2;
        ptr \<leftarrow> writeChar ptr (take_bit 1 sessionPresent);
        ptr \<leftarrow> writeChar ptr connack_rc;
        Some (int (snd ptr), fst ptr) })"

section \<open>The packet a CONNECT is\<close>

definition wf_connect :: "connect_data \<Rightarrow> bool" where
  "wf_connect opts \<longleftrightarrow> (MQTTVersion opts = 3 \<or> MQTTVersion opts = 4) \<and>
     wf_mqtt_string (clientID opts) \<and>
     (willFlag opts \<noteq> 0 \<longrightarrow>
        wf_mqtt_string (topicName (will opts)) \<and> wf_mqtt_string (message (will opts))) \<and>
     wf_mqtt_string (username opts) \<and> wf_mqtt_string (password opts)"

definition opt_str :: "bool \<Rightarrow> mqtt_string \<Rightarrow> bytes" where
  "opt_str b s = (if b then lenstr (text_of s) else [])"

definition connect_body :: "connect_data \<Rightarrow> bytes" where
  "connect_body opts =
     lenstr (if MQTTVersion opts = 4 then name_MQTT else name_MQIsdp) @
     [if MQTTVersion opts = 4 then 4 else 3, flags_all (connect_flags_of opts)] @
     u16be (unat (keepAliveInterval opts)) @
     lenstr (text_of (clientID opts)) @
     opt_str (willFlag opts \<noteq> 0) (topicName (will opts)) @
     opt_str (willFlag opts \<noteq> 0) (message (will opts)) @
     opt_str (present (username opts)) (username opts) @
     opt_str (present (password opts)) (password opts)"

lemma connectLength_body:
  assumes "wf_connect opts"
  shows "MQTTSerialize_connectLength opts = Some (int (length (connect_body opts)))"
  using assms
  by (auto simp: MQTTSerialize_connectLength_def connect_body_def wf_connect_def opt_str_def
      MQTTstrlen_text name_MQTT_def name_MQIsdp_def Let_def)

lemma emit_opt_str:
  "wf_mqtt_string s \<Longrightarrow>
     (if b then writeMQTTString w s else Some w) = (if b then emit w (opt_str b s) else Some w)"
  by (simp add: writeMQTTString_emit opt_str_def)

lemma emit_some: "emit w xs \<bind> (\<lambda>w. if b then emit w ys else Some w) = emit w (xs @ (if b then ys else []))"
  by (cases b) (simp_all add: emit_emit)

lemma emit_some_bind:
  "emit w xs \<bind> (\<lambda>w. (if b then emit w ys else Some w) \<bind> f) = emit w (xs @ (if b then ys else [])) \<bind> f"
  by (cases b) (simp_all add: emit_emit_bind)

lemma strlen_names [simp]:
  "c_strlen (c_str name_MQTT) = Some 4" "c_strlen (c_str name_MQIsdp) = Some 6"
  "take 4 (c_str name_MQTT) = name_MQTT" "take 6 (c_str name_MQIsdp) = name_MQIsdp"
  by (simp_all add: name_MQTT_def name_MQIsdp_def c_str_def)

lemma serialize_connect_emit:
  assumes wf: "wf_connect opts" and fits: "MQTTPacket_len (int (length (connect_body opts))) \<le> buflen"
  shows "MQTTSerialize_connect buf buflen opts =
    map_option (\<lambda>(b, n). (int n, b)) (emit (buf, 0) (packet (mk_header CONNECT 0 0 0) (connect_body opts)))"
proof -
  let ?ver = "(if MQTTVersion opts = 4 then name_MQTT else name_MQIsdp)"
  have ver: "(if MQTTVersion opts = 4
      then do { ptr \<leftarrow> writeCString w (c_str name_MQTT); writeChar ptr 4 }
      else do { ptr \<leftarrow> writeCString w (c_str name_MQIsdp); writeChar ptr 3 }) =
    emit w (lenstr ?ver @ [if MQTTVersion opts = 4 then 4 else 3])" for w
    by (simp add: wire_simps)
  have fl: "f_username (connect_flags_of opts) \<noteq> 0 \<longleftrightarrow> present (username opts)"
    "f_password (connect_flags_of opts) \<noteq> 0 \<longleftrightarrow> present (password opts)"
    by (simp_all add: connect_flags_of_def Let_def)
  have will: "(if willFlag opts \<noteq> 0 then do {
        ptr \<leftarrow> writeMQTTString w (topicName (will opts));
        writeMQTTString ptr (message (will opts)) } else Some w) =
      (if willFlag opts \<noteq> 0 then emit w (opt_str True (topicName (will opts)) @ opt_str True (message (will opts)))
       else Some w)" for w
    using wf by (simp add: wf_connect_def wire_simps opt_str_def)
  have nat_ka: "nat (uint (keepAliveInterval opts)) = unat (keepAliveInterval opts)"
    by simp
  have wfs: "wf_mqtt_string (clientID opts)" "wf_mqtt_string (username opts)" "wf_mqtt_string (password opts)"
    using wf by (auto simp: wf_connect_def)
  obtain N where N: "N = length (connect_body opts)" by simp
  have pk: "packet h (connect_body opts) = h # vbi N @
      lenstr ?ver @ [if MQTTVersion opts = 4 then 4 else 3, flags_all (connect_flags_of opts)] @
      u16be (unat (keepAliveInterval opts)) @ lenstr (text_of (clientID opts)) @
      (if willFlag opts \<noteq> 0 then opt_str True (topicName (will opts)) @ opt_str True (message (will opts)) else []) @
      opt_str (present (username opts)) (username opts) @
      opt_str (present (password opts)) (password opts)" for h
    by (simp add: packet_def N connect_body_def opt_str_def)
  show ?thesis
    using fits
    unfolding MQTTSerialize_connect_def connectLength_body [OF wf] bind.bind_lunit ver will fl pk
      N [symmetric]
    by (simp add: wire_simps wfs emit_opt_str emit_some_bind emit_some opt_str_def)
qed

lemma serialize_connect_packet:
  assumes wf: "wf_connect opts" and fits: "MQTTPacket_len (int (length (connect_body opts))) \<le> int (length buf)"
    and n28: "length (connect_body opts) < 2 ^ 28"
  defines "pkt \<equiv> packet (mk_header CONNECT 0 0 0) (connect_body opts)"
  shows "MQTTSerialize_connect buf (int (length buf)) opts = Some (int (length pkt), pkt @ drop (length pkt) buf)"
proof -
  have "length pkt \<le> length buf"
    using fits MQTTPacket_len_bound(1) [OF n28] by (simp add: pkt_def)
  then show ?thesis
    using serialize_connect_emit [OF wf fits] emit_packet [of "mk_header CONNECT 0 0 0" "connect_body opts" buf]
    by (simp add: pkt_def)
qed

section \<open>Reading the CONNECT back\<close>

lemma flags_of_all [simp]:
  "f_username (flags_of (flags_all f)) = take_bit 1 (f_username f)"
  "f_password (flags_of (flags_all f)) = take_bit 1 (f_password f)"
  "f_willRetain (flags_of (flags_all f)) = take_bit 1 (f_willRetain f)"
  "f_willQoS (flags_of (flags_all f)) = take_bit 2 (f_willQoS f)"
  "f_will (flags_of (flags_all f)) = take_bit 1 (f_will f)"
  "f_cleansession (flags_of (flags_all f)) = take_bit 1 (f_cleansession f)"
  by ((rule bit_word_eqI, unfold flags_of_def connect_flags.simps flags_all_def hdr_bits, auto)[1])+

definition creds :: "connect_flags \<Rightarrow> bytes \<Rightarrow> bytes \<Rightarrow> bytes" where
  "creds f u w = (if f_username f \<noteq> 0 then lenstr u else []) @ (if f_password f \<noteq> 0 then lenstr w else [])"

lemma read_credentials_spec:
  assumes d: "drop p buf = creds f u w @ r" and e: "int p + int (length (creds f u w)) \<le> e"
    and l: "length u < 65536" "length w < 65536" "u \<noteq> []" "w \<noteq> []"
    and pw: "f_password f \<noteq> 0 \<longrightarrow> f_username f \<noteq> 0"
  shows "\<exists>us ws. read_credentials f d buf p e = Some (1, d\<lparr>username := us, password := ws\<rparr>) \<and>
    (if f_username f \<noteq> 0 then str_is us u else us = username d) \<and>
    (if f_password f \<noteq> 0 then str_is ws w else ws = password d)"
proof (cases "f_username f = 0")
  case True
  with pw show ?thesis by (simp add: read_credentials_def)
next
  case False
  have "drop p buf = lenstr u @ (if f_password f \<noteq> 0 then lenstr w else []) @ r"
    and e1: "int p + 2 + int (length u) \<le> e"
    using d e False by (auto simp: creds_def)
  from read_str [OF this(1) l(1) e1, of "username d"] obtain us where
    us: "readMQTTLenString (username d) buf p e = Some (1, us, p + 2 + length u)" "str_is us u"
      "drop (p + 2 + length u) buf = (if f_password f \<noteq> 0 then lenstr w else []) @ r" by blast
  have g: "\<not> e - int p < 3" using e1 l(3) by (cases u) auto
  show ?thesis
  proof (cases "f_password f = 0")
    case True
    with us g False show ?thesis
      by (intro exI [of _ us] exI [of _ "password d"]) (simp add: read_credentials_def)
  next
    case pf: False
    then have e2: "int (p + 2 + length u) + 2 + int (length w) \<le> e"
      using e False by (simp add: creds_def)
    then have g2: "\<not> e - int (p + 2 + length u) < 3" using l(4) by (cases w) auto
    from read_str [OF _ l(2) e2, of buf r "password d"] us(3) pf obtain ws where
      "readMQTTLenString (password d) buf (p + 2 + length u) e =
         Some (1, ws, p + 2 + length u + 2 + length w)" "str_is ws w" by auto
    with us g g2 False pf show ?thesis
      by (intro exI [of _ us] exI [of _ ws]) (simp add: read_credentials_def)
  qed
qed

lemma checkVersion_ok:
  "lenstring_len s = int (length nm) \<Longrightarrow> lenstring_data s = Some (nm @ r) \<Longrightarrow>
     (v = 4 \<and> nm = name_MQTT) \<or> (v = 3 \<and> nm = name_MQIsdp) \<Longrightarrow> MQTTPacket_checkVersion s v = Some True"
  by (auto simp: MQTTPacket_checkVersion_def c_memcmp_eq_def name_MQTT_def name_MQIsdp_def rd_bytes_def)

definition connect_head :: "connect_data \<Rightarrow> bytes" where
  "connect_head opts = lenstr (if MQTTVersion opts = 4 then name_MQTT else name_MQIsdp) @
     [if MQTTVersion opts = 4 then 4 else 3, flags_all (connect_flags_of opts)] @
     u16be (unat (keepAliveInterval opts))"

definition will_part :: "connect_data \<Rightarrow> bytes" where
  "will_part opts = opt_str (willFlag opts \<noteq> 0) (topicName (will opts)) @
     opt_str (willFlag opts \<noteq> 0) (message (will opts))"

definition sendable :: "connect_data \<Rightarrow> bool" where
  "sendable opts \<longleftrightarrow> wf_connect opts \<and> length (text_of (clientID opts)) < 65536 \<and>
     length (text_of (topicName (will opts))) < 65536 \<and>
     length (text_of (message (will opts))) < 65536 \<and>
     length (text_of (username opts)) < 65536 \<and> length (text_of (password opts)) < 65536 \<and>
     (present (username opts) \<longrightarrow> text_of (username opts) \<noteq> []) \<and>
     (present (password opts) \<longrightarrow> text_of (password opts) \<noteq> [] \<and> present (username opts))"

lemma flags_of_opts:
  "f_username (flags_of (flags_all (connect_flags_of opts))) = (if present (username opts) then 1 else 0)"
  "f_password (flags_of (flags_all (connect_flags_of opts))) = (if present (password opts) then 1 else 0)"
  "f_will (flags_of (flags_all (connect_flags_of opts))) = (if willFlag opts \<noteq> 0 then 1 else 0)"
  by (simp_all add: connect_flags_of_def Let_def)

lemma connect_body_parts:
  "connect_body opts = connect_head opts @ lenstr (text_of (clientID opts)) @ will_part opts @
     creds (flags_of (flags_all (connect_flags_of opts))) (text_of (username opts)) (text_of (password opts))"
  by (simp add: connect_body_def connect_head_def will_part_def creds_def opt_str_def
      connect_flags_of_def Let_def)

text \<open>The reader of everything behind the client identifier.\<close>

definition read_tail :: "connect_flags \<Rightarrow> connect_data \<Rightarrow> bytes \<Rightarrow> nat \<Rightarrow> int \<Rightarrow> (int \<times> connect_data) option" where
  "read_tail f d buf cur len =
     (let d = d\<lparr>willFlag := f_will f\<rparr>
      in if f_will f \<noteq> 0 then do {
         let d = d\<lparr>will := (will d)\<lparr>will_qos := f_willQoS f, retained := f_willRetain f\<rparr>\<rparr>;
         (rc, t, cur) \<leftarrow> readMQTTLenString (topicName (will d)) buf cur len;
         let d = d\<lparr>will := (will d)\<lparr>topicName := t\<rparr>\<rparr>;
         if rc = 0 then Some (0, d)
         else do {
           (rc, m, cur) \<leftarrow> readMQTTLenString (message (will d)) buf cur len;
           let d = d\<lparr>will := (will d)\<lparr>message := m\<rparr>\<rparr>;
           if rc = 0 then Some (0, d) else read_credentials f d buf cur len } }
       else read_credentials f d buf cur len)"

lemma deserialize_connect_head:
  fixes d :: connect_data
  assumes p: "buf = packet (mk_header CONNECT 0 0 0) (connect_body opts) @ r"
    and s: "sendable opts" and n28: "length (connect_body opts) < 2 ^ 28"
    and e: "int (length buf - length r) \<le> e"
  defines "F \<equiv> flags_of (flags_all (connect_flags_of opts))"
  shows "\<exists>c q. MQTTDeserialize_connect d buf e = read_tail F (d\<lparr>cleansession := f_cleansession F, keepAliveInterval := keepAliveInterval opts, clientID := c\<rparr>) buf q e \<and>
    str_is c (text_of (clientID opts)) \<and>
    drop q buf = will_part opts @ creds F (text_of (username opts)) (text_of (password opts)) @ r \<and>
    int q + int (length (will_part opts @ creds F (text_of (username opts)) (text_of (password opts)))) \<le> e"
proof -
  let ?nm = "if MQTTVersion opts = 4 then name_MQTT else name_MQIsdp"
  let ?v = "(if MQTTVersion opts = 4 then 4 else 3) :: u8"
  let ?V = "vbi (length (connect_body opts))"
  let ?rest = "will_part opts @ creds F (text_of (username opts)) (text_of (password opts)) @ r"
  have d0: "drop 0 buf = mk_header CONNECT 0 0 0 # ?V @ connect_body opts @ r"
    by (simp add: p packet_def)
  have c0: "readChar buf 0 = Some (mk_header CONNECT 0 0 0, 1)"
    using readChar_drop [OF d0] by simp
  have d1: "drop 1 buf = ?V @ connect_body opts @ r"
    using drop_step1 [OF d0] by simp
  have n: "MQTTPacket_decodeBuf buf 1 = Some (length ?V, int (length (connect_body opts)))"
    by (rule decodeBuf_vbi [OF d1 n28])
  let ?p = "1 + length ?V"
  have len: "int ?p + int (length (connect_body opts)) \<le> e"
    using e by (simp add: p)
  have d2: "drop ?p buf = lenstr ?nm @ ?v # flags_all (connect_flags_of opts) #
      u16be (unat (keepAliveInterval opts)) @ lenstr (text_of (clientID opts)) @ ?rest"
    using drop_step [OF d1] by (simp add: connect_body_parts connect_head_def F_def)
  have nm: "length ?nm < 65536" by (simp add: name_MQTT_def name_MQIsdp_def)
  have e2: "int ?p + 2 + int (length ?nm) \<le> e"
    using len by (simp add: connect_body_parts connect_head_def)
  let ?S = "\<lparr>cstring = None, lenstring_len = int (length ?nm), lenstring_data =
      Some (?nm @ ?v # flags_all (connect_flags_of opts) #
      u16be (unat (keepAliveInterval opts)) @ lenstr (text_of (clientID opts)) @ ?rest)\<rparr>"
  note r2 = readMQTTLenString_lenstr [OF d2 nm e2, of MQTTString_initializer]
  let ?q = "?p + 2 + length ?nm"
  have d3: "drop ?q buf = ?v # flags_all (connect_flags_of opts) #
      u16be (unat (keepAliveInterval opts)) @ lenstr (text_of (clientID opts)) @ ?rest"
    using drop_step [OF d2] by (simp add: add.assoc)
  note c3 = readChar_drop [OF d3]
  note d4 = drop_step1 [OF d3]
  note c4 = readChar_drop [OF d4]
  note d5 = drop_step1 [OF d4]
  have k: "unat (keepAliveInterval opts) < 65536" by simp
  note c5 = readInt_drop [OF d5 k]
  have "length (text_of (clientID opts)) < 65536" using s by (simp add: sendable_def)
  moreover have "int (Suc (Suc ?q) + 2) + 2 + int (length (text_of (clientID opts))) \<le> e"
    using len by (simp add: connect_body_parts connect_head_def)
  ultimately obtain c where c: "readMQTTLenString (clientID d) buf (Suc (Suc ?q) + 2) e =
      Some (1, c, Suc (Suc ?q) + 2 + 2 + length (text_of (clientID opts)))"
    "str_is c (text_of (clientID opts))"
    "drop (Suc (Suc ?q) + 2 + 2 + length (text_of (clientID opts))) buf = ?rest"
    using read_str [of "Suc (Suc ?q) + 2" buf "text_of (clientID opts)" ?rest e "clientID d"] c5 by blast
  have ok: "MQTTPacket_checkVersion ?S (uint ?v) = Some True"
    by (rule checkVersion_ok [where nm = ?nm]) simp_all
  have g: "\<not> e - int ?q < 0"
    using len by (simp add: connect_body_parts connect_head_def)
  have "MQTTDeserialize_connect d buf e =
    read_tail F (d\<lparr>cleansession := f_cleansession F, keepAliveInterval := keepAliveInterval opts, clientID := c\<rparr>) buf (Suc (Suc ?q) + 2 + 2 + length (text_of (clientID opts))) e"
    using c0 n r2 c3 c4 c5 c ok g
    by (simp add: MQTTDeserialize_connect_def read_tail_def F_def Let_def del: flags_of_all)
  moreover have "int (Suc (Suc ?q) + 2 + 2 + length (text_of (clientID opts))) +
      int (length (will_part opts @ creds F (text_of (username opts)) (text_of (password opts)))) \<le> e"
    using len by (simp add: connect_body_parts connect_head_def F_def)
  ultimately show ?thesis using c by blast
qed

lemma read_tail_spec:
  fixes opts :: connect_data
  defines "F \<equiv> flags_of (flags_all (connect_flags_of opts))"
  assumes s: "sendable opts"
    and d: "drop q buf = will_part opts @ creds F (text_of (username opts)) (text_of (password opts)) @ r"
    and e: "int q + int (length (will_part opts @ creds F (text_of (username opts)) (text_of (password opts)))) \<le> e"
  shows "\<exists>d'. read_tail F d buf q e = Some (1, d') \<and>
    clientID d' = clientID d \<and> cleansession d' = cleansession d \<and>
    keepAliveInterval d' = keepAliveInterval d \<and> (willFlag d' \<noteq> 0 \<longleftrightarrow> willFlag opts \<noteq> 0) \<and>
    (willFlag opts \<noteq> 0 \<longrightarrow> will_qos (will d') = take_bit 2 (will_qos (will opts)) \<and>
       retained (will d') = take_bit 1 (retained (will opts)) \<and>
       str_is (topicName (will d')) (text_of (topicName (will opts))) \<and>
       str_is (message (will d')) (text_of (message (will opts)))) \<and>
    (present (username opts) \<longrightarrow> str_is (username d') (text_of (username opts))) \<and>
    (present (password opts) \<longrightarrow> str_is (password d') (text_of (password opts)))"
proof -
  let ?u = "text_of (username opts)" and ?w = "text_of (password opts)"
  note F = flags_of_opts [of opts, folded F_def]
  define u where "u = (if ?u = [] then [0] else ?u)"
  define w where "w = (if ?w = [] then [0] else ?w)"
  have cr: "creds F ?u ?w = creds F u w" and uw: "length u < 65536" "length w < 65536" "u \<noteq> []" "w \<noteq> []"
    and pw: "f_password F \<noteq> 0 \<longrightarrow> f_username F \<noteq> 0"
    using s by (auto simp: creds_def F sendable_def u_def w_def)
  have eqs: "present (username opts) \<Longrightarrow> u = ?u" "present (password opts) \<Longrightarrow> w = ?w"
    using s by (auto simp: sendable_def u_def w_def)
  have wq: "willFlag opts \<noteq> 0 \<Longrightarrow> f_willQoS F = take_bit 2 (will_qos (will opts)) \<and>
      f_willRetain F = take_bit 1 (retained (will opts))"
    by (simp add: F_def connect_flags_of_def Let_def)
  show ?thesis
  proof (cases "willFlag opts = 0")
    case True
    then have "drop q buf = creds F u w @ r" "int q + int (length (creds F u w)) \<le> e"
      using d e cr by (simp_all add: will_part_def opt_str_def)
    from read_credentials_spec [OF this uw pw, of "d\<lparr>willFlag := f_will F\<rparr>"] True eqs
    show ?thesis by (auto simp: read_tail_def F Let_def split: if_splits)
  next
    case False
    let ?t = "text_of (topicName (will opts))" and ?m = "text_of (message (will opts))"
    let ?d = "d\<lparr>willFlag := 1, will := (will d)\<lparr>will_qos := f_willQoS F, retained := f_willRetain F\<rparr>\<rparr>"
    have d1: "drop q buf = lenstr ?t @ lenstr ?m @ creds F u w @ r"
      and e1: "int q + 2 + int (length ?t) \<le> e"
      and e2: "int (q + 2 + length ?t) + 2 + int (length ?m) \<le> e"
      and e3: "int (q + 2 + length ?t + 2 + length ?m) + int (length (creds F u w)) \<le> e"
      and lt: "length ?t < 65536" "length ?m < 65536"
      using d e cr s False by (simp_all add: will_part_def opt_str_def sendable_def)
    from read_str [OF d1 lt(1) e1, of "topicName (will d)"] obtain t where
      t: "readMQTTLenString (topicName (will d)) buf q e = Some (1, t, q + 2 + length ?t)"
      "str_is t ?t" and d2: "drop (q + 2 + length ?t) buf = lenstr ?m @ creds F u w @ r" by blast
    from read_str [OF d2 lt(2) e2, of "message (will d)"] obtain m where
      m: "readMQTTLenString (message (will d)) buf (q + 2 + length ?t) e =
        Some (1, m, q + 2 + length ?t + 2 + length ?m)"
      "str_is m ?m" and d3: "drop (q + 2 + length ?t + 2 + length ?m) buf = creds F u w @ r" by blast
    let ?d2 = "d\<lparr>willFlag := 1, will := (will d)\<lparr>will_qos := f_willQoS F,
      retained := f_willRetain F, topicName := t, message := m\<rparr>\<rparr>"
    have "read_tail F d buf q e =
        read_credentials F ?d2 buf (q + 2 + length ?t + 2 + length ?m) e"
      using t m False by (simp add: read_tail_def F Let_def)
    with read_credentials_spec [OF d3 e3 uw pw, of ?d2] t(2) m(2) False eqs wq
    show ?thesis by (auto simp: F split: if_splits)
  qed
qed

lemma connect_body_length: "sendable opts \<Longrightarrow> length (connect_body opts) < 2 ^ 28"
  by (simp add: sendable_def connect_body_def opt_str_def name_MQTT_def name_MQIsdp_def)


definition connect_example :: connect_data where
  "connect_example = MQTTPacket_connectData_initializer\<lparr>
     clientID := MQTTString_initializer\<lparr>cstring := Some [0x6D, 0x65, 0]\<rparr>,
     username := MQTTString_initializer\<lparr>cstring := Some [0x75, 0]\<rparr>\<rparr>"


section \<open>CONNACK\<close>

lemma zero_packet: "packet h [] = [h, 0]"
  by (simp add: packet_def vbi_small)

lemma serialize_zero_packet:
  assumes "2 \<le> length buf"
  shows "MQTTSerialize_zero buf (int (length buf)) t =
    Some (2, mk_header t 0 0 0 # 0 # drop 2 buf)"
  using assms emit_packet [of "mk_header t 0 0 0" "[]" buf]
  by (simp add: MQTTSerialize_zero_def wire_simps zero_packet vbi_small numeral_2_eq_2)

lemma serialize_connack_emit:
  assumes "2 \<le> buflen"
  shows "MQTTSerialize_connack buf buflen c sp = map_option (\<lambda>(b, n). (int n, b))
    (emit (buf, 0) [mk_header CONNACK 0 0 0, 2, take_bit 1 sp, c])"
  using assms by (simp add: MQTTSerialize_connack_def wire_simps vbi_small)

lemma decodeBuf_small:
  "n < 128 \<Longrightarrow> MQTTPacket_decodeBuf (h # of_nat n # r) 1 = Some (1, int n)"
  using decodeBuf_vbi [of 1 "h # of_nat n # r" n r] by (simp add: vbi_small)

lemma deserialize_connack_packet:
  assumes "hdr_type h = CONNACK"
  shows "MQTTDeserialize_connack sp c (h # 2 # f # x # r) = Some (1, take_bit 1 f, x)"
  using assms decodeBuf_small [of 2 h "f # x # r"]
  by (simp add: MQTTDeserialize_connack_def readChar_def rd_def)

text \<open>
  The CONNACK of the server side is read back by the client side: into a buffer of at
  least four bytes it is serialised as four bytes, and deserialising them succeeds with the
  same return code and session-present flag.
\<close>

theorem connack_roundtrip:
  assumes "4 \<le> length buf"
  shows "\<exists>buf'. MQTTSerialize_connack buf (int (length buf)) c sp = Some (4, buf') \<and>
    length buf' = length buf \<and>
    MQTTDeserialize_connack sp0 c0 buf' = Some (1, take_bit 1 sp, c)"
proof -
  let ?p = "[mk_header CONNACK 0 0 0, 2, take_bit 1 sp, c]"
  have "emit (buf, 0) ?p = Some (?p @ drop 4 buf, 4)"
    using emit_fits [of 0 ?p buf] assms by (simp add: eval_nat_numeral)
  then have "MQTTSerialize_connack buf (int (length buf)) c sp = Some (4, ?p @ drop 4 buf)"
    using assms by (simp add: serialize_connack_emit)
  moreover have "take_bit 1 (take_bit 1 sp) = take_bit 1 sp"
    by (simp only: take_bit_take_bit min.idem)
  then have "MQTTDeserialize_connack sp0 c0 (?p @ drop 4 buf) = Some (1, take_bit 1 sp, c)"
    using deserialize_connack_packet [of "mk_header CONNACK 0 0 0" sp0 c0 "take_bit 1 sp" c "drop 4 buf"]
    by simp
  ultimately show ?thesis using assms by auto
qed

theorem connack_roundtrip_witness:
  "\<exists>buf'. MQTTSerialize_connack [9, 9, 9, 9, 9] 5 5 1 = Some (4, buf') \<and> length buf' = 5 \<and>
    MQTTDeserialize_connack 0 0 buf' = Some (1, 1, 5)"
  using connack_roundtrip [of "[9, 9, 9, 9, 9]" 5 1 0 0] by (simp add: eval_nat_numeral)

text \<open>
  The length checks of CONNACK are wrong on both sides. The serialiser accepts a buffer
  of two or three bytes and writes past its end; the deserialiser reports success for a
  CONNACK without the two bytes it has to carry, and leaves the return code and the
  session-present flag of the caller as they were.
\<close>

theorem connack_length_checks:
  "length buf = 2 \<or> length buf = 3 \<Longrightarrow>
     MQTTSerialize_connack buf (int (length buf)) c sp = None \<and>
     MQTTDeserialize_connack sp0 c0 (mk_header CONNACK 0 0 0 # 0 # r) = Some (1, sp0, c0)"
  using decodeBuf_small [of 0 "mk_header CONNACK 0 0 0" r]
    emit_overflow [of buf 0 "[mk_header CONNACK 0 0 0, 2, take_bit 1 sp, c]"]
  by (auto simp: serialize_connack_emit MQTTDeserialize_connack_def readChar_def rd_def)

theorem connack_length_checks_witness:
  "MQTTSerialize_connack [0, 0, 0] 3 0 0 = None \<and>
   MQTTDeserialize_connack 7 8 [mk_header CONNACK 0 0 0, 0] = Some (1, 7, 8)"
  using connack_length_checks [of "[0, 0, 0]" 0 0 7 8 "[]"] by simp

text \<open>
  The protocol check compares only as many bytes as the packet's protocol name has: an empty
  name passes for both versions.
\<close>

lemma checkVersion_empty:
  "lenstring_len s = 0 \<Longrightarrow> v = 3 \<or> v = 4 \<Longrightarrow> MQTTPacket_checkVersion s v = Some True"
  by (auto simp: MQTTPacket_checkVersion_def c_memcmp_eq_def)

end
