(* ===== verification/MQTT_Publish.thy ===== *)
theory MQTT_Publish
  imports MQTT_Packet
begin

unbundle bit_operations_syntax

text \<open>
  PUBLISH and the acknowledgements: \<open>MQTT/MQTTSerializePublish.c\<close> and
  \<open>MQTT/MQTTDeserializePublish.c\<close>. The payload a deserialiser hands out is a pointer into
  the packet buffer: the list of the bytes from there to the end of the buffer.
\<close>

section \<open>Serialisers\<close>

definition MQTTSerialize_publishLength :: "int \<Rightarrow> mqtt_string \<Rightarrow> int \<Rightarrow> int option" where
  "MQTTSerialize_publishLength qos topic payloadlen = do {
     t \<leftarrow> MQTTstrlen topic;
     let len = 2 + t + payloadlen;
     Some (if qos > 0 then len + 2 else len) }"

text \<open>\<open>memcpy(ptr, payload, payloadlen)\<close>: a negative length is a size no object has.\<close>

definition copy_payload :: "wptr \<Rightarrow> bytes \<Rightarrow> int \<Rightarrow> wptr option" where
  "copy_payload w payload n =
     (if n < 0 then None else do { src \<leftarrow> rd_bytes payload 0 (nat n); emit w src })"

definition MQTTSerialize_publish ::
    "bytes \<Rightarrow> int \<Rightarrow> u8 \<Rightarrow> int \<Rightarrow> u8 \<Rightarrow> u16 \<Rightarrow> mqtt_string \<Rightarrow> bytes \<Rightarrow> int \<Rightarrow> (int \<times> bytes) option" where
  "MQTTSerialize_publish buf buflen dup qos retain packetid topic payload payloadlen = do {
     rem_len \<leftarrow> MQTTSerialize_publishLength qos topic payloadlen;
     if MQTTPacket_len rem_len > buflen then Some (MQTTPACKET_BUFFER_TOO_SHORT, buf)
     else do {
       ptr \<leftarrow> writeChar (buf, 0) (mk_header PUBLISH dup (word_of_int qos) retain);
       ptr \<leftarrow> encode_adv ptr rem_len;
       ptr \<leftarrow> writeMQTTString ptr topic;
       ptr \<leftarrow> (if qos > 0 then writeInt ptr (uint packetid) else Some ptr);
       ptr \<leftarrow> copy_payload ptr payload payloadlen;
       Some (int (snd ptr), fst ptr) } }"

definition MQTTSerialize_ack :: "bytes \<Rightarrow> int \<Rightarrow> u8 \<Rightarrow> u8 \<Rightarrow> u16 \<Rightarrow> (int \<times> bytes) option" where
  "MQTTSerialize_ack buf buflen packettype dup packetid =
     (if buflen < 4 then Some (MQTTPACKET_BUFFER_TOO_SHORT, buf)
      else do {
        ptr \<leftarrow> writeChar (buf, 0) (mk_header packettype dup (if packettype = PUBREL then 1 else 0) 0);
        ptr \<leftarrow> encode_adv ptr 2;
        ptr \<leftarrow> writeInt ptr (uint packetid);
        Some (int (snd ptr), fst ptr) })"

definition MQTTSerialize_puback :: "bytes \<Rightarrow> int \<Rightarrow> u16 \<Rightarrow> (int \<times> bytes) option" where
  "MQTTSerialize_puback buf buflen packetid = MQTTSerialize_ack buf buflen PUBACK 0 packetid"

definition MQTTSerialize_pubrel :: "bytes \<Rightarrow> int \<Rightarrow> u8 \<Rightarrow> u16 \<Rightarrow> (int \<times> bytes) option" where
  "MQTTSerialize_pubrel buf buflen dup packetid = MQTTSerialize_ack buf buflen PUBREL dup packetid"

definition MQTTSerialize_pubcomp :: "bytes \<Rightarrow> int \<Rightarrow> u16 \<Rightarrow> (int \<times> bytes) option" where
  "MQTTSerialize_pubcomp buf buflen packetid = MQTTSerialize_ack buf buflen PUBCOMP 0 packetid"

section \<open>Deserialisers\<close>

text \<open>What \<open>MQTTDeserialize_publish\<close> stores through its pointer arguments.\<close>

record publish_data =
  p_dup :: u8
  p_qos :: int
  p_retained :: u8
  p_packetid :: u16
  p_topic :: mqtt_string
  p_payload :: bytes
  p_payloadlen :: int

definition MQTTDeserialize_publish :: "publish_data \<Rightarrow> bytes \<Rightarrow> int \<Rightarrow> (int \<times> publish_data) option" where
  "MQTTDeserialize_publish d buf buflen = do {
     (h, cur) \<leftarrow> readChar buf 0;
     if hdr_type h \<noteq> PUBLISH then Some (0, d)
     else do {
       let d = d\<lparr>p_dup := hdr_dup h, p_qos := uint (hdr_qos h), p_retained := hdr_retain h\<rparr>;
       (n, mylen) \<leftarrow> MQTTPacket_decodeBuf buf cur;
       let cur = cur + n;
       let e = int cur + mylen;
       (rc, t, cur) \<leftarrow> readMQTTLenString (p_topic d) buf cur e;
       let d = d\<lparr>p_topic := t\<rparr>;
       if rc = 0 \<or> e - int cur < 0 then Some (int n, d)
       else do {
         (d, cur) \<leftarrow>
           (if p_qos d > 0 then do {
              (i, cur) \<leftarrow> readInt buf cur;
              Some (d\<lparr>p_packetid := word_of_int i\<rparr>, cur) }
            else Some (d, cur));
         Some (1, d\<lparr>p_payloadlen := e - int cur, p_payload := drop cur buf\<rparr>) } } }"

text \<open>The three results are the packet type, the dup flag and the packet identifier.\<close>

definition MQTTDeserialize_ack :: "u16 \<Rightarrow> bytes \<Rightarrow> int \<Rightarrow> (int \<times> u8 \<times> u8 \<times> u16) option" where
  "MQTTDeserialize_ack packetid buf buflen = do {
     (h, cur) \<leftarrow> readChar buf 0;
     (n, mylen) \<leftarrow> MQTTPacket_decodeBuf buf cur;
     let cur = cur + n;
     if mylen < 2 then Some (int n, hdr_type h, hdr_dup h, packetid)
     else do {
       (i, cur) \<leftarrow> readInt buf cur;
       Some (1, hdr_type h, hdr_dup h, word_of_int i) } }"

section \<open>The packet a PUBLISH is\<close>

definition publish_body :: "int \<Rightarrow> bytes \<Rightarrow> u16 \<Rightarrow> bytes \<Rightarrow> bytes" where
  "publish_body qos t packetid payload =
     lenstr t @ (if qos > 0 then u16be (unat packetid) else []) @ payload"

lemma length_publish_body:
  "length (publish_body qos t i p) = 2 + length t + (if qos > 0 then 2 else 0) + length p"
  by (simp add: publish_body_def)

lemma serialize_publish_packet:
  fixes dup ret :: u8
  assumes wf: "wf_mqtt_string topic" and n28: "length (publish_body qos (text_of topic) i payload) < 2 ^ 28"
    and fits: "MQTTPacket_len (int (length (publish_body qos (text_of topic) i payload))) \<le> int (length buf)"
  defines "pkt \<equiv> packet (mk_header PUBLISH dup (word_of_int qos) ret) (publish_body qos (text_of topic) i payload)"
  shows "MQTTSerialize_publish buf (int (length buf)) dup qos ret i topic payload (int (length payload)) =
    Some (int (length pkt), pkt @ drop (length pkt) buf)"
proof -
  let ?n = "length (publish_body qos (text_of topic) i payload)"
  have len: "MQTTSerialize_publishLength qos topic (int (length payload)) = Some (int ?n)"
    using wf by (simp add: MQTTSerialize_publishLength_def MQTTstrlen_text length_publish_body)
  have pk: "pkt = mk_header PUBLISH dup (word_of_int qos) ret # vbi ?n @
      lenstr (text_of topic) @ (if qos > 0 then u16be (unat i) else []) @ payload"
    by (simp add: pkt_def packet_def publish_body_def)
  have copy: "copy_payload w payload (int (length payload)) = emit w payload" for w
    by (simp add: copy_payload_def rd_bytes_def)
  have "MQTTSerialize_publish buf (int (length buf)) dup qos ret i topic payload (int (length payload)) =
      map_option (\<lambda>(b, n). (int n, b)) (emit (buf, 0) pkt)"
    using fits wf by (simp add: MQTTSerialize_publish_def len wire_simps copy pk)
  moreover have "length pkt \<le> length buf"
    using fits MQTTPacket_len_bound(1) [OF n28] by (simp add: pkt_def)
  ultimately show ?thesis
    by (simp add: pkt_def emit_packet)
qed

section \<open>Reading a PUBLISH\<close>

lemma deserialize_publish_head:
  assumes "buf = packet h body @ r" and "length body < 2 ^ 28" and "hdr_type h = PUBLISH"
  shows "readChar buf 0 = Some (h, 1)"
    and "MQTTPacket_decodeBuf buf 1 = Some (length (vbi (length body)), int (length body))"
    and "drop (1 + length (vbi (length body))) buf = body @ r"
proof -
  have d: "drop 1 buf = vbi (length body) @ body @ r"
    using assms by (simp add: packet_def)
  show "readChar buf 0 = Some (h, 1)"
    using assms by (simp add: packet_def readChar_def rd_def)
  show "MQTTPacket_decodeBuf buf 1 = Some (length (vbi (length body)), int (length body))"
    by (rule decodeBuf_vbi [OF d assms(2)])
  show "drop (1 + length (vbi (length body))) buf = body @ r"
    by (rule drop_step [OF d])
qed

text \<open>
  The exact result on a framed PUBLISH whose body begins with a topic that fits: for QoS 0 the
  rest is the payload, otherwise two bytes are read as the packet identifier, whether or not
  they are still part of the packet.
\<close>

lemma deserialize_publish_topic:
  assumes b: "buf = packet h (lenstr t @ x) @ r" and n28: "length (lenstr t @ x) < 2 ^ 28"
    and h: "hdr_type h = PUBLISH" and t: "length t < 65536"
  defines "cur \<equiv> 1 + length (vbi (length (lenstr t @ x))) + 2 + length t"
  shows "\<exists>s. str_is s t \<and> drop cur buf = x @ r \<and> MQTTDeserialize_publish d buf buflen =
    (let d = d\<lparr>p_dup := hdr_dup h, p_qos := uint (hdr_qos h), p_retained := hdr_retain h, p_topic := s\<rparr>
     in if hdr_qos h = 0 then Some (1, d\<lparr>p_payloadlen := int (length x), p_payload := x @ r\<rparr>)
        else do { (i, q) \<leftarrow> readInt buf cur;
          Some (1, d\<lparr>p_packetid := word_of_int i, p_payloadlen := int (length x) - 2,
                     p_payload := drop 2 (x @ r)\<rparr>) })"
proof -
  note hd = deserialize_publish_head [OF b n28 h]
  let ?p = "1 + length (vbi (length (lenstr t @ x)))"
  let ?e = "int ?p + int (length (lenstr t @ x))"
  have d0: "drop ?p buf = lenstr t @ x @ r" using hd(3) by simp
  have e: "int ?p + 2 + int (length t) \<le> ?e" by simp
  from read_str [OF d0 t e, of "p_topic d"] obtain s where
    s: "readMQTTLenString (p_topic d) buf ?p ?e = Some (1, s, cur)" "str_is s t" "drop cur buf = x @ r"
    by (auto simp: cur_def)
  have g: "?e - int cur = int (length x)" by (simp add: cur_def)
  have q0: "uint (hdr_qos h) > 0 \<longleftrightarrow> hdr_qos h \<noteq> 0"
    using uint_ge_0 [of "hdr_qos h"] by (metis order_le_less uint_0_iff less_irrefl)
  have d2: "drop (cur + 2) buf = drop 2 (x @ r)"
    using s(3) by (metis drop_drop add.commute)
  have ri: "\<And>i q. readInt buf cur = Some (i, q) \<Longrightarrow> q = cur + 2"
    by (auto simp: readInt_def split: Option.bind_splits)
  have "MQTTDeserialize_publish d buf buflen =
    (let d = d\<lparr>p_dup := hdr_dup h, p_qos := uint (hdr_qos h), p_retained := hdr_retain h, p_topic := s\<rparr>
     in if hdr_qos h = 0 then Some (1, d\<lparr>p_payloadlen := int (length x), p_payload := x @ r\<rparr>)
        else do { (i, q) \<leftarrow> readInt buf cur;
          Some (1, d\<lparr>p_packetid := word_of_int i, p_payloadlen := int (length x) - 2,
                     p_payload := drop 2 (x @ r)\<rparr>) })"
    using hd(1,2) s g q0 h d2 ri
    by (cases "readInt buf cur") (auto simp: MQTTDeserialize_publish_def Let_def)
  with s show ?thesis by blast
qed

text \<open>
  C28: A PUBLISH survives the wire: serialising a message with a QoS of at most 2 and a topic that fits
  its length field into a large enough buffer succeeds, and deserialising the packet
  succeeds and hands out the same topic, QoS, dup and retain flags, payload and payload length,
  and for QoS 1 and 2 the same packet identifier.
\<close>

theorem publish_roundtrip:
  fixes dup ret :: u8
  assumes wf: "wf_mqtt_string topic" and t: "length (text_of topic) < 65536"
    and qos: "0 \<le> qos" "qos \<le> 2"
    and n28: "length (publish_body qos (text_of topic) i payload) < 2 ^ 28"
    and fits: "MQTTPacket_len (int (length (publish_body qos (text_of topic) i payload))) \<le> int (length buf)"
  shows "\<exists>n buf' d'.
    MQTTSerialize_publish buf (int (length buf)) dup qos ret i topic payload (int (length payload)) = Some (n, buf') \<and>
    MQTTDeserialize_publish d buf' n = Some (1, d') \<and>
    p_qos d' = qos \<and> p_dup d' = take_bit 1 dup \<and> p_retained d' = take_bit 1 ret \<and>
    str_is (p_topic d') (text_of topic) \<and> p_payloadlen d' = int (length payload) \<and>
    take (length payload) (p_payload d') = payload \<and> (0 < qos \<longrightarrow> p_packetid d' = i)"
proof -
  let ?h = "mk_header PUBLISH dup (word_of_int qos) ret"
  let ?x = "(if qos > 0 then u16be (unat i) else []) @ payload"
  have body: "publish_body qos (text_of topic) i payload = lenstr (text_of topic) @ ?x"
    by (simp add: publish_body_def)
  define pkt where "pkt = packet ?h (lenstr (text_of topic) @ ?x)"
  define r where "r = drop (length pkt) buf"
  have ser: "MQTTSerialize_publish buf (int (length buf)) dup qos ret i topic payload (int (length payload)) =
      Some (int (length pkt), pkt @ r)"
    using serialize_publish_packet [OF wf n28 fits, of dup ret] by (simp add: body pkt_def r_def)
  have n28': "length (lenstr (text_of topic) @ ?x) < 2 ^ 28" using n28 by (simp only: body)
  have h: "hdr_type ?h = PUBLISH" by simp
  have q: "hdr_qos ?h = word_of_int qos" "(word_of_int qos :: u8) = 0 \<longleftrightarrow> qos = 0"
    "uint (word_of_int qos :: u8) = qos"
  proof -
    have "qos = 0 \<or> qos = 1 \<or> qos = 2" using qos by auto
    then show "hdr_qos ?h = word_of_int qos" "(word_of_int qos :: u8) = 0 \<longleftrightarrow> qos = 0"
      "uint (word_of_int qos :: u8) = qos" by auto
  qed
  let ?cur = "1 + length (vbi (length (lenstr (text_of topic) @ ?x))) + 2 + length (text_of topic)"
  obtain s where s: "str_is s (text_of topic)" and cur: "drop ?cur (pkt @ r) = ?x @ r"
    and des: "MQTTDeserialize_publish d (pkt @ r) (int (length pkt)) =
    (let d = d\<lparr>p_dup := hdr_dup ?h, p_qos := uint (hdr_qos ?h), p_retained := hdr_retain ?h, p_topic := s\<rparr>
     in if hdr_qos ?h = 0 then Some (1, d\<lparr>p_payloadlen := int (length ?x), p_payload := ?x @ r\<rparr>)
        else do { (i, q) \<leftarrow> readInt (pkt @ r) ?cur;
          Some (1, d\<lparr>p_packetid := word_of_int i, p_payloadlen := int (length ?x) - 2,
                     p_payload := drop 2 (?x @ r)\<rparr>) })"
    using deserialize_publish_topic [OF _ n28' h t, of "pkt @ r" r d "int (length pkt)"] pkt_def by blast
  show ?thesis
  proof (cases "qos = 0")
    case True
    with des q s ser show ?thesis by (auto simp: Let_def)
  next
    case False
    then have "drop ?cur (pkt @ r) = u16be (unat i) @ payload @ r" using cur qos by auto
    from readInt_drop [OF this] have "readInt (pkt @ r) ?cur = Some (int (unat i), ?cur + 2)" by simp
    with False des q s ser qos show ?thesis by (auto simp: Let_def)
  qed
qed

definition topic_example :: mqtt_string where
  "topic_example = \<lparr>cstring = Some [0x74, 0], lenstring_len = 0, lenstring_data = None\<rparr>"

lemma topic_example [simp]: "wf_mqtt_string topic_example" "text_of topic_example = [0x74]"
  by (simp_all add: topic_example_def wf_mqtt_string_def text_of_def)

definition publish_example :: publish_data where
  "publish_example = \<lparr>p_dup = 0, p_qos = 0, p_retained = 0, p_packetid = 0,
     p_topic = MQTTString_initializer, p_payload = [], p_payloadlen = 0\<rparr>"

theorem publish_roundtrip_witness:
  "\<exists>n buf' d'.
    MQTTSerialize_publish (replicate 12 0) 12 0 1 0 258 topic_example [5, 6] 2 = Some (n, buf') \<and>
    MQTTDeserialize_publish publish_example buf' n = Some (1, d') \<and>
    p_qos d' = 1 \<and> p_packetid d' = 258 \<and> p_payloadlen d' = 2 \<and> take (length [5, 6 :: u8]) (p_payload d') = [5, 6]"
proof -
  have n: "length (publish_body 1 (text_of topic_example) 258 [5, 6]) = 7"
    by (simp add: length_publish_body)
  have "(7::nat) < 2 ^ 28" "MQTTPacket_len 7 \<le> 12" by (simp_all add: MQTTPacket_len_def)
  then show ?thesis
    using publish_roundtrip [of topic_example 1 258 "[5, 6]" "replicate 12 0" 0 0 publish_example]
    unfolding n by auto
qed

section \<open>Malformed PUBLISH packets\<close>

lemma publish_empty:
  assumes "hdr_type h = PUBLISH"
  shows "\<exists>d'. MQTTDeserialize_publish d (packet h [] @ r) buflen = Some (1, d') \<and>
      p_payload d' = p_payload d \<and> p_payloadlen d' = p_payloadlen d \<and>
      lenstring_len (p_topic d') = lenstring_len (p_topic d)"
proof -
  have "drop 2 (packet h [] @ r) = r" "readChar (packet h [] @ r) 0 = Some (h, 1)"
    by (simp_all add: packet_def vbi_small readChar_def rd_def)
  moreover have "MQTTPacket_decodeBuf (packet h [] @ r) 1 = Some (1, 0)"
    using decodeBuf_vbi [of 1 "packet h [] @ r" 0 r] by (simp add: packet_def vbi_small)
  ultimately show ?thesis
    using assms by (simp add: MQTTDeserialize_publish_def readMQTTLenString_def)
qed

lemma publish_no_id:
  assumes h: "hdr_type h = PUBLISH" and q: "hdr_qos h \<noteq> 0" and t: "length t < 65536"
  shows "\<exists>d'. MQTTDeserialize_publish d (packet h (lenstr t) @ a # b # r) buflen = Some (1, d') \<and>
    p_payloadlen d' = - 2"
proof -
  have n28: "length (lenstr t @ []) < 2 ^ 28" using t by simp
  let ?b = "packet h (lenstr t @ []) @ a # b # r"
  let ?cur = "1 + length (vbi (length (lenstr t @ []))) + 2 + length t"
  note des = deserialize_publish_topic [OF refl n28 h t, of "a # b # r" d buflen]
  then have "drop ?cur ?b = a # b # r" by auto
  then have "?cur + 1 < length ?b"
    by (metis Suc_eq_plus1 drop_step1 drop_eq_Nil leI list.distinct(1))
  then obtain i where "readInt ?b ?cur = Some (i, ?cur + 2)"
    using readInt_defined by blast
  with des q show ?thesis by (auto simp: Let_def)
qed

text \<open>
  A PUBLISH that is too short for its parts is accepted. Without even a topic length the
  result is 1, the code of success, with topic, payload and payload length not set; with QoS 1 or 2 and
  nothing behind the topic the two bytes behind the packet are taken for the packet identifier
  and the payload length handed to the caller is -2.
\<close>

theorem publish_malformed:
  assumes "hdr_type h = PUBLISH"
  shows "(\<exists>d'. MQTTDeserialize_publish d (packet h [] @ r) buflen = Some (1, d') \<and>
      p_payload d' = p_payload d \<and> p_payloadlen d' = p_payloadlen d \<and>
      lenstring_len (p_topic d') = lenstring_len (p_topic d)) \<and>
    (hdr_qos h \<noteq> 0 \<and> length t < 65536 \<longrightarrow>
      (\<exists>d'. MQTTDeserialize_publish d (packet h (lenstr t) @ a # b # r) buflen = Some (1, d') \<and>
        p_payloadlen d' = - 2))"
  using assms publish_empty publish_no_id by blast

theorem publish_malformed_witness:
  "\<exists>d'. MQTTDeserialize_publish publish_example ([0x32, 3, 0, 1, 0x74] @ [9, 9]) 7 = Some (1, d') \<and>
     p_payloadlen d' = - 2"
proof -
  have h: "hdr_type 0x32 = PUBLISH" "hdr_qos 0x32 \<noteq> 0" by code_simp+
  have p: "packet 0x32 (lenstr [0x74]) = [0x32, 3, 0, 1, 0x74]"
    by (simp add: packet_def lenstr_def u16be_def vbi_small)
  show ?thesis
    using publish_malformed [OF h(1), of publish_example "[]" 7 "[0x74]" 9 9] h(2) p by auto
qed

section \<open>Acknowledgements\<close>

lemma serialize_ack_emit:
  "4 \<le> buflen \<Longrightarrow> MQTTSerialize_ack buf buflen t dup i = map_option (\<lambda>(b, n). (int n, b))
    (emit (buf, 0) (packet (mk_header t dup (if t = PUBREL then 1 else 0) 0) (u16be (unat i))))"
  by (simp add: MQTTSerialize_ack_def wire_simps packet_def vbi_small)

lemma length_ack: "length (packet h (u16be n)) = 4"
  by (simp add: packet_def vbi_small)

text \<open>Packets whose body begins with a packet identifier.\<close>

lemma id_packet_head:
  assumes "buf = packet h (u16be (unat (i :: u16)) @ x) @ r" and "length (u16be (unat i) @ x) < 2 ^ 28"
  defines "n \<equiv> length (vbi (2 + length x))"
  shows "readChar buf 0 = Some (h, 1)"
    and "MQTTPacket_decodeBuf buf 1 = Some (n, int (2 + length x))"
    and "readInt buf (1 + n) = Some (int (unat i), 1 + n + 2)"
    and "drop (1 + n + 2) buf = x @ r"
proof -
  show "readChar buf 0 = Some (h, 1)"
    using assms by (simp add: packet_def readChar_def rd_def)
  have d: "drop 1 buf = vbi (2 + length x) @ u16be (unat i) @ x @ r"
    using assms by (simp add: packet_def)
  show "MQTTPacket_decodeBuf buf 1 = Some (n, int (2 + length x))"
    unfolding n_def using assms(2) by (intro decodeBuf_vbi [OF d]) simp
  show "readInt buf (1 + n) = Some (int (unat i), 1 + n + 2)" "drop (1 + n + 2) buf = x @ r"
    using readInt_drop [OF drop_step [OF d]] by (simp_all add: n_def)
qed

lemma deserialize_ack_packet:
  assumes b: "buf = packet h (u16be (unat i) @ x) @ r" and n28: "length (u16be (unat i) @ x) < 2 ^ 28"
  shows "MQTTDeserialize_ack i0 buf buflen = Some (1, hdr_type h, hdr_dup h, i)"
  using id_packet_head(1-3) [OF b n28] by (simp add: MQTTDeserialize_ack_def)

text \<open>
  Acknowledgements (PUBACK, PUBREC, PUBREL, PUBCOMP) survive the wire: into a buffer of at
  least four bytes they are serialised as four bytes, and deserialising them succeeds with the
  packet type, dup flag and packet identifier; a shorter buffer is refused and left untouched.
\<close>

theorem ack_roundtrip:
  "(4 \<le> length buf \<longrightarrow> (\<exists>buf'. MQTTSerialize_ack buf (int (length buf)) t dup i = Some (4, buf') \<and>
      length buf' = length buf \<and>
      MQTTDeserialize_ack i0 buf' (int (length buf)) = Some (1, take_bit 4 t, take_bit 1 dup, i))) \<and>
   (length buf < 4 \<longrightarrow> MQTTSerialize_ack buf (int (length buf)) t dup i = Some (-2, buf))"
proof (intro conjI impI)
  let ?h = "mk_header t dup (if t = PUBREL then 1 else 0) 0"
  let ?p = "packet ?h (u16be (unat i))"
  assume b: "4 \<le> length buf"
  then have "length ?p \<le> length buf" by (simp only: length_ack)
  from emit_packet [OF this] have "emit (buf, 0) ?p = Some (?p @ drop 4 buf, 4)"
    by (simp only: length_ack)
  moreover have "length (?p @ drop 4 buf) = length buf"
    using b by (simp only: length_append length_ack length_drop)
  moreover have "MQTTDeserialize_ack i0 (?p @ drop 4 buf) (int (length buf)) =
      Some (1, take_bit 4 t, take_bit 1 dup, i)"
    using deserialize_ack_packet [of "?p @ drop 4 buf" ?h i "[]" "drop 4 buf"]
    by (simp only: append_Nil2 hdr_type_mk_header hdr_dup_mk_header) simp
  ultimately show "\<exists>buf'. MQTTSerialize_ack buf (int (length buf)) t dup i = Some (4, buf') \<and>
      length buf' = length buf \<and>
      MQTTDeserialize_ack i0 buf' (int (length buf)) = Some (1, take_bit 4 t, take_bit 1 dup, i)"
    using b by (simp add: serialize_ack_emit)
qed (simp add: MQTTSerialize_ack_def)

theorem ack_roundtrip_witness:
  "\<exists>buf'. MQTTSerialize_ack [0, 0, 0, 0] 4 PUBREC 1 513 = Some (4, buf') \<and>
     MQTTDeserialize_ack 0 buf' 4 = Some (1, PUBREC, 1, 513)"
  using ack_roundtrip [of "[0, 0, 0, 0]" PUBREC 1 513 0] by auto

end
