(* ===== verification/MQTT_Subscribe.thy ===== *)
theory MQTT_Subscribe
  imports MQTT_Publish
begin

unbundle bit_operations_syntax

text \<open>
  SUBSCRIBE, SUBACK, UNSUBSCRIBE and UNSUBACK: \<open>MQTT/MQTTSubscribeClient.c\<close>,
  \<open>MQTTSubscribeServer.c\<close>, \<open>MQTTUnsubscribeClient.c\<close>, \<open>MQTTUnsubscribeServer.c\<close>. The
  arrays of topic filters and QoS values are lists; an index outside of one is undefined.
  A loop \<open>for (i = 0; i < count; ++i)\<close> is a recursion over the rounds left.
\<close>

section \<open>Client side: serialisers\<close>

fun subscribeLength_loop :: "mqtt_string list \<Rightarrow> nat \<Rightarrow> nat \<Rightarrow> int \<Rightarrow> int option" where
  "subscribeLength_loop topics i 0 len = Some len"
| "subscribeLength_loop topics i (Suc n) len = do {
     t \<leftarrow> rd topics i;
     l \<leftarrow> MQTTstrlen t;
     subscribeLength_loop topics (i + 1) n (len + (2 + l + 1)) }"

definition MQTTSerialize_subscribeLength :: "int \<Rightarrow> mqtt_string list \<Rightarrow> int option" where
  "MQTTSerialize_subscribeLength count topics = subscribeLength_loop topics 0 (nat count) 2"

fun subscribe_loop :: "wptr \<Rightarrow> mqtt_string list \<Rightarrow> int list \<Rightarrow> nat \<Rightarrow> nat \<Rightarrow> wptr option" where
  "subscribe_loop ptr topics qs i 0 = Some ptr"
| "subscribe_loop ptr topics qs i (Suc n) = do {
     t \<leftarrow> rd topics i;
     ptr \<leftarrow> writeMQTTString ptr t;
     q \<leftarrow> rd qs i;
     ptr \<leftarrow> writeChar ptr (word_of_int q);
     subscribe_loop ptr topics qs (i + 1) n }"

definition MQTTSerialize_subscribe ::
    "bytes \<Rightarrow> int \<Rightarrow> u8 \<Rightarrow> u16 \<Rightarrow> int \<Rightarrow> mqtt_string list \<Rightarrow> int list \<Rightarrow> (int \<times> bytes) option" where
  "MQTTSerialize_subscribe buf buflen dup packetid count topics qs = do {
     rem_len \<leftarrow> MQTTSerialize_subscribeLength count topics;
     if MQTTPacket_len rem_len > buflen then Some (MQTTPACKET_BUFFER_TOO_SHORT, buf)
     else do {
       ptr \<leftarrow> writeChar (buf, 0) (mk_header SUBSCRIBE dup 1 0);
       ptr \<leftarrow> encode_adv ptr rem_len;
       ptr \<leftarrow> writeInt ptr (uint packetid);
       ptr \<leftarrow> subscribe_loop ptr topics qs 0 (nat count);
       Some (int (snd ptr), fst ptr) } }"

fun unsubscribeLength_loop :: "mqtt_string list \<Rightarrow> nat \<Rightarrow> nat \<Rightarrow> int \<Rightarrow> int option" where
  "unsubscribeLength_loop topics i 0 len = Some len"
| "unsubscribeLength_loop topics i (Suc n) len = do {
     t \<leftarrow> rd topics i;
     l \<leftarrow> MQTTstrlen t;
     unsubscribeLength_loop topics (i + 1) n (len + (2 + l)) }"

definition MQTTSerialize_unsubscribeLength :: "int \<Rightarrow> mqtt_string list \<Rightarrow> int option" where
  "MQTTSerialize_unsubscribeLength count topics = unsubscribeLength_loop topics 0 (nat count) 2"

fun unsubscribe_loop :: "wptr \<Rightarrow> mqtt_string list \<Rightarrow> nat \<Rightarrow> nat \<Rightarrow> wptr option" where
  "unsubscribe_loop ptr topics i 0 = Some ptr"
| "unsubscribe_loop ptr topics i (Suc n) = do {
     t \<leftarrow> rd topics i;
     ptr \<leftarrow> writeMQTTString ptr t;
     unsubscribe_loop ptr topics (i + 1) n }"

definition MQTTSerialize_unsubscribe ::
    "bytes \<Rightarrow> int \<Rightarrow> u8 \<Rightarrow> u16 \<Rightarrow> int \<Rightarrow> mqtt_string list \<Rightarrow> (int \<times> bytes) option" where
  "MQTTSerialize_unsubscribe buf buflen dup packetid count topics = do {
     rem_len \<leftarrow> MQTTSerialize_unsubscribeLength count topics;
     if MQTTPacket_len rem_len > buflen then Some (MQTTPACKET_BUFFER_TOO_SHORT, buf)
     else do {
       ptr \<leftarrow> writeChar (buf, 0) (mk_header UNSUBSCRIBE dup 1 0);
       ptr \<leftarrow> encode_adv ptr rem_len;
       ptr \<leftarrow> writeInt ptr (uint packetid);
       ptr \<leftarrow> unsubscribe_loop ptr topics 0 (nat count);
       Some (int (snd ptr), fst ptr) } }"

section \<open>Client side: deserialisers\<close>

text \<open>The loop of \<open>MQTTDeserialize_suback\<close>: its result code, \<open>*count\<close> and the array.\<close>

function suback_loop ::
    "bytes \<Rightarrow> nat \<Rightarrow> int \<Rightarrow> int \<Rightarrow> nat \<Rightarrow> int list \<Rightarrow> (int \<times> nat \<times> int list) option" where
  "suback_loop buf cur e maxcount count qs =
     (if int cur < e then
        (if int count > maxcount then Some (-1, count, qs)
         else do {
           (c, cur') \<leftarrow> readChar buf cur;
           qs' \<leftarrow> wr qs count (uint c);
           suback_loop buf cur' e maxcount (count + 1) qs' })
      else Some (1, count, qs))"
  by pat_completeness auto

termination suback_loop
  by (relation "measure (\<lambda>(buf, cur, e, maxcount, count, qs). nat (e - int cur))")
     (auto simp: readChar_def split: Option.bind_splits)

declare suback_loop.simps [simp del]

definition MQTTDeserialize_suback ::
    "u16 \<Rightarrow> int \<Rightarrow> nat \<Rightarrow> int list \<Rightarrow> bytes \<Rightarrow> int \<Rightarrow> (int \<times> u16 \<times> nat \<times> int list) option" where
  "MQTTDeserialize_suback packetid maxcount count qs buf buflen = do {
     (h, cur) \<leftarrow> readChar buf 0;
     if hdr_type h \<noteq> SUBACK then Some (0, packetid, count, qs)
     else do {
       (n, mylen) \<leftarrow> MQTTPacket_decodeBuf buf cur;
       let cur = cur + n;
       let e = int cur + mylen;
       if mylen < 2 then Some (int n, packetid, count, qs)
       else do {
         (i, cur) \<leftarrow> readInt buf cur;
         (rc, count, qs) \<leftarrow> suback_loop buf cur e maxcount 0 qs;
         Some (rc, word_of_int i, count, qs) } } }"

definition MQTTDeserialize_unsuback :: "u16 \<Rightarrow> bytes \<Rightarrow> int \<Rightarrow> (int \<times> u16) option" where
  "MQTTDeserialize_unsuback packetid buf buflen = do {
     (rc, type, dup, i) \<leftarrow> MQTTDeserialize_ack packetid buf buflen;
     Some (if type = UNSUBACK then 1 else rc, i) }"

section \<open>Server side\<close>

lemma readMQTTLenString_advance:
  "readMQTTLenString s buf p e = Some (rc, s', q) \<Longrightarrow> p \<le> q"
  by (auto simp: readMQTTLenString_def readInt_def Let_def split: if_splits Option.bind_splits)

function read_subscribe_loop ::
    "bytes \<Rightarrow> nat \<Rightarrow> int \<Rightarrow> nat \<Rightarrow> mqtt_string list \<Rightarrow> int list \<Rightarrow> int \<Rightarrow>
     (int \<times> nat \<times> mqtt_string list \<times> int list) option" where
  "read_subscribe_loop buf cur e count topics qs rc0 =
     (if int cur < e then do {
        t \<leftarrow> rd topics count;
        (rc, t, cur') \<leftarrow> readMQTTLenString t buf cur e;
        topics' \<leftarrow> wr topics count t;
        if rc = 0 \<or> int cur' \<ge> e then Some (rc0, count, topics', qs)
        else do {
          (c, cur'') \<leftarrow> readChar buf cur';
          qs' \<leftarrow> wr qs count (uint c);
          read_subscribe_loop buf cur'' e (count + 1) topics' qs' rc0 } }
      else Some (1, count, topics, qs))"
  by pat_completeness auto

termination read_subscribe_loop
  by (relation "measure (\<lambda>(buf, cur, e, count, topics, qs, rc0). nat (e - int cur))")
     (auto simp: readChar_def split: Option.bind_splits dest!: readMQTTLenString_advance [OF sym]
        readMQTTLenString_advance)

declare read_subscribe_loop.simps [simp del]

definition MQTTDeserialize_subscribe ::
    "u8 \<Rightarrow> u16 \<Rightarrow> int \<Rightarrow> nat \<Rightarrow> mqtt_string list \<Rightarrow> int list \<Rightarrow> bytes \<Rightarrow> int \<Rightarrow>
     (int \<times> u8 \<times> u16 \<times> nat \<times> mqtt_string list \<times> int list) option" where
  "MQTTDeserialize_subscribe dup packetid maxcount count topics qs buf buflen = do {
     (h, cur) \<leftarrow> readChar buf 0;
     if hdr_type h \<noteq> SUBSCRIBE then Some (-1, dup, packetid, count, topics, qs)
     else do {
       (n, mylen) \<leftarrow> MQTTPacket_decodeBuf buf cur;
       let cur = cur + n;
       let e = int cur + mylen;
       (i, cur) \<leftarrow> readInt buf cur;
       (rc, count, topics, qs) \<leftarrow> read_subscribe_loop buf cur e 0 topics qs (int n);
       Some (rc, hdr_dup h, word_of_int i, count, topics, qs) } }"

fun write_qos_loop :: "wptr \<Rightarrow> int list \<Rightarrow> nat \<Rightarrow> nat \<Rightarrow> wptr option" where
  "write_qos_loop ptr qs i 0 = Some ptr"
| "write_qos_loop ptr qs i (Suc n) = do {
     q \<leftarrow> rd qs i;
     ptr \<leftarrow> writeChar ptr (word_of_int q);
     write_qos_loop ptr qs (i + 1) n }"

definition MQTTSerialize_suback :: "bytes \<Rightarrow> int \<Rightarrow> u16 \<Rightarrow> int \<Rightarrow> int list \<Rightarrow> (int \<times> bytes) option" where
  "MQTTSerialize_suback buf buflen packetid count qs =
     (if buflen < 2 + count then Some (MQTTPACKET_BUFFER_TOO_SHORT, buf)
      else do {
        ptr \<leftarrow> writeChar (buf, 0) (mk_header SUBACK 0 0 0);
        ptr \<leftarrow> encode_adv ptr (2 + count);
        ptr \<leftarrow> writeInt ptr (uint packetid);
        ptr \<leftarrow> write_qos_loop ptr qs 0 (nat count);
        Some (int (snd ptr), fst ptr) })"

function read_unsubscribe_loop ::
    "bytes \<Rightarrow> nat \<Rightarrow> int \<Rightarrow> nat \<Rightarrow> mqtt_string list \<Rightarrow> int \<Rightarrow> (int \<times> nat \<times> mqtt_string list) option" where
  "read_unsubscribe_loop buf cur e count topics rc0 =
     (if int cur < e then do {
        t \<leftarrow> rd topics count;
        (rc, t, cur') \<leftarrow> readMQTTLenString t buf cur e;
        topics' \<leftarrow> wr topics count t;
        if rc = 0 then Some (rc0, count, topics')
        else read_unsubscribe_loop buf cur' e (count + 1) topics' rc0 }
      else Some (1, count, topics))"
  by pat_completeness auto

lemma readMQTTLenString_advance2:
  "readMQTTLenString s buf p e = Some (rc, s', q) \<Longrightarrow> rc \<noteq> 0 \<Longrightarrow> p < q"
  by (auto simp: readMQTTLenString_def readInt_def Let_def split: if_splits Option.bind_splits)

termination read_unsubscribe_loop
  by (relation "measure (\<lambda>(buf, cur, e, count, topics, rc0). nat (e - int cur))")
     (auto dest!: readMQTTLenString_advance2 [OF sym] readMQTTLenString_advance2)

declare read_unsubscribe_loop.simps [simp del]

definition MQTTDeserialize_unsubscribe ::
    "u8 \<Rightarrow> u16 \<Rightarrow> int \<Rightarrow> nat \<Rightarrow> mqtt_string list \<Rightarrow> bytes \<Rightarrow> int \<Rightarrow>
     (int \<times> u8 \<times> u16 \<times> nat \<times> mqtt_string list) option" where
  "MQTTDeserialize_unsubscribe dup packetid maxcount count topics buf len = do {
     (h, cur) \<leftarrow> readChar buf 0;
     if hdr_type h \<noteq> UNSUBSCRIBE then Some (0, dup, packetid, count, topics)
     else do {
       (n, mylen) \<leftarrow> MQTTPacket_decodeBuf buf cur;
       let cur = cur + n;
       let e = int cur + mylen;
       (i, cur) \<leftarrow> readInt buf cur;
       (rc, count, topics) \<leftarrow> read_unsubscribe_loop buf cur e 0 topics (int n);
       Some (rc, hdr_dup h, word_of_int i, count, topics) } }"

definition MQTTSerialize_unsuback :: "bytes \<Rightarrow> int \<Rightarrow> u16 \<Rightarrow> (int \<times> bytes) option" where
  "MQTTSerialize_unsuback buf buflen packetid =
     (if buflen < 2 then Some (MQTTPACKET_BUFFER_TOO_SHORT, buf)
      else do {
        ptr \<leftarrow> writeChar (buf, 0) (mk_header UNSUBACK 0 0 0);
        ptr \<leftarrow> encode_adv ptr 2;
        ptr \<leftarrow> writeInt ptr (uint packetid);
        Some (int (snd ptr), fst ptr) })"

section \<open>The packets\<close>

definition filters :: "mqtt_string list \<Rightarrow> bytes" where
  "filters ts = concat (map (\<lambda>t. lenstr (text_of t)) ts)"

definition filters_qos :: "(mqtt_string \<times> int) list \<Rightarrow> bytes" where
  "filters_qos tqs = concat (map (\<lambda>(t, q). lenstr (text_of t) @ [word_of_int q]) tqs)"

lemma filters_simps [simp]:
  "filters [] = []" "filters (t # ts) = lenstr (text_of t) @ filters ts"
  "filters_qos [] = []" "filters_qos ((t, q) # tqs) = lenstr (text_of t) @ word_of_int q # filters_qos tqs"
  by (simp_all add: filters_def filters_qos_def)

lemma drop_nth_Cons: "drop i xs = y # ys \<Longrightarrow> i < length xs \<and> xs ! i = y \<and> drop (Suc i) xs = ys"
  by (metis drop_eq_Nil drop_step1 leI list.discI nth_via_drop)

lemma subscribeLength_loop_ok:
  assumes "drop i (zip topics qs) = tqs" "length topics = length qs"
    and "list_all (\<lambda>(t, q). wf_mqtt_string t) tqs"
  shows "subscribeLength_loop topics i (length tqs) l = Some (l + int (length (filters_qos tqs)))"
  using assms
proof (induction tqs arbitrary: i l)
  case Nil
  then show ?case by simp
next
  case (Cons tq tqs)
  obtain t q where [simp]: "tq = (t, q)" by (cases tq)
  from Cons.prems(1) drop_nth_Cons [of i "zip topics qs"]
  have "i < length topics" "topics ! i = t" "drop (Suc i) (zip topics qs) = tqs"
    by (auto simp: Cons.prems(2))
  with Cons.IH [of "Suc i"] Cons.prems show ?case
    by (simp add: rd_def MQTTstrlen_text)
qed

lemma subscribe_loop_emit:
  assumes "drop i (zip topics qs) = tqs" "length topics = length qs"
    and "list_all (\<lambda>(t, q). wf_mqtt_string t) tqs"
  shows "emit w xs \<bind> (\<lambda>w. subscribe_loop w topics qs i (length tqs)) = emit w (xs @ filters_qos tqs)"
  using assms
proof (induction tqs arbitrary: i xs)
  case Nil
  then show ?case by simp
next
  case (Cons tq tqs)
  obtain t q where [simp]: "tq = (t, q)" by (cases tq)
  from Cons.prems(1) drop_nth_Cons [of i "zip topics qs"]
  have "i < length topics" "topics ! i = t" "qs ! i = q" "drop (Suc i) (zip topics qs) = tqs"
    by (auto simp: Cons.prems(2))
  with Cons.IH [of "Suc i" "xs @ lenstr (text_of t) @ [word_of_int q]"] Cons.prems show ?case
    by (simp add: rd_def wire_simps)
qed

lemma unsubscribeLength_loop_ok:
  assumes "drop i topics = ts" and "list_all wf_mqtt_string ts"
  shows "unsubscribeLength_loop topics i (length ts) l = Some (l + int (length (filters ts)))"
  using assms
proof (induction ts arbitrary: i l)
  case (Cons t ts)
  from Cons.IH [of "Suc i"] drop_nth_Cons [OF Cons.prems(1)] Cons.prems show ?case
    by (simp add: rd_def MQTTstrlen_text)
qed simp

lemma unsubscribe_loop_emit:
  assumes "drop i topics = ts" and "list_all wf_mqtt_string ts"
  shows "emit w xs \<bind> (\<lambda>w. unsubscribe_loop w topics i (length ts)) = emit w (xs @ filters ts)"
  using assms
proof (induction ts arbitrary: i xs)
  case (Cons t ts)
  from Cons.IH [of "Suc i" "xs @ lenstr (text_of t)"] drop_nth_Cons [OF Cons.prems(1)] Cons.prems
  show ?case by (simp add: rd_def wire_simps)
qed simp

lemma write_qos_loop_emit:
  assumes "drop i qs = xs"
  shows "emit w ys \<bind> (\<lambda>w. write_qos_loop w qs i (length xs)) = emit w (ys @ map word_of_int xs)"
  using assms
proof (induction xs arbitrary: i ys)
  case (Cons q xs)
  from Cons.IH [of "Suc i" "ys @ [word_of_int q]"] drop_nth_Cons [OF Cons.prems]
  show ?case by (simp add: rd_def wire_simps)
qed simp

lemma drop_take_snoc:
  assumes "take (k + 1) xs' = take k xs @ [s]" and "k < length xs"
  shows "take k xs' = take k xs \<and> drop k xs' = s # drop (k + 1) xs'"
proof
  show "take k xs' = take k xs"
    using arg_cong [OF assms(1), of "take k"] assms(2) by simp
  have "xs' = take k xs @ s # drop (k + 1) xs'"
    using append_take_drop_id [of "k + 1" xs'] unfolding assms(1) by simp
  then have "drop k xs' = drop k (take k xs @ s # drop (k + 1) xs')"
    by (rule arg_cong)
  then show "drop k xs' = s # drop (k + 1) xs'"
    using assms(2) by simp
qed

section \<open>Reading them back\<close>

lemma suback_loop_reads:
  assumes "drop cur buf = bs @ r" and "count + length bs \<le> length qs" and "int (count + length bs) \<le> maxcount + 1"
  shows "suback_loop buf cur (int cur + int (length bs)) maxcount count qs =
    Some (1, count + length bs, take count qs @ map uint bs @ drop (count + length bs) qs)"
  using assms
proof (induction bs arbitrary: cur count qs)
  case Nil
  then show ?case by (simp add: suback_loop.simps [of buf cur])
next
  case (Cons b bs)
  have d: "drop cur buf = b # bs @ r" using Cons.prems by simp
  note IH = Cons.IH [OF drop_step1 [OF d], of "Suc count" "qs[count := uint b]"]
  have "take (Suc count) (qs[count := uint b]) = take count qs @ [uint b]"
    "drop (Suc count + length bs) (qs[count := uint b]) = drop (count + length (b # bs)) qs"
    using Cons.prems(2) by (simp_all add: take_Suc_conv_app_nth)
  with IH Cons.prems(2,3) d show ?case
    by (subst suback_loop.simps) (simp add: readChar_drop wr_def ac_simps)
qed

lemma suback_loop_overruns:
  assumes "drop cur buf = bs @ r" and "count \<le> length qs" "length qs < count + length bs" and "int (length qs) \<le> maxcount"
  shows "suback_loop buf cur (int cur + int (length bs)) maxcount count qs = None"
  using assms
proof (induction bs arbitrary: cur count qs)
  case (Cons b bs)
  have d: "drop cur buf = b # bs @ r" using Cons.prems by simp
  show ?case
  proof (cases "count = length qs")
    case True
    with Cons.prems(4) show ?thesis
      by (subst suback_loop.simps) (simp add: readChar_drop [OF d] wr_def)
  next
    case False
    with Cons.IH [OF drop_step1 [OF d], of "Suc count" "qs[count := uint b]"] Cons.prems d show ?thesis
      by (subst suback_loop.simps) (simp add: readChar_drop wr_def ac_simps)
  qed
qed simp

lemma read_subscribe_loop_reads:
  assumes "drop cur buf = filters_qos tqs @ r" and "count + length tqs \<le> length topics"
    and "length topics = length qs" and "list_all (\<lambda>(t, q). length (text_of t) < 65536 \<and> 0 \<le> q \<and> q < 256) tqs"
  shows "\<exists>topics'. read_subscribe_loop buf cur (int cur + int (length (filters_qos tqs))) count topics qs rc0 =
      Some (1, count + length tqs, topics',
        take count qs @ map snd tqs @ drop (count + length tqs) qs) \<and>
    list_all2 (\<lambda>s (t, q). str_is s (text_of t)) (take (length tqs) (drop count topics')) tqs \<and>
    take count topics' = take count topics"
  using assms
proof (induction tqs arbitrary: cur count topics qs)
  case Nil
  then show ?case by (simp add: read_subscribe_loop.simps [of buf cur])
next
  case (Cons tq tqs)
  obtain t q where [simp]: "tq = (t, q)" by (cases tq)
  let ?e = "int cur + int (length (filters_qos (tq # tqs)))"
  have d: "drop cur buf = lenstr (text_of t) @ word_of_int q # filters_qos tqs @ r"
    and l: "length (text_of t) < 65536" and q: "0 \<le> q" "q < 256"
    and e: "int cur + 2 + int (length (text_of t)) \<le> ?e"
    using Cons.prems(1,4) by auto
  from read_str [OF d l e, of "topics ! count"] obtain s where
    s: "readMQTTLenString (topics ! count) buf cur ?e = Some (1, s, cur + 2 + length (text_of t))"
    "str_is s (text_of t)" and d2: "drop (cur + 2 + length (text_of t)) buf = word_of_int q # filters_qos tqs @ r"
    by blast
  let ?T = "topics[count := s]" and ?Q = "qs[count := uint (word_of_int q :: u8)]"
  let ?c = "Suc (cur + 2 + length (text_of t))"
  have e2: "?e = int ?c + int (length (filters_qos tqs))" by simp
  have uq: "uint (word_of_int q :: u8) = q" using q by (simp add: uint_word_of_int)
  have 1: "read_subscribe_loop buf cur ?e count topics qs rc0 = read_subscribe_loop buf ?c ?e (count + 1) ?T ?Q rc0"
    using Cons.prems(2,3) s readChar_drop [OF d2]
    by (subst read_subscribe_loop.simps) (simp add: rd_def wr_def)
  have "count + 1 + length tqs \<le> length ?T" "length ?T = length ?Q"
    "list_all (\<lambda>(t, q). length (text_of t) < 65536 \<and> 0 \<le> q \<and> q < 256) tqs"
    using Cons.prems by auto
  from Cons.IH [OF drop_step1 [OF d2] this] obtain topics' where
    T: "read_subscribe_loop buf ?c ?e (count + 1) ?T ?Q rc0 = Some (1, count + 1 + length tqs, topics',
        take (count + 1) ?Q @ map snd tqs @ drop (count + 1 + length tqs) ?Q)"
    "list_all2 (\<lambda>s (t, q). str_is s (text_of t)) (take (length tqs) (drop (count + 1) topics')) tqs"
    "take (count + 1) topics' = take (count + 1) ?T"
    unfolding e2 by blast
  have Q: "take (count + 1) ?Q = take count qs @ [q]"
    "drop (count + 1 + length tqs) ?Q = drop (count + length (tq # tqs)) qs"
    using Cons.prems(2,3) by (simp_all add: take_Suc_conv_app_nth uq)
  have c: "count < length ?T" using Cons.prems(2) by simp
  have t1: "take (count + 1) topics' = take count topics @ [s]"
    using T(3) c by (simp add: take_Suc_conv_app_nth)
  from drop_take_snoc [OF t1] c 1 T Q s(2) show ?case by (intro exI [of _ topics']) simp
qed

lemma read_unsubscribe_loop_reads:
  assumes "drop cur buf = filters ts @ r" and "count + length ts \<le> length topics"
    and "list_all (\<lambda>t. length (text_of t) < 65536) ts"
  shows "\<exists>topics'. read_unsubscribe_loop buf cur (int cur + int (length (filters ts))) count topics rc0 =
      Some (1, count + length ts, topics') \<and>
    list_all2 (\<lambda>s t. str_is s (text_of t)) (take (length ts) (drop count topics')) ts \<and>
    take count topics' = take count topics"
  using assms
proof (induction ts arbitrary: cur count topics)
  case Nil
  then show ?case by (simp add: read_unsubscribe_loop.simps [of buf cur])
next
  case (Cons t ts)
  let ?e = "int cur + int (length (filters (t # ts)))"
  have d: "drop cur buf = lenstr (text_of t) @ filters ts @ r"
    and l: "length (text_of t) < 65536" and e: "int cur + 2 + int (length (text_of t)) \<le> ?e"
    using Cons.prems(1,3) by auto
  from read_str [OF d l e, of "topics ! count"] obtain s where
    s: "readMQTTLenString (topics ! count) buf cur ?e = Some (1, s, cur + 2 + length (text_of t))"
    "str_is s (text_of t)" and d2: "drop (cur + 2 + length (text_of t)) buf = filters ts @ r"
    by blast
  let ?T = "topics[count := s]" and ?c = "cur + 2 + length (text_of t)"
  have e2: "?e = int ?c + int (length (filters ts))" by simp
  have 1: "read_unsubscribe_loop buf cur ?e count topics rc0 = read_unsubscribe_loop buf ?c ?e (count + 1) ?T rc0"
    using Cons.prems(2) s by (subst read_unsubscribe_loop.simps) (simp add: rd_def wr_def)
  have "count + 1 + length ts \<le> length ?T" "list_all (\<lambda>t. length (text_of t) < 65536) ts"
    using Cons.prems by auto
  from Cons.IH [OF d2 this] obtain topics' where
    T: "read_unsubscribe_loop buf ?c ?e (count + 1) ?T rc0 = Some (1, count + 1 + length ts, topics')"
    "list_all2 (\<lambda>s t. str_is s (text_of t)) (take (length ts) (drop (count + 1) topics')) ts"
    "take (count + 1) topics' = take (count + 1) ?T"
    unfolding e2 by blast
  have c: "count < length ?T" using Cons.prems(2) by simp
  then have "take (count + 1) topics' = take count topics @ [s]"
    using T(3) by (simp add: take_Suc_conv_app_nth)
  from drop_take_snoc [OF this] c 1 T s(2) show ?case by (intro exI [of _ topics']) simp
qed

section \<open>SUBSCRIBE and UNSUBSCRIBE round trips\<close>

lemma serialize_subscribe_emit:
  fixes i :: u16
  assumes l: "length topics = length qs" and wf: "list_all (\<lambda>(t, q). wf_mqtt_string t) (zip topics qs)"
  defines "body \<equiv> u16be (unat i) @ filters_qos (zip topics qs)"
  assumes fits: "MQTTPacket_len (int (length body)) \<le> buflen"
  shows "MQTTSerialize_subscribe buf buflen dup i (int (length topics)) topics qs =
    map_option (\<lambda>(b, n). (int n, b)) (emit (buf, 0) (packet (mk_header SUBSCRIBE dup 1 0) body))"
proof -
  have len: "MQTTSerialize_subscribeLength (int (length qs)) topics = Some (int (length body))"
    using subscribeLength_loop_ok [of 0 topics qs _ 2] l wf
    by (simp add: MQTTSerialize_subscribeLength_def body_def)
  have loop: "emit w xs \<bind> (\<lambda>w. subscribe_loop w topics qs 0 (length qs) \<bind> f) =
      emit w (xs @ filters_qos (zip topics qs)) \<bind> f" for w xs f
    using subscribe_loop_emit [OF _ l wf, of 0 w xs] l by (cases "emit w xs") auto
  show ?thesis
    using fits l by (simp add: MQTTSerialize_subscribe_def len wire_simps packet_def body_def loop nat_add_distrib)
qed

lemma emit_packet_result:
  assumes n28: "length body < 2 ^ 28" and fits: "MQTTPacket_len (int (length body)) \<le> int (length buf)"
  shows "map_option (\<lambda>(b, n). (int n, b)) (emit (buf, 0) (packet h body)) =
    Some (int (length (packet h body)), packet h body @ drop (length (packet h body)) buf)"
proof -
  have "length (packet h body) \<le> length buf"
    using fits MQTTPacket_len_bound(1) [OF n28] by simp
  from emit_packet [OF this] show ?thesis by simp
qed

definition subscribable :: "(mqtt_string \<times> int) list \<Rightarrow> bool" where
  "subscribable tqs \<longleftrightarrow> list_all (\<lambda>(t, q). wf_mqtt_string t \<and> length (text_of t) < 65536 \<and> 0 \<le> q \<and> q < 256) tqs"

text \<open>
  C35: A SUBSCRIBE survives the wire: serialising topic filters, each with its requested QoS,
  into a large enough buffer succeeds; deserialising the packet into arrays with room for
  them succeeds, counts as many filters, and stores every filter and QoS at its place, with the
  same packet identifier and dup flag.
\<close>

theorem subscribe_roundtrip:
  fixes i :: u16
  assumes l: "length topics = length qs" and tq: "subscribable (zip topics qs)"
    and n28: "length (u16be (unat i) @ filters_qos (zip topics qs)) < 2 ^ 28"
    and fits: "MQTTPacket_len (int (length (u16be (unat i) @ filters_qos (zip topics qs)))) \<le> int (length buf)"
    and room: "length topics \<le> length T0" "length T0 = length Q0"
  shows "\<exists>n buf' T.
    MQTTSerialize_subscribe buf (int (length buf)) dup i (int (length topics)) topics qs = Some (n, buf') \<and>
    MQTTDeserialize_subscribe dup0 i0 maxcount c0 T0 Q0 buf' n =
      Some (1, take_bit 1 dup, i, length topics, T, qs @ drop (length qs) Q0) \<and>
    list_all2 (\<lambda>s t. str_is s (text_of t)) (take (length topics) T) topics"
proof -
  let ?tqs = "zip topics qs"
  let ?h = "mk_header SUBSCRIBE dup 1 0"
  define pkt where "pkt = packet ?h (u16be (unat i) @ filters_qos ?tqs)"
  define r where "r = drop (length pkt) buf"
  have wf: "list_all (\<lambda>(t, q). wf_mqtt_string t) ?tqs"
    "list_all (\<lambda>(t, q). length (text_of t) < 65536 \<and> 0 \<le> q \<and> q < 256) ?tqs"
    using tq by (auto simp: subscribable_def list_all_iff)
  have ser: "MQTTSerialize_subscribe buf (int (length buf)) dup i (int (length topics)) topics qs =
      Some (int (length pkt), pkt @ r)"
    using serialize_subscribe_emit [OF l wf(1) fits] emit_packet_result [OF n28 fits, of ?h]
    by (simp add: pkt_def r_def)
  have b: "pkt @ r = packet ?h (u16be (unat i) @ filters_qos ?tqs) @ r" by (simp add: pkt_def)
  note hd = id_packet_head [OF b n28]
  have "0 + length ?tqs \<le> length T0" using room l by simp
  from read_subscribe_loop_reads [OF hd(4) this room(2) wf(2),
      of "int (length (vbi (2 + length (filters_qos ?tqs))))"] l
  obtain T where T: "read_subscribe_loop (pkt @ r) (1 + length (vbi (2 + length (filters_qos ?tqs))) + 2)
      (int (1 + length (vbi (2 + length (filters_qos ?tqs))) + 2) + int (length (filters_qos ?tqs))) 0 T0 Q0
      (int (length (vbi (2 + length (filters_qos ?tqs))))) =
      Some (1, length topics, T, qs @ drop (length qs) Q0)"
    "list_all2 (\<lambda>s (t, q). str_is s (text_of t)) (take (length topics) T) ?tqs"
    by auto
  have "list_all2 (\<lambda>s t. str_is s (text_of t)) (take (length topics) T) topics"
    using T(2) l by (auto simp: list_all2_conv_all_nth)
  moreover have "MQTTDeserialize_subscribe dup0 i0 maxcount c0 T0 Q0 (pkt @ r) (int (length pkt)) =
      Some (1, take_bit 1 dup, i, length topics, T, qs @ drop (length qs) Q0)"
    using hd(1-3) T(1) by (simp add: MQTTDeserialize_subscribe_def ac_simps)
  ultimately show ?thesis using ser by blast
qed

theorem subscribe_roundtrip_witness:
  "\<exists>n buf' T.
    MQTTSerialize_subscribe (replicate 20 0) 20 0 7 2 [topic_example, topic_example] [0, 2] = Some (n, buf') \<and>
    MQTTDeserialize_subscribe 0 0 2 0 (replicate 2 MQTTString_initializer) [9, 9] buf' n =
      Some (1, 0, 7, 2, T, [0, 2]) \<and>
    list_all2 (\<lambda>s t. str_is s (text_of t)) (take 2 T) [topic_example, topic_example]"
proof -
  let ?z = "zip [topic_example, topic_example] [0, 2 :: int]"
  have n: "length (u16be (unat (7::u16)) @ filters_qos ?z) = 10" by simp
  have p: "subscribable ?z" "(10::nat) < 2 ^ 28" "MQTTPacket_len 10 \<le> 20"
    by (simp_all add: subscribable_def MQTTPacket_len_def)
  show ?thesis
    using subscribe_roundtrip [of "[topic_example, topic_example]" "[0, 2]" 7 "replicate 20 0"
        "replicate 2 MQTTString_initializer" "[9, 9]" 0 0 0 2 0]
    unfolding n using p by (auto simp: numeral_2_eq_2)
qed

lemma serialize_unsubscribe_emit:
  fixes i :: u16
  assumes wf: "list_all wf_mqtt_string topics"
  defines "body \<equiv> u16be (unat i) @ filters topics"
  assumes fits: "MQTTPacket_len (int (length body)) \<le> buflen"
  shows "MQTTSerialize_unsubscribe buf buflen dup i (int (length topics)) topics =
    map_option (\<lambda>(b, n). (int n, b)) (emit (buf, 0) (packet (mk_header UNSUBSCRIBE dup 1 0) body))"
proof -
  have len: "MQTTSerialize_unsubscribeLength (int (length topics)) topics = Some (int (length body))"
    using unsubscribeLength_loop_ok [of 0 topics topics 2] wf
    by (simp add: MQTTSerialize_unsubscribeLength_def body_def)
  have loop: "emit w xs \<bind> (\<lambda>w. unsubscribe_loop w topics 0 (length topics) \<bind> f) =
      emit w (xs @ filters topics) \<bind> f" for w xs f
    using unsubscribe_loop_emit [of 0 topics topics w xs] wf by (cases "emit w xs") auto
  show ?thesis
    using fits by (simp add: MQTTSerialize_unsubscribe_def len wire_simps packet_def body_def loop nat_add_distrib)
qed

text \<open>
  An UNSUBSCRIBE survives the wire: the topic filters serialised into a large enough buffer
  are read back in number and order, with the same packet identifier and dup flag.
\<close>

theorem unsubscribe_roundtrip:
  fixes i :: u16
  assumes wf: "list_all wf_mqtt_string topics" and t: "list_all (\<lambda>t. length (text_of t) < 65536) topics"
    and n28: "length (u16be (unat i) @ filters topics) < 2 ^ 28"
    and fits: "MQTTPacket_len (int (length (u16be (unat i) @ filters topics))) \<le> int (length buf)"
    and room: "length topics \<le> length T0"
  shows "\<exists>n buf' T.
    MQTTSerialize_unsubscribe buf (int (length buf)) dup i (int (length topics)) topics = Some (n, buf') \<and>
    MQTTDeserialize_unsubscribe dup0 i0 maxcount c0 T0 buf' n =
      Some (1, take_bit 1 dup, i, length topics, T) \<and>
    list_all2 (\<lambda>s t. str_is s (text_of t)) (take (length topics) T) topics"
proof -
  let ?h = "mk_header UNSUBSCRIBE dup 1 0"
  define pkt where "pkt = packet ?h (u16be (unat i) @ filters topics)"
  define r where "r = drop (length pkt) buf"
  have ser: "MQTTSerialize_unsubscribe buf (int (length buf)) dup i (int (length topics)) topics =
      Some (int (length pkt), pkt @ r)"
    using serialize_unsubscribe_emit [OF wf fits] emit_packet_result [OF n28 fits, of ?h]
    by (simp add: pkt_def r_def)
  have b: "pkt @ r = packet ?h (u16be (unat i) @ filters topics) @ r" by (simp add: pkt_def)
  note hd = id_packet_head [OF b n28]
  have "0 + length topics \<le> length T0" using room by simp
  from read_unsubscribe_loop_reads [OF hd(4) this t, of "int (length (vbi (2 + length (filters topics))))"]
  obtain T where T: "read_unsubscribe_loop (pkt @ r) (1 + length (vbi (2 + length (filters topics))) + 2)
      (int (1 + length (vbi (2 + length (filters topics))) + 2) + int (length (filters topics))) 0 T0
      (int (length (vbi (2 + length (filters topics))))) = Some (1, length topics, T)"
    "list_all2 (\<lambda>s t. str_is s (text_of t)) (take (length topics) T) topics"
    by auto
  have "MQTTDeserialize_unsubscribe dup0 i0 maxcount c0 T0 (pkt @ r) (int (length pkt)) =
      Some (1, take_bit 1 dup, i, length topics, T)"
    using hd(1-3) T(1) by (simp add: MQTTDeserialize_unsubscribe_def ac_simps)
  with ser T(2) show ?thesis by blast
qed

theorem unsubscribe_roundtrip_witness:
  "\<exists>n buf' T.
    MQTTSerialize_unsubscribe (replicate 20 0) 20 1 7 2 [topic_example, topic_example] = Some (n, buf') \<and>
    MQTTDeserialize_unsubscribe 0 0 2 0 (replicate 2 MQTTString_initializer) buf' n = Some (1, 1, 7, 2, T)"
proof -
  let ?t = "[topic_example, topic_example]"
  have n: "length (u16be (unat (7::u16)) @ filters ?t) = 8" by simp
  have p: "(8::nat) < 2 ^ 28" "MQTTPacket_len 8 \<le> 20" by (simp_all add: MQTTPacket_len_def)
  show ?thesis
    using unsubscribe_roundtrip [of ?t 7 "replicate 20 0" "replicate 2 MQTTString_initializer" 1 0 0 2 0]
    unfolding n using p by (auto simp: numeral_2_eq_2)
qed

section \<open>SUBACK and UNSUBACK\<close>

lemma serialize_suback_emit:
  assumes "2 + int (length qs) \<le> buflen"
  shows "MQTTSerialize_suback buf buflen i (int (length qs)) qs = map_option (\<lambda>(b, n). (int n, b))
    (emit (buf, 0) (packet (mk_header SUBACK 0 0 0) (u16be (unat i) @ map word_of_int qs)))"
proof -
  have loop: "emit w xs \<bind> (\<lambda>w. write_qos_loop w qs 0 (length qs) \<bind> f) =
      emit w (xs @ map word_of_int qs) \<bind> f" for w xs f
    using write_qos_loop_emit [of 0 qs qs w xs] by (cases "emit w xs") auto
  show ?thesis
    using assms by (simp add: MQTTSerialize_suback_def wire_simps packet_def nat_add_distrib loop)
qed

lemma deserialize_suback_loop:
  assumes b: "buf = packet h (u16be (unat i) @ x) @ r" and n28: "length (u16be (unat i) @ x) < 2 ^ 28"
    and h: "hdr_type h = SUBACK"
  shows "\<exists>cur. drop cur buf = x @ r \<and> MQTTDeserialize_suback i0 maxcount c0 qs buf buflen = do {
    (rc, count, qs) \<leftarrow> suback_loop buf cur (int cur + int (length x)) maxcount 0 qs;
    Some (rc, i, count, qs) }"
  using id_packet_head [OF b n28] h
  by (intro exI [of _ "1 + length (vbi (2 + length x)) + 2"])
     (simp add: MQTTDeserialize_suback_def ac_simps)

text \<open>
  A SUBACK survives the wire when its return codes fit the caller's array and the buffer has four
  bytes besides them: deserialising it succeeds with the packet identifier, the number of codes and the codes.
\<close>

theorem suback_roundtrip:
  assumes fits: "4 + length qs \<le> length buf" "length qs < 100"
    and q: "list_all (\<lambda>q. 0 \<le> q \<and> q < 256) qs"
    and room: "length qs \<le> length Q0" "int (length qs) \<le> maxcount"
  shows "\<exists>n buf'. MQTTSerialize_suback buf (int (length buf)) i (int (length qs)) qs = Some (n, buf') \<and>
    MQTTDeserialize_suback i0 maxcount c0 Q0 buf' n = Some (1, i, length qs, qs @ drop (length qs) Q0)"
proof -
  let ?h = "mk_header SUBACK 0 0 0" and ?x = "map word_of_int qs :: bytes"
  define pkt where "pkt = packet ?h (u16be (unat i) @ ?x)"
  define r where "r = drop (length pkt) buf"
  have "length pkt \<le> length buf" using fits by (simp add: pkt_def vbi_small)
  then have "MQTTSerialize_suback buf (int (length buf)) i (int (length qs)) qs = Some (int (length pkt), pkt @ r)"
    using serialize_suback_emit [of qs "int (length buf)" buf i] fits
      emit_packet [of ?h "u16be (unat i) @ ?x" buf] by (simp add: pkt_def r_def)
  moreover have b: "pkt @ r = packet ?h (u16be (unat i) @ ?x) @ r" by (simp add: pkt_def)
  have n28: "length (u16be (unat i) @ ?x) < 2 ^ 28" using fits by simp
  have u: "map uint ?x = qs"
    using q by (induction qs) (simp_all add: uint_word_of_int)
  obtain cur where "drop cur (pkt @ r) = ?x @ r" and
    des: "MQTTDeserialize_suback i0 maxcount c0 Q0 (pkt @ r) (int (length pkt)) = do {
      (rc, count, qs) \<leftarrow> suback_loop (pkt @ r) cur (int cur + int (length ?x)) maxcount 0 Q0;
      Some (rc, i, count, qs) }"
    using deserialize_suback_loop [OF b n28] by fastforce
  from suback_loop_reads [OF this(1), of 0 Q0 maxcount] room u
  have "MQTTDeserialize_suback i0 maxcount c0 Q0 (pkt @ r) (int (length pkt)) =
      Some (1, i, length qs, qs @ drop (length qs) Q0)"
    unfolding des by simp
  ultimately show ?thesis by blast
qed

theorem suback_roundtrip_witness:
  "\<exists>n buf'. MQTTSerialize_suback (replicate 8 0) 8 513 2 [1, 128] = Some (n, buf') \<and>
     MQTTDeserialize_suback 0 2 0 [7, 7, 7] buf' n = Some (1, 513, 2, [1, 128, 7])"
  using suback_roundtrip [of "[1, 128]" "replicate 8 0" "[7, 7, 7]" 2 513 0 0]
  by (auto simp: numeral_2_eq_2)

text \<open>
  The bound on the return codes of a SUBACK is off by one: with an array of exactly
  \<open>maxcount\<close> elements, a packet that carries one code more than that is not refused but makes
  the deserialiser store past the end of the array. The serialiser in turn accepts a buffer
  two bytes too short and writes past its end.
\<close>

theorem suback_overruns:
  fixes i :: u16
  assumes "hdr_type h = SUBACK" and "length cs = length Q0 + 1" and "length cs < 2 ^ 20"
  shows "MQTTDeserialize_suback i0 (int (length Q0)) c0 Q0
      (packet h (u16be (unat i) @ cs) @ r) buflen = None \<and>
    (length buf = 2 + length qs \<longrightarrow>
      MQTTSerialize_suback buf (int (length buf)) i (int (length qs)) qs = None)"
proof (intro conjI impI)
  have n28: "length (u16be (unat i) @ cs) < 2 ^ 28" using assms(3) by simp
  from deserialize_suback_loop [OF refl n28 assms(1), of r i0 "int (length Q0)" c0 Q0 buflen]
  obtain cur where "drop cur (packet h (u16be (unat i) @ cs) @ r) = cs @ r" and
    "MQTTDeserialize_suback i0 (int (length Q0)) c0 Q0 (packet h (u16be (unat i) @ cs) @ r) buflen = do {
      (rc, count, qs) \<leftarrow> suback_loop (packet h (u16be (unat i) @ cs) @ r) cur (int cur + int (length cs))
        (int (length Q0)) 0 Q0;
      Some (rc, i, count, qs) }" by blast
  with suback_loop_overruns [of cur "packet h (u16be (unat i) @ cs) @ r" cs r 0 Q0 "int (length Q0)"] assms(2)
  show "MQTTDeserialize_suback i0 (int (length Q0)) c0 Q0
      (packet h (u16be (unat i) @ cs) @ r) buflen = None" by simp
next
  assume "length buf = 2 + length qs"
  moreover have "0 < length (vbi (2 + length qs))" by (rule length_vbi_pos)
  ultimately show "MQTTSerialize_suback buf (int (length buf)) i (int (length qs)) qs = None"
    by (simp add: serialize_suback_emit emit_overflow)
qed

theorem suback_overruns_witness:
  "MQTTDeserialize_suback 0 1 0 [7] (packet 0x90 (u16be 5 @ [0, 1])) 6 = None \<and>
   MQTTSerialize_suback (replicate 3 0) 3 5 1 [0] = None"
proof -
  have h: "hdr_type 0x90 = SUBACK" by code_simp
  have u: "unat (5 :: u16) = 5" by simp
  from suback_overruns [OF h, of "[0, 1]" "[7]" 0 0 5 "[]" 6 "replicate 3 0" "[0]"]
  show ?thesis unfolding u by simp
qed

text \<open>The UNSUBACK deserialiser accepts any acknowledgement: its type check changes nothing.\<close>

lemma unsuback_any_type:
  "MQTTDeserialize_ack i0 buf buflen = Some (1, t, d, i) \<Longrightarrow> MQTTDeserialize_unsuback i0 buf buflen = Some (1, i)"
  by (simp add: MQTTDeserialize_unsuback_def)

text \<open>
  A UNSUBACK survives the wire when the buffer has four bytes, but the check of its type has no effect:
  every acknowledgement packet, whatever its type, is reported as a successful UNSUBACK with its identifier; and the serialiser writes
  past the end of a buffer of two or three bytes.
\<close>

theorem unsuback_behaviour:
  "(4 \<le> length buf \<longrightarrow> (\<exists>buf'. MQTTSerialize_unsuback buf (int (length buf)) i = Some (4, buf') \<and>
      MQTTDeserialize_unsuback i0 buf' 4 = Some (1, i))) \<and>
   (length buf = 2 \<or> length buf = 3 \<longrightarrow> MQTTSerialize_unsuback buf (int (length buf)) i = None) \<and>
   MQTTDeserialize_unsuback i0 (packet (mk_header t 0 0 0) (u16be (unat i)) @ r) 4 = Some (1, i)"
proof (intro conjI impI)
  let ?p = "packet (mk_header UNSUBACK 0 0 0) (u16be (unat i))"
  have em: "2 \<le> length buf \<Longrightarrow> MQTTSerialize_unsuback buf (int (length buf)) i =
      map_option (\<lambda>(b, n). (int n, b)) (emit (buf, 0) ?p)" for buf
    by (simp add: MQTTSerialize_unsuback_def wire_simps packet_def vbi_small)
  have any: "MQTTDeserialize_unsuback i0 (packet (mk_header t 0 0 0) (u16be (unat i)) @ r) 4 = Some (1, i)" for t r
    using deserialize_ack_packet [of _ "mk_header t 0 0 0" i "[]" r i0 4]
    by (intro unsuback_any_type) simp
  show "MQTTDeserialize_unsuback i0 (packet (mk_header t 0 0 0) (u16be (unat i)) @ r) 4 = Some (1, i)"
    by (rule any)
  assume "4 \<le> length buf"
  moreover from this have "length ?p \<le> length buf" by (simp only: length_ack)
  from emit_packet [OF this] have "emit (buf, 0) ?p = Some (?p @ drop 4 buf, 4)"
    by (simp only: length_ack)
  ultimately show "\<exists>buf'. MQTTSerialize_unsuback buf (int (length buf)) i = Some (4, buf') \<and>
      MQTTDeserialize_unsuback i0 buf' 4 = Some (1, i)"
    using em [of buf] any by simp
next
  assume "length buf = 2 \<or> length buf = 3"
  then show "MQTTSerialize_unsuback buf (int (length buf)) i = None"
    by (auto simp: MQTTSerialize_unsuback_def wire_simps vbi_small u16be_def emit_overflow)
qed

theorem unsuback_behaviour_witness:
  "(\<exists>buf'. MQTTSerialize_unsuback [0, 0, 0, 0, 0] 5 258 = Some (4, buf') \<and>
      MQTTDeserialize_unsuback 0 buf' 4 = Some (1, 258)) \<and>
   MQTTDeserialize_unsuback 0 (packet (mk_header PUBACK 0 0 0) (u16be (unat (258 :: u16)))) 4 = Some (1, 258)"
  using unsuback_behaviour [of "[0, 0, 0, 0, 0]" 258 0 PUBACK "[]"] by auto
end
