(* ===== verification/LwIP_Recv.thy ===== *)
theory LwIP_Recv
  imports C_Prelude
begin

text \<open>
  Receiving from a TCP socket: \<open>lwip_recv_tcp\<close> of \<open>lwip-2.1.2/api/sockets.c\<close> over
  \<open>netconn_recv_data_tcp\<close> and \<open>netconn_recv_data\<close> of \<open>api_lib.c\<close>, for a socket without
  \<open>MSG_PEEK\<close>, as the MQTT client calls it. The configuration is the one of the repository:
  no receive timeout, no receive buffer accounting, no full duplex.

  The receive mailbox is the list of what the TCP thread will post to it, in order: data,
  an error message (\<open>ERR_CLSD\<close> for a FIN), or \<open>Not_yet\<close>, the moment up to which the
  messages before it have arrived. A fetch that blocks waits past \<open>Not_yet\<close>, a fetch that
  may not block reports that there is nothing. Behind the last message the peer closes.
\<close>

section \<open>State\<close>

abbreviation (input) ERR_OK :: int where "ERR_OK \<equiv> 0"
abbreviation (input) ERR_WOULDBLOCK :: int where "ERR_WOULDBLOCK \<equiv> -7"
abbreviation (input) ERR_CONN :: int where "ERR_CONN \<equiv> -11"
abbreviation (input) ERR_RST :: int where "ERR_RST \<equiv> -14"
abbreviation (input) ERR_CLSD :: int where "ERR_CLSD \<equiv> -15"

datatype mbox_item = Msg_pbuf bytes | Msg_err int | Not_yet

record lwip_sock =
  lastdata :: "bytes option"
  recvmbox :: "mbox_item list"
  mbox_valid :: bool
  mbox_closed :: bool
  fin_rx_pending :: bool
  pending_err :: int
  pcb_null :: bool
  recved :: nat

text \<open>\<open>recved\<close> is the window credit given back through \<open>netconn_tcp_recvd\<close>.\<close>

section \<open>The netconn layer\<close>

text \<open>\<open>netconn_err\<close> returns the pending error and clears it.\<close>

definition netconn_err :: "lwip_sock \<Rightarrow> int \<times> lwip_sock" where
  "netconn_err s = (pending_err s, s\<lparr>pending_err := ERR_OK\<rparr>)"

definition mbox_tryfetch :: "lwip_sock \<Rightarrow> mbox_item option \<times> lwip_sock" where
  "mbox_tryfetch s = (case recvmbox s of
     [] \<Rightarrow> (None, s)
   | Not_yet # _ \<Rightarrow> (None, s)
   | m # ms \<Rightarrow> (Some m, s\<lparr>recvmbox := ms\<rparr>))"

fun drop_waits :: "mbox_item list \<Rightarrow> mbox_item list" where
  "drop_waits (Not_yet # ms) = drop_waits ms"
| "drop_waits ms = ms"

definition mbox_fetch :: "lwip_sock \<Rightarrow> mbox_item \<times> lwip_sock" where
  "mbox_fetch s = (case drop_waits (recvmbox s) of
     [] \<Rightarrow> (Msg_err ERR_CLSD, s\<lparr>recvmbox := []\<rparr>)
   | m # ms \<Rightarrow> (m, s\<lparr>recvmbox := ms\<rparr>))"

text \<open>\<open>netconn_recv_data\<close>: the error code, the buffer (\<open>None\<close> for \<open>NULL\<close>) and the socket.\<close>

definition netconn_recv_data :: "lwip_sock \<Rightarrow> bool \<Rightarrow> int \<times> bytes option \<times> lwip_sock" where
  "netconn_recv_data s dontblock =
     (if \<not> mbox_valid s then
        (let (err, s) = netconn_err s in (if err \<noteq> ERR_OK then err else ERR_CONN, None, s))
      else
        let (m, s) = (if dontblock \<or> mbox_closed s \<or> pending_err s \<noteq> ERR_OK
                      then mbox_tryfetch s else map_prod Some id (mbox_fetch s))
        in case m of
             None \<Rightarrow>
               (let (err, s) = netconn_err s
                in (if err \<noteq> ERR_OK then err else if mbox_closed s then ERR_CONN else ERR_WOULDBLOCK,
                    None, s))
           | Some (Msg_err err) \<Rightarrow> (if err = ERR_CLSD then ERR_OK else err, None, s)
           | Some (Msg_pbuf p) \<Rightarrow> (ERR_OK, Some p, s)
           | Some Not_yet \<Rightarrow> (ERR_OK, None, s))"

definition handle_fin :: "lwip_sock \<Rightarrow> int \<times> bytes option \<times> lwip_sock" where
  "handle_fin s =
     (if pcb_null s then
        (let (err, s) = netconn_err s in (if err \<noteq> ERR_OK then err else ERR_RST, None, s))
      else (ERR_CLSD, None, s\<lparr>mbox_valid := False, recvmbox := []\<rparr>))"

definition netconn_recv_data_tcp ::
    "lwip_sock \<Rightarrow> bool \<Rightarrow> bool \<Rightarrow> int \<times> bytes option \<times> lwip_sock" where
  "netconn_recv_data_tcp s dontblock nofin =
     (if \<not> mbox_valid s then (ERR_CONN, None, s)
      else if fin_rx_pending s then handle_fin (s\<lparr>fin_rx_pending := False\<rparr>)
      else case netconn_recv_data s dontblock of (err, buf, s) \<Rightarrow>
        if err \<noteq> ERR_OK then (err, buf, s)
        else case buf of
          None \<Rightarrow> if nofin then (ERR_WOULDBLOCK, None, s\<lparr>fin_rx_pending := True\<rparr>) else handle_fin s
        | Some p \<Rightarrow> (err, Some p, s))"

section \<open>The socket layer\<close>

text \<open>
  The loop of \<open>lwip_recv_tcp\<close>. Arguments: the two flags a round adds, the bytes copied so
  far, the bytes still wanted. The result is the return value, the bytes copied to \<open>mem\<close>
  and the socket.
\<close>

definition recv_done :: "lwip_sock \<Rightarrow> bytes \<Rightarrow> int \<times> bytes \<times> lwip_sock" where
  "recv_done s acc = (int (length acc), acc, s\<lparr>recved := recved s + length acc\<rparr>)"

definition recv_fetch :: "lwip_sock \<Rightarrow> bool \<Rightarrow> bool \<Rightarrow> int \<times> bytes option \<times> lwip_sock" where
  "recv_fetch s dontblock nofin = (case lastdata s of
     Some p \<Rightarrow> (ERR_OK, Some p, s)
   | None \<Rightarrow> netconn_recv_data_tcp s dontblock nofin)"

definition sock_size :: "lwip_sock \<Rightarrow> nat" where
  "sock_size s = length (recvmbox s) + (case lastdata s of None \<Rightarrow> 0 | Some _ \<Rightarrow> 1)"

lemma length_drop_waits: "length (drop_waits ms) \<le> length ms"
  by (induction ms rule: drop_waits.induct) auto

lemma recv_fetch_size:
  "recv_fetch s d f = (e, Some p, s') \<Longrightarrow> sock_size (s'\<lparr>lastdata := None\<rparr>) < sock_size s"
  using length_drop_waits [of "recvmbox s"]
  by (auto simp: recv_fetch_def netconn_recv_data_tcp_def netconn_recv_data_def handle_fin_def
      mbox_tryfetch_def mbox_fetch_def netconn_err_def sock_size_def Let_def
      split: option.splits if_splits list.splits mbox_item.splits prod.splits)

function recv_tcp_loop :: "lwip_sock \<Rightarrow> bool \<Rightarrow> bool \<Rightarrow> bytes \<Rightarrow> nat \<Rightarrow> int \<times> bytes \<times> lwip_sock" where
  "recv_tcp_loop s dontblock nofin acc left =
     (case recv_fetch s dontblock nofin of
        (err, None, s') \<Rightarrow>
          if acc \<noteq> [] then recv_done s' acc
          else if err = ERR_CLSD then (0, acc, s') else (-1, acc, s')
      | (err, Some p, s') \<Rightarrow>
          let copylen = (if left > length p then length p else left);
              acc = acc @ take copylen p;
              left = left - copylen;
              s' = s'\<lparr>lastdata := (if length p - copylen > 0 then Some (drop copylen p) else None)\<rparr>
          in if left > 0 then recv_tcp_loop s' True True acc left else recv_done s' acc)"
  by pat_completeness auto

termination recv_tcp_loop
  by (relation "measure (\<lambda>(s, d, f, acc, left). sock_size s)")
     (auto dest!: recv_fetch_size [OF sym] split: if_splits)

declare recv_tcp_loop.simps [simp del]

definition lwip_recv_tcp :: "lwip_sock \<Rightarrow> nat \<Rightarrow> bool \<Rightarrow> int \<times> bytes \<times> lwip_sock" where
  "lwip_recv_tcp s len dontwait = recv_tcp_loop s dontwait False [] len"

section \<open>The byte stream of a socket\<close>

text \<open>
  \<open>stream\<close> is every byte the socket will still deliver, \<open>arrived\<close> the part of it that is
  already in the mailbox. A well-formed mailbox holds no empty buffer, and nothing behind an
  error message.
\<close>

fun mbox_stream :: "mbox_item list \<Rightarrow> bytes" where
  "mbox_stream [] = []"
| "mbox_stream (Msg_pbuf p # ms) = p @ mbox_stream ms"
| "mbox_stream (Not_yet # ms) = mbox_stream ms"
| "mbox_stream (Msg_err e # ms) = []"

fun mbox_arrived :: "mbox_item list \<Rightarrow> bytes" where
  "mbox_arrived (Msg_pbuf p # ms) = p @ mbox_arrived ms"
| "mbox_arrived ms = []"

fun mbox_wf :: "mbox_item list \<Rightarrow> bool" where
  "mbox_wf [] = True"
| "mbox_wf (Msg_pbuf p # ms) = (p \<noteq> [] \<and> mbox_wf ms)"
| "mbox_wf (Not_yet # ms) = mbox_wf ms"
| "mbox_wf (Msg_err e # ms) = (e \<noteq> ERR_OK \<and> ms = [])"

definition open_mbox :: "lwip_sock \<Rightarrow> mbox_item list" where
  "open_mbox s = (if mbox_valid s \<and> \<not> fin_rx_pending s then recvmbox s else [])"

definition leftover :: "lwip_sock \<Rightarrow> bytes" where
  "leftover s = (case lastdata s of Some p \<Rightarrow> p | None \<Rightarrow> [])"

definition stream :: "lwip_sock \<Rightarrow> bytes" where
  "stream s = leftover s @ mbox_stream (open_mbox s)"

definition arrived :: "lwip_sock \<Rightarrow> bytes" where
  "arrived s = leftover s @ mbox_arrived (open_mbox s)"

definition sock_ok :: "lwip_sock \<Rightarrow> bool" where
  "sock_ok s \<longleftrightarrow> mbox_wf (recvmbox s) \<and> (fin_rx_pending s \<longrightarrow> recvmbox s = []) \<and>
     \<not> mbox_closed s \<and> pending_err s = ERR_OK \<and> lastdata s \<noteq> Some []"

lemmas sock_defs = open_mbox_def leftover_def stream_def arrived_def sock_ok_def

lemmas fetch_defs = recv_fetch_def netconn_recv_data_tcp_def netconn_recv_data_def handle_fin_def
  mbox_tryfetch_def mbox_fetch_def netconn_err_def Let_def

lemma drop_waits_simps:
  "mbox_stream (drop_waits ms) = mbox_stream ms" "mbox_wf ms \<Longrightarrow> mbox_wf (drop_waits ms)"
  by (induction ms rule: drop_waits.induct) auto

lemma drop_waits_head: "drop_waits ms \<noteq> Not_yet # ms'"
  by (induction ms rule: drop_waits.induct) auto

lemma drop_waits_arrived: "mbox_arrived ms \<noteq> [] \<Longrightarrow> drop_waits ms = ms"
  by (cases ms rule: mbox_arrived.cases) auto

text \<open>One fetch: it takes the next buffer of the stream, or leaves the stream as it is.\<close>

lemma fetch_wait:
  assumes "sock_ok s" "lastdata s = None" "mbox_valid s" "\<not> fin_rx_pending s" "\<not> d"
  shows "recv_fetch s d f = (case drop_waits (recvmbox s) of
      Msg_pbuf p # ms \<Rightarrow> (ERR_OK, Some p, s\<lparr>recvmbox := ms\<rparr>)
    | ms \<Rightarrow> (if ms \<noteq> [] \<and> ms \<noteq> [Msg_err ERR_CLSD] then
           (case hd ms of Msg_err e \<Rightarrow> (e, None, s\<lparr>recvmbox := []\<rparr>) | _ \<Rightarrow> (ERR_OK, None, s))
         else if f then (ERR_WOULDBLOCK, None, s\<lparr>recvmbox := [], fin_rx_pending := True\<rparr>)
         else handle_fin (s\<lparr>recvmbox := []\<rparr>)))"
  using assms drop_waits_simps(2) [of "recvmbox s"] drop_waits_head [of "recvmbox s" "tl (drop_waits (recvmbox s))"]
  by (cases "drop_waits (recvmbox s)"; cases "hd (drop_waits (recvmbox s))")
     (simp_all add: recv_fetch_def netconn_recv_data_tcp_def netconn_recv_data_def
        mbox_fetch_def sock_ok_def)

lemma fetch_nowait:
  assumes "sock_ok s" "lastdata s = None" "mbox_valid s" "\<not> fin_rx_pending s" "d"
  shows "recv_fetch s d f = (case recvmbox s of
      Msg_pbuf p # ms \<Rightarrow> (ERR_OK, Some p, s\<lparr>recvmbox := ms\<rparr>)
    | Msg_err e # ms \<Rightarrow>
        (if e \<noteq> ERR_CLSD then (e, None, s\<lparr>recvmbox := ms\<rparr>)
         else if f then (ERR_WOULDBLOCK, None, s\<lparr>recvmbox := ms, fin_rx_pending := True\<rparr>)
         else handle_fin (s\<lparr>recvmbox := ms\<rparr>))
    | _ \<Rightarrow> (ERR_WOULDBLOCK, None, s))"
  using assms
  by (cases "recvmbox s"; cases "hd (recvmbox s)")
     (simp_all add: recv_fetch_def netconn_recv_data_tcp_def netconn_recv_data_def
        mbox_tryfetch_def sock_ok_def netconn_err_def)

lemma fetch_closed:
  assumes "lastdata s = None" "\<not> (mbox_valid s \<and> \<not> fin_rx_pending s)"
  shows "recv_fetch s d f =
    (if mbox_valid s then handle_fin (s\<lparr>fin_rx_pending := False\<rparr>) else (ERR_CONN, None, s))"
  using assms by (auto simp: recv_fetch_def netconn_recv_data_tcp_def)

lemma handle_fin_ok:
  assumes "handle_fin s = (e, b, s')" "recvmbox s = []" "\<not> mbox_closed s" "pending_err s = ERR_OK"
    "lastdata s = None"
  shows "e \<noteq> ERR_OK \<and> b = None \<and> sock_ok s' \<and> stream s' = []"
  using assms by (auto simp: handle_fin_def netconn_err_def sock_defs split: if_splits option.splits)

lemma recv_fetch_buf:
  assumes "sock_ok s" "recv_fetch s d f = (e, Some p, s')"
  shows "e = ERR_OK \<and> p \<noteq> [] \<and> sock_ok (s'\<lparr>lastdata := None\<rparr>) \<and>
    stream s = p @ stream (s'\<lparr>lastdata := None\<rparr>) \<and>
    (arrived s = [] \<or> arrived s = p @ arrived (s'\<lparr>lastdata := None\<rparr>))"
proof (cases "lastdata s = None \<and> mbox_valid s \<and> \<not> fin_rx_pending s")
  case True
  then have f: "\<And>t. fst (snd (handle_fin t)) = None"
    by (simp add: handle_fin_def netconn_err_def)
  show ?thesis
  proof (cases d)
    case True
    with assms \<open>lastdata s = None \<and> _\<close> obtain ms where "recvmbox s = Msg_pbuf p # ms"
      "e = ERR_OK" "s' = s\<lparr>recvmbox := ms\<rparr>"
      using f [of "s\<lparr>recvmbox := tl (recvmbox s)\<rparr>"]
      by (auto simp: fetch_nowait split: list.splits mbox_item.splits if_splits)
    with assms(1) \<open>lastdata s = None \<and> _\<close> show ?thesis by (auto simp: sock_defs)
  next
    case False
    with assms \<open>lastdata s = None \<and> _\<close> obtain ms where ms: "drop_waits (recvmbox s) = Msg_pbuf p # ms"
      "e = ERR_OK" "s' = s\<lparr>recvmbox := ms\<rparr>"
      using f [of "s\<lparr>recvmbox := []\<rparr>"]
      by (auto simp: fetch_wait split: list.splits mbox_item.splits if_splits)
    then have "mbox_stream (recvmbox s) = p @ mbox_stream ms" "mbox_wf ms" "p \<noteq> []"
      using drop_waits_simps [of "recvmbox s"] assms(1) by (auto simp: sock_ok_def)
    moreover have "mbox_arrived (recvmbox s) = [] \<or> mbox_arrived (recvmbox s) = p @ mbox_arrived ms"
      using ms(1) drop_waits_arrived [of "recvmbox s"] by (metis mbox_arrived.simps(1))
    ultimately show ?thesis using assms(1) ms \<open>lastdata s = None \<and> _\<close> by (auto simp: sock_defs)
  qed
next
  case False
  then show ?thesis
  proof (cases "lastdata s")
    case None
    with False assms(2) show ?thesis
      by (auto simp: fetch_closed handle_fin_def netconn_err_def split: if_splits)
  next
    case (Some q)
    with assms show ?thesis by (auto simp: recv_fetch_def sock_defs)
  qed
qed

lemma recv_fetch_none:
  assumes "sock_ok s" "recv_fetch s d f = (e, None, s')"
  shows "e \<noteq> ERR_OK \<and> sock_ok s' \<and> stream s' = stream s \<and> arrived s = [] \<and> (\<not> d \<longrightarrow> stream s = [])"
proof -
  have ld: "lastdata s = None"
    using assms(2) by (auto simp: recv_fetch_def split: option.splits)
  show ?thesis
  proof (cases "mbox_valid s \<and> \<not> fin_rx_pending s")
    case True
    show ?thesis
    proof (cases d)
      case d: True
      note eq = fetch_nowait [OF assms(1) ld True [THEN conjunct1] True [THEN conjunct2] d, of f]
      show ?thesis
      proof (cases "recvmbox s")
        case Nil
        with eq assms ld True d show ?thesis by (auto simp: sock_defs)
      next
        case (Cons m ms)
        with eq assms ld True d show ?thesis
          using handle_fin_ok [of "s\<lparr>recvmbox := ms\<rparr>" e None s']
          by (cases m) (auto simp: sock_defs split: if_splits option.splits)
      qed
    next
      case d: False
      note eq = fetch_wait [OF assms(1) ld True [THEN conjunct1] True [THEN conjunct2] d, of f]
      have wf: "mbox_wf (recvmbox s)" using assms(1) by (simp add: sock_ok_def)
      have fin: "handle_fin (s\<lparr>recvmbox := []\<rparr>) = (e, None, s') \<Longrightarrow>
          e \<noteq> ERR_OK \<and> sock_ok s' \<and> stream s' = []"
        using handle_fin_ok [of "s\<lparr>recvmbox := []\<rparr>" e None s'] assms(1) ld
        by (simp add: sock_ok_def)
      have "mbox_stream (recvmbox s) = [] \<and> e \<noteq> ERR_OK \<and> sock_ok s' \<and> stream s' = []"
      proof (cases "drop_waits (recvmbox s)")
        case Nil
        with eq assms ld True fin show ?thesis
          using drop_waits_simps(1) [of "recvmbox s"] by (auto simp: sock_defs split: if_splits)
      next
        case (Cons m ms)
        with eq assms ld True fin wf show ?thesis
          using drop_waits_simps [of "recvmbox s"] drop_waits_head [of "recvmbox s" ms]
          by (cases m) (auto simp: sock_defs split: if_splits)
      qed
      moreover have "mbox_arrived (recvmbox s) = []"
        using eq assms(2) drop_waits_arrived [of "recvmbox s"]
        by (cases "recvmbox s" rule: mbox_arrived.cases) auto
      ultimately show ?thesis using ld True d by (simp add: sock_defs)
    qed
  next
    case False
    with assms ld show ?thesis
      using handle_fin_ok [of "s\<lparr>fin_rx_pending := False\<rparr>" e None s']
      by (auto simp: fetch_closed sock_defs split: if_splits)
  qed
qed

section \<open>What a receive delivers\<close>

text \<open>
  The bytes come in stream order and none is lost; a receive that may wait returns nothing
  only at the end of the stream; what has arrived is delivered up to the length asked for.
\<close>

lemma sock_recved [simp]:
  "stream (s\<lparr>recved := n\<rparr>) = stream s" "arrived (s\<lparr>recved := n\<rparr>) = arrived s"
  "sock_ok (s\<lparr>recved := n\<rparr>) = sock_ok s"
  by (simp_all add: sock_defs)

lemma sock_split:
  assumes "left \<le> length p" "p \<noteq> []" "sock_ok (s\<lparr>lastdata := None\<rparr>)" "0 < left"
  defines "s' \<equiv> s\<lparr>lastdata := (if left < length p then Some (drop left p) else None)\<rparr>"
  shows "stream s' = drop left p @ stream (s\<lparr>lastdata := None\<rparr>)" "sock_ok s'"
    "arrived s' = drop left p @ arrived (s\<lparr>lastdata := None\<rparr>)"
  using assms by (auto simp: sock_defs)

lemma recv_tcp_loop_stream:
  assumes "sock_ok s" "0 < left" "recv_tcp_loop s d f acc left = (rc, out, s')"
  shows "\<exists>k. k \<le> left \<and> k \<le> length (stream s) \<and> out = acc @ take k (stream s) \<and>
    stream s' = drop k (stream s) \<and> sock_ok s' \<and>
    (out \<noteq> [] \<longrightarrow> rc = int (length out)) \<and> (out = [] \<longrightarrow> rc \<le> 0) \<and>
    (\<not> d \<and> stream s \<noteq> [] \<longrightarrow> 0 < k) \<and>
    (left \<le> length (arrived s) \<longrightarrow> k = left \<and> arrived s' = drop left (arrived s))"
  using assms
proof (induction s d f acc left arbitrary: rc out s' rule: recv_tcp_loop.induct)
  case (1 s d f acc left)
  obtain e b s1 where r: "recv_fetch s d f = (e, b, s1)" by (metis prod_cases3)
  show ?case
  proof (cases b)
    case None
    note n = recv_fetch_none [OF "1.prems"(1) r [unfolded None]]
    from "1.prems"(3) r None have "out = acc" "(s' = s1 \<or> s' = s1\<lparr>recved := recved s1 + length acc\<rparr>)"
      "acc \<noteq> [] \<longrightarrow> rc = int (length acc)" "acc = [] \<longrightarrow> rc \<le> 0"
      by (auto simp: recv_tcp_loop.simps [of s d f acc left] recv_done_def split: if_splits)
    moreover from this n have "stream s' = stream s" "sock_ok s'" by auto
    ultimately show ?thesis using n "1.prems"(2) by (intro exI [of _ 0]) auto
  next
    case (Some p)
    note p = recv_fetch_buf [OF "1.prems"(1) r [unfolded Some]]
    let ?s0 = "s1\<lparr>lastdata := None\<rparr>"
    show ?thesis
    proof (cases "length p < left")
      case True
      then have "recv_tcp_loop ?s0 True True (acc @ p) (left - length p) = (rc, out, s')"
        using "1.prems"(3) r Some by (simp add: recv_tcp_loop.simps [of s d f acc left])
      with "1.IH" [OF r [symmetric] refl Some refl refl refl refl, of rc out s'] True p
      have "\<exists>k\<le>left - length p. k \<le> length (stream ?s0) \<and> out = (acc @ p) @ take k (stream ?s0) \<and>
        stream s' = drop k (stream ?s0) \<and> sock_ok s' \<and>
        (out \<noteq> [] \<longrightarrow> rc = int (length out)) \<and> (out = [] \<longrightarrow> rc \<le> 0) \<and>
        (left - length p \<le> length (arrived ?s0) \<longrightarrow>
          k = left - length p \<and> arrived s' = drop (left - length p) (arrived ?s0))"
        by simp
      then obtain k where
        "k \<le> left - length p" "k \<le> length (stream ?s0)" "out = (acc @ p) @ take k (stream ?s0)"
        "stream s' = drop k (stream ?s0)" "sock_ok s'"
        "(out \<noteq> [] \<longrightarrow> rc = int (length out)) \<and> (out = [] \<longrightarrow> rc \<le> 0)"
        "left - length p \<le> length (arrived ?s0) \<longrightarrow>
          k = left - length p \<and> arrived s' = drop (left - length p) (arrived ?s0)"
        by blast
      with True p "1.prems"(2) show ?thesis
        by (intro exI [of _ "length p + k"]) auto
    next
      case False
      let ?l = "if left < length p then Some (drop left p) else None"
      have "out = acc @ take left p \<and> rc = int (length out) \<and>
        s' = s1\<lparr>lastdata := ?l\<rparr>\<lparr>recved := recved s1 + length out\<rparr>"
        using False "1.prems"(3) r Some
        by (auto simp: recv_tcp_loop.simps [of s d f acc left] recv_done_def split: if_splits)
      with False p "1.prems"(2) sock_split [of left p s1] show ?thesis
        by (intro exI [of _ left]) auto
    qed
  qed
qed

lemma recv_fetch_recved: "recv_fetch s d f = (e, b, s') \<Longrightarrow> recved s' = recved s"
  by (auto simp: fetch_defs split: option.splits if_splits list.splits mbox_item.splits prod.splits)

lemma recv_tcp_loop_recved:
  "recv_tcp_loop s d f acc left = (rc, out, s') \<Longrightarrow> recved s' = recved s + length out"
proof (induction s d f acc left arbitrary: rc out s' rule: recv_tcp_loop.induct)
  case (1 s d f acc left)
  obtain e b s1 where r: "recv_fetch s d f = (e, b, s1)" by (metis prod_cases3)
  note rv = recv_fetch_recved [OF r]
  show ?case
  proof (cases b)
    case None
    with "1.prems" r rv show ?thesis
      by (auto simp: recv_tcp_loop.simps [of s d f acc left] recv_done_def split: if_splits)
  next
    case (Some p)
    show ?thesis
    proof (cases "length p < left")
      case True
      then have "recv_tcp_loop (s1\<lparr>lastdata := None\<rparr>) True True (acc @ p) (left - length p) = (rc, out, s')"
        using "1.prems" r Some by (simp add: recv_tcp_loop.simps [of s d f acc left])
      with "1.IH" [OF r [symmetric] refl Some refl refl refl refl, of rc out s'] True rv
      show ?thesis by simp
    next
      case False
      with "1.prems" r Some rv show ?thesis
        by (auto simp: recv_tcp_loop.simps [of s d f acc left] recv_done_def)
    qed
  qed
qed

lemma recv_stream:
  assumes "sock_ok s" "0 < len" "lwip_recv_tcp s len dw = (rc, out, s')"
  shows "length out \<le> len \<and> out = take (length out) (stream s) \<and> stream s' = drop (length out) (stream s) \<and>
    sock_ok s' \<and> (out \<noteq> [] \<longrightarrow> rc = int (length out)) \<and> (out = [] \<longrightarrow> rc \<le> 0) \<and>
    (\<not> dw \<and> stream s \<noteq> [] \<longrightarrow> out \<noteq> []) \<and>
    (len \<le> length (arrived s) \<longrightarrow> length out = len \<and> arrived s' = drop len (arrived s))"
  using recv_tcp_loop_stream [OF assms(1,2) assms(3) [unfolded lwip_recv_tcp_def]] by auto

lemma arrived_stream: "\<exists>z. stream s = arrived s @ z"
proof -
  have "\<exists>z. mbox_stream ms = mbox_arrived ms @ z" for ms
    by (induction ms rule: mbox_arrived.induct) auto
  then show ?thesis by (auto simp: stream_def arrived_def)
qed

text \<open>
  C29: A blocking receive on a healthy TCP socket delivers the next bytes of the stream in
  order and loses none, never more than asked for, at least one unless the stream has ended,
  and everything asked for when that much has already arrived; it opens the receive window by
  exactly the number of bytes it delivers.
\<close>

theorem lwip_recv_in_order:
  assumes "sock_ok s" and "0 < len" and "lwip_recv_tcp s len False = (rc, out, s')"
  shows "out @ stream s' = stream s \<and> length out \<le> len \<and>
    (stream s \<noteq> [] \<longrightarrow> 0 < rc \<and> rc = int (length out)) \<and>
    (len \<le> length (arrived s) \<longrightarrow> rc = int len) \<and>
    sock_ok s' \<and> recved s' = recved s + length out"
  using recv_stream [OF assms] recv_tcp_loop_recved [OF assms(3) [unfolded lwip_recv_tcp_def]] assms(2)
  by (metis append_take_drop_id length_greater_0_conv list.size(3) not_less0 of_nat_0_less_iff)

definition sock_example :: lwip_sock where
  "sock_example = \<lparr>lastdata = Some [1, 2], recvmbox = [Msg_pbuf [3, 4, 5], Not_yet, Msg_pbuf [6]],
     mbox_valid = True, mbox_closed = False, fin_rx_pending = False, pending_err = 0,
     pcb_null = False, recved = 0\<rparr>"

theorem lwip_recv_in_order_witness:
  "\<exists>s'. lwip_recv_tcp sock_example 4 False = (4, [1, 2, 3, 4], s') \<and> stream s' = [5, 6] \<and> recved s' = 4"
proof -
  let ?r = "lwip_recv_tcp sock_example 4 False"
  have ok: "sock_ok sock_example" by (simp add: sock_ok_def sock_example_def)
  have r: "fst ?r = 4 \<and> fst (snd ?r) = [1, 2, 3, 4]" by code_simp
  then have "?r = (4, [1, 2, 3, 4], snd (snd ?r))" by (metis prod.collapse)
  from lwip_recv_in_order [OF ok _ this]
  have "[1, 2, 3, 4] @ stream (snd (snd ?r)) = [1, 2, 3, 4] @ [5, 6]" "recved (snd (snd ?r)) = 4"
    by (simp_all add: sock_defs sock_example_def)
  with \<open>?r = _\<close> show ?thesis by (metis same_append_eq)
qed

end
