(* ===== verification/MQTT_Nonblocking.thy ===== *)
theory MQTT_Nonblocking
  imports MQTT_Packet
begin

unbundle bit_operations_syntax

text \<open>
  The non-blocking reader of \<open>MQTT/MQTTPacket.c\<close>: \<open>MQTTPacket_decodenb\<close> and
  \<open>MQTTPacket_readnb\<close>, a state machine whose state (\<open>MQTTTransport\<close>) survives between
  calls. The switch of the code falls through from each state into the next, which is a
  call of the next case here; \<open>goto exit\<close> resets the state to 0.
\<close>

record 's transport =
  sck :: 's
  multiplier :: int
  rem_len :: int
  tlen :: int
  tstate :: int

text \<open>The result code of the source is -1 for an error, 0 for \<open>call again\<close>, or a count.\<close>

function decodenb_loop :: "'s getfn \<Rightarrow> u8 \<Rightarrow> 's transport \<Rightarrow> (int \<times> 's transport) option" where
  "decodenb_loop getfn c trp =
     (if tlen trp \<ge> int MAX_NO_OF_REMAINING_LENGTH_BYTES then Some (MQTTPACKET_READ_ERROR, trp)
      else do {
        (frc, bs, s) \<leftarrow> getfn (sck trp) 1;
        let trp = trp\<lparr>sck := s\<rparr>;
        if frc = -1 then Some (MQTTPACKET_READ_ERROR, trp)
        else if frc = 0 then Some (0, trp)
        else
          let c = (case bs of [] \<Rightarrow> c | x # _ \<Rightarrow> x);
              trp = trp\<lparr>tlen := tlen trp + 1\<rparr>;
              trp = trp\<lparr>rem_len := rem_len trp + uint (c AND 127) * multiplier trp\<rparr>;
              trp = trp\<lparr>multiplier := multiplier trp * 128\<rparr>
          in if c AND 128 \<noteq> 0 then decodenb_loop getfn c trp else Some (tlen trp, trp) })"
  by pat_completeness auto

termination decodenb_loop
  by (relation "measure (\<lambda>(getfn, c, trp). nat (4 - tlen trp))") (auto simp: Let_def)

declare decodenb_loop.simps [simp del]

definition MQTTPacket_decodenb :: "'s getfn \<Rightarrow> 's transport \<Rightarrow> (int \<times> 's transport) option" where
  "MQTTPacket_decodenb getfn trp =
     (let trp = (if tlen trp = 0 then trp\<lparr>multiplier := 1, rem_len := 0\<rparr> else trp)
      in decodenb_loop getfn 0 trp)"

definition readnb_exit :: "int \<Rightarrow> bytes \<Rightarrow> 's transport \<Rightarrow> (int \<times> bytes \<times> 's transport) option" where
  "readnb_exit rc buf trp = Some (rc, buf, trp\<lparr>tstate := 0\<rparr>)"

definition readnb_done :: "bytes \<Rightarrow> 's transport \<Rightarrow> (int \<times> bytes \<times> 's transport) option" where
  "readnb_done buf trp = do { h \<leftarrow> rd buf 0; readnb_exit (uint (hdr_type h)) buf trp }"

definition readnb_case2 ::
    "'s getfn \<Rightarrow> bytes \<Rightarrow> 's transport \<Rightarrow> (int \<times> bytes \<times> 's transport) option" where
  "readnb_case2 getfn buf trp =
     (if rem_len trp \<noteq> 0 then do {
        (frc, bs, s) \<leftarrow> getfn (sck trp) (nat (rem_len trp));
        let trp = trp\<lparr>sck := s\<rparr>;
        buf \<leftarrow> wr_bytes buf (nat (tlen trp)) bs;
        if frc = -1 then readnb_exit (-1) buf trp
        else if frc = 0 then Some (0, buf, trp)
        else
          let trp = trp\<lparr>rem_len := rem_len trp - frc, tlen := tlen trp + frc\<rparr>
          in if rem_len trp \<noteq> 0 then Some (0, buf, trp) else readnb_done buf trp }
      else readnb_done buf trp)"

definition readnb_case1 ::
    "'s getfn \<Rightarrow> bytes \<Rightarrow> int \<Rightarrow> 's transport \<Rightarrow> (int \<times> bytes \<times> 's transport) option" where
  "readnb_case1 getfn buf buflen trp = do {
     (frc, trp) \<leftarrow> MQTTPacket_decodenb getfn trp;
     if frc = MQTTPACKET_READ_ERROR then readnb_exit (-1) buf trp
     else if frc = 0 then Some (0, buf, trp)
     else do {
       (buf, n) \<leftarrow> MQTTPacket_encode buf 1 (rem_len trp);
       let trp = trp\<lparr>tlen := 1 + int n\<rparr>;
       if rem_len trp + tlen trp > buflen then readnb_exit (-1) buf trp
       else readnb_case2 getfn buf (trp\<lparr>tstate := tstate trp + 1\<rparr>) } }"

definition readnb_case0 ::
    "'s getfn \<Rightarrow> bytes \<Rightarrow> int \<Rightarrow> 's transport \<Rightarrow> (int \<times> bytes \<times> 's transport) option" where
  "readnb_case0 getfn buf buflen trp = do {
     (frc, bs, s) \<leftarrow> getfn (sck trp) 1;
     let trp = trp\<lparr>sck := s\<rparr>;
     buf \<leftarrow> wr_bytes buf 0 bs;
     if frc = -1 then readnb_exit (-1) buf trp
     else if frc = 0 then Some (0, buf, trp)
     else readnb_case1 getfn buf buflen (trp\<lparr>tlen := 0, tstate := tstate trp + 1\<rparr>) }"

definition MQTTPacket_readnb ::
    "'s getfn \<Rightarrow> bytes \<Rightarrow> int \<Rightarrow> 's transport \<Rightarrow> (int \<times> bytes \<times> 's transport) option" where
  "MQTTPacket_readnb getfn buf buflen trp =
     (if tstate trp = 1 then readnb_case1 getfn buf buflen trp
      else if tstate trp = 2 then readnb_case2 getfn buf trp
      else readnb_case0 getfn buf buflen (trp\<lparr>tstate := 0\<rparr>))"

section \<open>Sources that may have to wait\<close>

text \<open>
  A waiting source delivers some of the bytes it is asked for, possibly none, in order, and
  reports no error while there are bytes to come: \<open>pending\<close> is everything that will come.
\<close>

locale waiting_source =
  fixes getfn :: "'s getfn" and pending :: "'s \<Rightarrow> bytes"
  assumes get_some: "pending s \<noteq> [] \<Longrightarrow> 0 < n \<Longrightarrow> \<exists>k s'. getfn s n = Some (int k, take k (pending s), s') \<and>
    k \<le> n \<and> k \<le> length (pending s) \<and> pending s' = drop k (pending s)"
begin

lemma get_one_cases:
  assumes "pending s \<noteq> []"
  obtains s' where "getfn s 1 = Some (0, [], s')" "pending s' = pending s"
  | c r s' where "getfn s 1 = Some (1, [c], s')" "pending s = c # r" "pending s' = r"
proof -
  obtain k s' where k: "getfn s 1 = Some (int k, take k (pending s), s')" "k \<le> 1"
    "k \<le> length (pending s)" "pending s' = drop k (pending s)"
    using get_some [of s 1] assms by auto
  show thesis
  proof (cases "k = 0")
    case True
    with k have "getfn s 1 = Some (0, [], s')" "pending s' = pending s" by auto
    then show thesis by (rule that(1))
  next
    case False
    with k have "k = 1" by simp
    with k show thesis by (cases "pending s") (auto intro: that(2))
  qed
qed

end

text \<open>
  The progress of a read of the packet \<open>packet h body\<close> with \<open>r\<close> behind it in the stream:
  what each state of the machine has consumed, stored and counted. After \<open>k\<close>
  digits of the remaining length \<open>n\<close>, the value is \<open>n mod 128 ^ k\<close> and \<open>n div 128 ^ k\<close> is to come.
\<close>

definition reading :: "('s \<Rightarrow> bytes) \<Rightarrow> u8 \<Rightarrow> bytes \<Rightarrow> bytes \<Rightarrow> bytes \<Rightarrow> 's transport \<Rightarrow> bool" where
  "reading pending h body r buf trp \<longleftrightarrow>
     length (packet h body) \<le> length buf \<and> length body < 2 ^ 28 \<and>
     ((tstate trp = 0 \<and> pending (sck trp) = packet h body @ r) \<or>
      (tstate trp = 1 \<and> buf ! 0 = h \<and>
        (\<exists>k < length (vbi (length body)). tlen trp = int k \<and>
          pending (sck trp) = vbi (length body div 128 ^ k) @ body @ r \<and>
          (0 < k \<longrightarrow> multiplier trp = 128 ^ k \<and> rem_len trp = int (length body mod 128 ^ k)))) \<or>
      (tstate trp = 2 \<and>
        (\<exists>k < length body. tlen trp = int (length (packet h body) - length body + k) \<and>
          rem_len trp = int (length body - k) \<and>
          pending (sck trp) = drop k body @ r \<and>
          take (length (packet h body) - length body + k) buf
            = take (length (packet h body) - length body + k) (packet h body))))"

definition read_done :: "('s \<Rightarrow> bytes) \<Rightarrow> u8 \<Rightarrow> bytes \<Rightarrow> bytes \<Rightarrow> bytes \<Rightarrow> 's transport \<Rightarrow> bool" where
  "read_done pending h body r buf trp \<longleftrightarrow>
     tstate trp = 0 \<and> pending (sck trp) = r \<and> take (length (packet h body)) buf = packet h body"

section \<open>One call makes progress or waits\<close>

lemma length_vbi_div:
  "k < length (vbi n) \<Longrightarrow> length (vbi (n div 128 ^ k)) + k = length (vbi n)"
proof (induction k arbitrary: n)
  case 0
  then show ?case by simp
next
  case (Suc k)
  then have "128 \<le> n" by (cases "n < 128") (auto simp: vbi_small)
  with Suc.prems have "k < length (vbi (n div 128))" by (simp add: vbi_large)
  from Suc.IH [OF this] \<open>128 \<le> n\<close> show ?case
    by (simp add: vbi_large div_mult2_eq)
qed

lemma digits_step: "(n::nat) mod 128 ^ k + (n div 128 ^ k mod 128) * 128 ^ k = n mod 128 ^ Suc k"
  using mod_mult2_eq [of n "128 ^ k" 128] by (simp add: algebra_simps)

lemma digits_last: "n div 128 ^ k < 128 \<Longrightarrow> (n::nat) mod 128 ^ Suc k = n"
  by (simp add: div_less_iff_less_mult mult.commute)

context waiting_source
begin

lemma decodenb_loop_progress:
  assumes "tlen trp = int k" "k < length (vbi n)" "n < 2 ^ 28"
    and "pending (sck trp) = vbi (n div 128 ^ k) @ r"
    and "multiplier trp = 128 ^ k" "rem_len trp = int (n mod 128 ^ k)"
  shows "\<exists>rc trp'. decodenb_loop getfn c trp = Some (rc, trp') \<and> tstate trp' = tstate trp \<and>
    ((rc = 0 \<and> (\<exists>k' < length (vbi n). tlen trp' = int k' \<and>
        pending (sck trp') = vbi (n div 128 ^ k') @ r \<and>
        multiplier trp' = 128 ^ k' \<and> rem_len trp' = int (n mod 128 ^ k'))) \<or>
     (rc = int (length (vbi n)) \<and> rem_len trp' = int n \<and> pending (sck trp') = r))"
  using assms
proof (induction "length (vbi n) - k" arbitrary: k trp c)
  case 0
  then show ?case by simp
next
  case (Suc m)
  have l4: "length (vbi n) \<le> 4"
    using Suc.prems(3) length_vbi_le [of n 4] by simp
  with Suc.prems have g: "\<not> tlen trp \<ge> int 4" by simp
  have ne: "pending (sck trp) \<noteq> []"
    using Suc.prems(4) length_vbi_pos [of "n div 128 ^ k"] by auto
  show ?case
  proof (cases rule: get_one_cases [OF ne])
    case (1 s')
    with g have "decodenb_loop getfn c trp = Some (0, trp\<lparr>sck := s'\<rparr>)"
      by (simp add: decodenb_loop.simps [of getfn c trp])
    then show ?thesis using Suc.prems 1 by auto
  next
    case (2 d rest s')
    let ?q = "n div 128 ^ k"
    let ?trp = "trp\<lparr>sck := s', tlen := int (Suc k), rem_len := int (n mod 128 ^ Suc k),
      multiplier := 128 ^ Suc k\<rparr>"
    have len: "length (vbi ?q) + k = length (vbi n)"
      using length_vbi_div Suc.prems(2) by blast
    have val: "int (n mod 128 ^ k) + int (?q mod 128) * 128 ^ k = int (n mod 128 ^ Suc k)"
      by (metis digits_step of_nat_add of_nat_mult of_nat_numeral of_nat_power)
    show ?thesis
    proof (cases "?q < 128")
      case True
      with 2 Suc.prems(4) have d: "d = of_nat ?q" "rest = r" by (auto simp: vbi_small)
      have "uint d = int ?q" using True by (simp add: d uint_of_nat_u8)
      then have "d AND 128 = 0" "uint (d AND 127) = int (?q mod 128)"
        unfolding c_and_127 c_and_128 using True by simp_all
      then have "decodenb_loop getfn c trp = Some (int (Suc k), ?trp)"
        using g 2 Suc.prems val by (simp add: decodenb_loop.simps [of getfn c trp] Let_def)
      moreover have L: "Suc k = length (vbi n)"
        using len True by (simp add: vbi_small)
      moreover have "n mod 128 ^ length (vbi n) = n"
        using digits_last [OF True] unfolding L .
      ultimately show ?thesis using d 2 by simp
    next
      case False
      with 2 Suc.prems(4) have d: "d = of_nat (?q mod 128 + 128)" "rest = vbi (?q div 128) @ r"
        by (auto simp: vbi_large)
      have "uint d = int (?q mod 128) + 128"
        unfolding d by (subst uint_of_nat_u8) simp_all
      then have "d AND 128 \<noteq> 0" "uint (d AND 127) = int (?q mod 128)"
        unfolding c_and_127 c_and_128 by simp_all
      then have eq: "decodenb_loop getfn c trp = decodenb_loop getfn d ?trp"
        using g 2 Suc.prems val
        by (simp add: decodenb_loop.simps [of getfn c trp] Let_def ac_simps)
      have "Suc k < length (vbi n)"
      proof -
        have "Suc (length (vbi (?q div 128))) + k = length (vbi n)"
          using len False by (simp add: vbi_large)
        with length_vbi_pos [of "?q div 128"] show ?thesis by linarith
      qed
      moreover have "vbi (?q div 128) = vbi (n div 128 ^ Suc k)"
        by (simp only: power_Suc2 div_mult2_eq)
      ultimately show ?thesis
        unfolding eq using Suc.hyps(1) [of "Suc k" ?trp d] Suc.hyps(2) Suc.prems(3) 2 d
        by simp
    qed
  qed
qed

abbreviation step_ok ::
    "u8 \<Rightarrow> bytes \<Rightarrow> bytes \<Rightarrow> bytes \<Rightarrow> (int \<times> bytes \<times> 's transport) option \<Rightarrow> bool" where
  "step_ok h body r buf res \<equiv> \<exists>rc buf' trp'. res = Some (rc, buf', trp') \<and>
    length buf' = length buf \<and>
    ((rc = 0 \<and> reading pending h body r buf' trp') \<or>
     (rc = uint (hdr_type h) \<and> read_done pending h body r buf' trp'))"

lemma done_ok:
  assumes "take (length (packet h body)) buf = packet h body" "pending (sck trp) = r"
  shows "step_ok h body r buf (readnb_done buf trp)"
proof -
  have "0 < length buf \<and> buf ! 0 = h"
    using assms(1) by (cases buf) (auto simp: packet_def)
  with assms show ?thesis
    by (simp add: readnb_done_def readnb_exit_def rd_def read_done_def)
qed

lemma take_packet_body:
  assumes "k + j \<le> length body"
  shows "take (length (packet h body) - length body + (k + j)) (packet h body) =
    take (length (packet h body) - length body + k) (packet h body) @ take j (drop k body)"
  by (simp add: take_add packet_def)

lemma case2_progress:
  assumes fits: "length (packet h body) \<le> length buf" and n28: "length body < 2 ^ 28"
    and k: "k \<le> length body" and st: "tstate trp = 2"
    and tl: "tlen trp = int (length (packet h body) - length body + k)"
    and rl: "rem_len trp = int (length body - k)"
    and pend: "pending (sck trp) = drop k body @ r"
    and stored: "take (length (packet h body) - length body + k) buf
      = take (length (packet h body) - length body + k) (packet h body)"
  shows "step_ok h body r buf (readnb_case2 getfn buf trp)"
proof (cases "k = length body")
  case True
  with stored pend rl show ?thesis
    by (simp add: readnb_case2_def done_ok)
next
  case False
  let ?P = "length (packet h body) - length body"
  have "0 < length body - k" using False k by simp
  moreover have "pending (sck trp) \<noteq> []" using False k pend by simp
  ultimately obtain j s' where
    g: "getfn (sck trp) (length body - k) = Some (int j, take j (drop k body), s')"
    and j: "j \<le> length body - k" and p': "pending s' = drop (k + j) body @ r"
    using get_some [of "sck trp" "length body - k"] unfolding pend by (auto simp: add.commute)
  define buf' where "buf' = take (?P + k) buf @ take j (drop k body) @ drop (?P + k + j) buf"
  have w: "wr_bytes buf (?P + k) (take j (drop k body)) = Some buf'"
    using fits j k by (simp add: wr_bytes_def buf'_def min_def)
  have len': "length buf' = length buf" using w by (rule length_wr_bytes)
  have stored': "take (?P + (k + j)) buf' = take (?P + (k + j)) (packet h body)"
  proof -
    have "take (?P + (k + j)) buf' = take (?P + k) buf @ take j (drop k body)"
      using fits j k by (simp add: buf'_def)
    also have "\<dots> = take (?P + (k + j)) (packet h body)"
      using take_packet_body [of k j body h] j k stored by simp
    finally show ?thesis .
  qed
  let ?t = "trp\<lparr>sck := s', rem_len := int (length body - (k + j)), tlen := int (?P + (k + j))\<rparr>"
  have f: "nat (rem_len trp) = length body - k" "rem_len trp \<noteq> 0" "nat (tlen trp) = ?P + k"
    "rem_len trp - int j = int (length body - (k + j))" "tlen trp + int j = int (?P + (k + j))"
    using rl tl j k False by (auto simp: of_nat_diff)
  have eq: "readnb_case2 getfn buf trp =
      (if j = 0 then Some (0, buf', trp\<lparr>sck := s'\<rparr>)
       else if length body - (k + j) \<noteq> 0 then Some (0, buf', ?t) else readnb_done buf' ?t)"
    using g w f by (simp add: readnb_case2_def Let_def del: length_packet of_nat_diff of_nat_add)
  show ?thesis
  proof (cases "k + j = length body \<and> 0 < j")
    case True
    then have "step_ok h body r buf' (readnb_done buf' ?t)"
      using stored' p' by (intro done_ok) (simp_all add: packet_def)
    with True eq len' show ?thesis by auto
  next
    case stay: False
    have "reading pending h body r buf' (if j = 0 then trp\<lparr>sck := s'\<rparr> else ?t)"
      unfolding reading_def using fits n28 len' st stored' p' j k tl rl False stay
      by (intro conjI disjI2 exI [of _ "k + j"]) auto
    with eq len' stay j k show ?thesis by auto
  qed
qed

lemma case1_progress:
  assumes fits: "length (packet h body) \<le> length buf" and n28: "length body < 2 ^ 28"
    and st: "tstate trp = 1" and h: "buf ! 0 = h"
    and k: "k < length (vbi (length body))" "tlen trp = int k"
    and pend: "pending (sck trp) = vbi (length body div 128 ^ k) @ body @ r"
    and mr: "0 < k \<longrightarrow> multiplier trp = 128 ^ k \<and> rem_len trp = int (length body mod 128 ^ k)"
  shows "step_ok h body r buf (readnb_case1 getfn buf (int (length buf)) trp)"
proof -
  let ?n = "length body"
  define t0 where "t0 = (if tlen trp = 0 then trp\<lparr>multiplier := 1, rem_len := 0\<rparr> else trp)"
  have f: "tlen t0 = int k" "pending (sck t0) = vbi (?n div 128 ^ k) @ body @ r"
    "multiplier t0 = 128 ^ k" "rem_len t0 = int (?n mod 128 ^ k)" "tstate t0 = 1"
    using k(2) pend mr st by (cases "k = 0"; simp add: t0_def)+
  have md: "MQTTPacket_decodenb getfn trp = decodenb_loop getfn 0 t0"
    by (simp add: MQTTPacket_decodenb_def t0_def)
  obtain rc t where d: "MQTTPacket_decodenb getfn trp = Some (rc, t)" and ts: "tstate t = 1"
    and alt: "(rc = 0 \<and> (\<exists>k' < length (vbi ?n). tlen t = int k' \<and>
        pending (sck t) = vbi (?n div 128 ^ k') @ body @ r \<and>
        multiplier t = 128 ^ k' \<and> rem_len t = int (?n mod 128 ^ k'))) \<or>
     (rc = int (length (vbi ?n)) \<and> rem_len t = int ?n \<and> pending (sck t) = body @ r)"
    unfolding md
    using decodenb_loop_progress [OF f(1) k(1) n28 f(2-4), of 0, unfolded f(5)] by blast
  from alt show ?thesis
  proof
    assume "rc = 0 \<and> (\<exists>k' < length (vbi ?n). tlen t = int k' \<and>
        pending (sck t) = vbi (?n div 128 ^ k') @ body @ r \<and>
        multiplier t = 128 ^ k' \<and> rem_len t = int (?n mod 128 ^ k'))"
    with d ts fits n28 h show ?thesis
      by (auto simp: readnb_case1_def reading_def)
  next
    assume t: "rc = int (length (vbi ?n)) \<and> rem_len t = int ?n \<and> pending (sck t) = body @ r"
    define b1 where "b1 = take 1 buf @ vbi ?n @ drop (1 + length (vbi ?n)) buf"
    have "MQTTPacket_encode buf 1 (int ?n) = Some (b1, length (vbi ?n))"
      using fits by (simp add: MQTTPacket_encode_emit wr_bytes_def b1_def)
    moreover have "0 < length buf" using fits by auto
    ultimately have eq: "readnb_case1 getfn buf (int (length buf)) trp =
        readnb_case2 getfn b1 (t\<lparr>tlen := 1 + int (length (vbi ?n)), tstate := 2\<rparr>)"
      using d t ts fits length_vbi_pos [of ?n]
      by (auto simp: readnb_case1_def Let_def)
    have len: "length b1 = length buf" using fits by (simp add: b1_def)
    have "take 1 buf = [h]" using h \<open>0 < length buf\<close> by (cases buf) auto
    then have "step_ok h body r b1 (readnb_case2 getfn b1 (t\<lparr>tlen := 1 + int (length (vbi ?n)), tstate := 2\<rparr>))"
      using fits n28 t len
      by (intro case2_progress [where k = 0]) (simp_all add: b1_def packet_def)
    then show ?thesis unfolding eq len .
  qed
qed

lemma readnb_progress:
  assumes "reading pending h body r buf trp"
  shows "step_ok h body r buf (MQTTPacket_readnb getfn buf (int (length buf)) trp)"
proof -
  have fits: "length (packet h body) \<le> length buf" and n28: "length body < 2 ^ 28"
    using assms by (auto simp: reading_def)
  consider (s0) "tstate trp = 0" "pending (sck trp) = packet h body @ r"
    | (s1) k where "tstate trp = 1" "buf ! 0 = h" "k < length (vbi (length body))" "tlen trp = int k"
        "pending (sck trp) = vbi (length body div 128 ^ k) @ body @ r"
        "0 < k \<longrightarrow> multiplier trp = 128 ^ k \<and> rem_len trp = int (length body mod 128 ^ k)"
    | (s2) k where "tstate trp = 2" "k < length body"
        "tlen trp = int (length (packet h body) - length body + k)"
        "rem_len trp = int (length body - k)" "pending (sck trp) = drop k body @ r"
        "take (length (packet h body) - length body + k) buf
          = take (length (packet h body) - length body + k) (packet h body)"
    using assms by (auto simp: reading_def)
  then show ?thesis
  proof cases
    case s0
    show ?thesis
    proof (cases rule: get_one_cases [of "sck trp", case_names ne 1 2])
      case ne
      then show ?case using s0 by (simp add: packet_def)
    next
      case (1 s')
      with s0 have "MQTTPacket_readnb getfn buf (int (length buf)) trp =
          Some (0, buf, trp\<lparr>tstate := 0, sck := s'\<rparr>)"
        by (simp add: MQTTPacket_readnb_def readnb_case0_def)
      moreover have "reading pending h body r buf (trp\<lparr>tstate := 0, sck := s'\<rparr>)"
        using s0 1 fits n28 by (simp add: reading_def)
      ultimately show ?thesis by simp
    next
      case (2 c rest s')
      have b: "wr_bytes buf 0 [c] = Some (c # drop 1 buf)"
        using fits by (intro wr_bytes_single) auto
      from 2 s0 have c: "c = h" "rest = vbi (length body) @ body @ r" by (auto simp: packet_def)
      have "length (c # drop 1 buf) = length buf" using fits by simp
      moreover from 2 s0 b have "MQTTPacket_readnb getfn buf (int (length buf)) trp =
          readnb_case1 getfn (c # drop 1 buf) (int (length buf)) (trp\<lparr>sck := s', tlen := 0, tstate := 1\<rparr>)"
        by (simp add: MQTTPacket_readnb_def readnb_case0_def)
      moreover have "step_ok h body r (c # drop 1 buf) (readnb_case1 getfn (c # drop 1 buf)
          (int (length (c # drop 1 buf))) (trp\<lparr>sck := s', tlen := 0, tstate := 1\<rparr>))"
        using fits n28 2 c length_vbi_pos [of "length body"]
        by (intro case1_progress [where k = 0]) auto
      ultimately show ?thesis by simp
    qed
  next
    case s1
    then show ?thesis
      using case1_progress [OF fits n28 s1(1,2,3,4,5,6)] by (simp add: MQTTPacket_readnb_def)
  next
    case s2
    then show ?thesis
      using case2_progress [OF fits n28 _ s2(1,3,4,5,6)] by (simp add: MQTTPacket_readnb_def)
  qed
qed

end

end
