(* ===== verification/MQTT_Transport.thy ===== *)
theory MQTT_Transport
  imports LwIP_Recv MQTT_Nonblocking
begin

text \<open>
  The transport of the MQTT client, \<open>MQTT/transport.c\<close>: one TCP socket (\<open>mysock\<close>) behind
  four functions. Receiving goes through the model of \<open>lwip_recv_tcp\<close>. What the rest of the
  stack answers is a script in the state, over which every statement quantifies: the results
  of the next writes and of the next attempts to open a connection. \<open>sent\<close> lists the blocks
  that were handed to a successful write on the current connection.
\<close>

section \<open>State and operations\<close>

record net =
  tcp :: lwip_sock
  sent :: "bytes list"
  write_res :: "int list"
  open_res :: "lwip_sock option list"

text \<open>
  \<open>write\<close> of a negative length asks for more bytes than any object has. A blocking write
  takes everything or fails; when the script is over it succeeds.
\<close>

definition transport_sendPacketBuffer :: "'a net_scheme \<Rightarrow> bytes \<Rightarrow> int \<Rightarrow> (int \<times> 'a net_scheme) option" where
  "transport_sendPacketBuffer c buf buflen =
     (if buflen < 0 then None
      else do {
        data \<leftarrow> rd_bytes buf 0 (nat buflen);
        Some (case write_res c of
            r # rs \<Rightarrow> if r < 0 then (r, c\<lparr>write_res := rs\<rparr>)
                      else (buflen, c\<lparr>write_res := rs, sent := sent c @ [data]\<rparr>)
          | [] \<Rightarrow> (buflen, c\<lparr>sent := sent c @ [data]\<rparr>)) })"

definition transport_getdata :: "'a net_scheme getfn" where
  "transport_getdata c count =
     (case lwip_recv_tcp (tcp c) count False of (rc, out, s) \<Rightarrow> Some (rc, out, c\<lparr>tcp := s\<rparr>))"

text \<open>
  \<open>transport_open\<close> returns the socket, or -1 when connecting failed (the socket that was made
  is closed again). \<open>transport_close\<close> shuts the sending side down, waits for something to
  receive, and closes.
\<close>

definition closed_sock :: lwip_sock where
  "closed_sock = \<lparr>lastdata = None, recvmbox = [], mbox_valid = False, mbox_closed = True,
     fin_rx_pending = False, pending_err = 0, pcb_null = True, recved = 0\<rparr>"

definition transport_open :: "'a net_scheme \<Rightarrow> int \<times> 'a net_scheme" where
  "transport_open c = (case open_res c of
     Some s # rs \<Rightarrow> (0, c\<lparr>tcp := s, sent := [], open_res := rs\<rparr>)
   | None # rs \<Rightarrow> (-1, c\<lparr>tcp := closed_sock, open_res := rs\<rparr>)
   | [] \<Rightarrow> (-1, c\<lparr>tcp := closed_sock\<rparr>))"

definition transport_close :: "'a net_scheme \<Rightarrow> int \<times> 'a net_scheme" where
  "transport_close c = (case lwip_recv_tcp (tcp c) 0 False of (_, _, _) \<Rightarrow> (0, c\<lparr>tcp := closed_sock\<rparr>))"

section \<open>The transport as a source of bytes\<close>

text \<open>
  For the blocking reader a source is what has arrived, for the waiting reader what will
  arrive; a socket in an error state is no source.
\<close>

definition net_arrived :: "'a net_scheme \<Rightarrow> bytes" where
  "net_arrived c = (if sock_ok (tcp c) then arrived (tcp c) else [])"

definition net_stream :: "'a net_scheme \<Rightarrow> bytes" where
  "net_stream c = (if sock_ok (tcp c) then stream (tcp c) else [])"

lemma getdata_arrived:
  assumes "n \<le> length (net_arrived c)" "0 < n"
  shows "\<exists>c'. transport_getdata c n = Some (int n, take n (net_arrived c), c') \<and>
    net_arrived c' = drop n (net_arrived c)"
proof -
  have ok: "sock_ok (tcp c)" using assms by (auto simp: net_arrived_def split: if_splits)
  obtain rc out s' where r: "lwip_recv_tcp (tcp c) n False = (rc, out, s')" by (metis prod_cases3)
  obtain z where z: "stream (tcp c) = arrived (tcp c) @ z" using arrived_stream by blast
  note rs = recv_stream [OF ok assms(2) r]
  from rs assms ok have "length out = n" "out = take n (arrived (tcp c))" "rc = int n"
    "arrived s' = drop n (arrived (tcp c))" "sock_ok s'"
    by (auto simp: net_arrived_def z)
  with r ok show ?thesis by (simp add: transport_getdata_def net_arrived_def)
qed

interpretation lwip_block: block_source transport_getdata net_arrived
proof
  fix s :: "'a net_scheme" and c r
  assume "net_arrived s = c # r"
  with getdata_arrived [of 1 s]
  show "\<exists>s'. transport_getdata s 1 = Some (1, [c], s') \<and> net_arrived s' = r" by auto
next
  fix s :: "'a net_scheme" and n
  assume "n \<le> length (net_arrived s)" "0 < n"
  then show "\<exists>s'. transport_getdata s n = Some (int n, take n (net_arrived s), s') \<and>
      net_arrived s' = drop n (net_arrived s)"
    by (rule getdata_arrived)
qed

interpretation lwip_wait: waiting_source transport_getdata net_stream
proof
  fix s :: "'a net_scheme" and n
  assume ne: "net_stream s \<noteq> []" and n: "0 < (n::nat)"
  then have ok: "sock_ok (tcp s)" by (auto simp: net_stream_def split: if_splits)
  obtain rc out s' where r: "lwip_recv_tcp (tcp s) n False = (rc, out, s')" by (metis prod_cases3)
  note rs = recv_stream [OF ok n r]
  with ne ok have "out \<noteq> []" by (simp add: net_stream_def)
  moreover from rs have "length out \<le> length (stream (tcp s))" by (metis length_take min.cobounded1)
  ultimately show "\<exists>k s'. transport_getdata s n = Some (int k, take k (net_stream s), s') \<and>
      k \<le> n \<and> k \<le> length (net_stream s) \<and> net_stream s' = drop k (net_stream s)"
    using rs ok r by (intro exI [of _ "length out"] exI [of _ "s\<lparr>tcp := s'\<rparr>"])
       (auto simp: transport_getdata_def net_stream_def)
qed

text \<open>
  C30: Reading a packet over TCP: when a complete packet that fits the buffer has arrived on a
  healthy socket, \<open>MQTTPacket_read\<close> over the transport returns its packet type, puts exactly the
  packet at the front of the buffer, leaves the rest of the buffer as it was, and consumes
  exactly the packet, in however many TCP segments it came.
\<close>

theorem packet_read_over_tcp:
  assumes "net_arrived c = packet h body @ r" and "length body < 2 ^ 28"
    and "length (packet h body) \<le> length buf"
  shows "\<exists>c'. MQTTPacket_read transport_getdata c buf (int (length buf)) =
      Some (uint (hdr_type h), packet h body @ drop (length (packet h body)) buf, c') \<and>
    net_arrived c' = r"
  using lwip_block.read_packet [OF assms] .

definition net_example :: net where
  "net_example = \<lparr>tcp = \<lparr>lastdata = None, recvmbox = [Msg_pbuf [0x30, 3], Msg_pbuf [0, 1, 0x74, 0xD0], Not_yet],
     mbox_valid = True, mbox_closed = False, fin_rx_pending = False, pending_err = 0,
     pcb_null = False, recved = 0\<rparr>, sent = [], write_res = [], open_res = []\<rparr>"

lemma net_example_arrived: "net_arrived net_example = packet 0x30 [0, 1, 0x74] @ [0xD0]"
  by (simp add: net_arrived_def net_example_def sock_defs packet_def vbi_small)

lemma net_example_stream: "net_stream net_example = packet 0x30 [0, 1, 0x74] @ [0xD0]"
  by (simp add: net_stream_def net_example_def sock_defs packet_def vbi_small)

theorem packet_read_over_tcp_witness:
  "\<exists>c'. MQTTPacket_read transport_getdata net_example [9, 9, 9, 9, 9, 9] 6 =
      Some (3, [0x30, 3, 0, 1, 0x74, 9], c') \<and> net_arrived c' = [0xD0]"
proof -
  have "uint (hdr_type 0x30) = 3" by code_simp
  with packet_read_over_tcp [OF net_example_arrived, of "[9, 9, 9, 9, 9, 9]"]
  show ?thesis by (simp add: packet_def vbi_small)
qed

section \<open>The non-blocking reader\<close>

text \<open>Calling the reader again as long as it returns 0, at most \<open>n\<close> times.\<close>

fun readnb_calls :: "'s getfn \<Rightarrow> nat \<Rightarrow> bytes \<Rightarrow> 's transport \<Rightarrow> (int \<times> bytes \<times> 's transport) option" where
  "readnb_calls getfn 0 buf trp = Some (0, buf, trp)"
| "readnb_calls getfn (Suc n) buf trp = do {
     (rc, buf, trp) \<leftarrow> MQTTPacket_readnb getfn buf (int (length buf)) trp;
     if rc = 0 then readnb_calls getfn n buf trp else Some (rc, buf, trp) }"

lemma readnb_calls_reading:
  assumes "reading net_stream h body r buf trp" and "hdr_type h \<noteq> 0"
  shows "\<exists>rc buf' trp'. readnb_calls transport_getdata n buf trp = Some (rc, buf', trp') \<and>
    length buf' = length buf \<and>
    ((rc = 0 \<and> reading net_stream h body r buf' trp') \<or>
     (rc = uint (hdr_type h) \<and> read_done net_stream h body r buf' trp'))"
  using assms(1)
proof (induction n arbitrary: buf trp)
  case 0
  then show ?case by simp
next
  case (Suc n)
  obtain rc buf' trp' where c: "MQTTPacket_readnb transport_getdata buf (int (length buf)) trp = Some (rc, buf', trp')"
    and l: "length buf' = length buf"
    and alt: "(rc = 0 \<and> reading net_stream h body r buf' trp') \<or>
      (rc = uint (hdr_type h) \<and> read_done net_stream h body r buf' trp')"
    using lwip_wait.readnb_progress [OF Suc.prems] by blast
  from alt show ?case
  proof
    assume "rc = 0 \<and> reading net_stream h body r buf' trp'"
    with Suc.IH [of buf' trp'] c l show ?thesis by auto
  next
    assume d: "rc = uint (hdr_type h) \<and> read_done net_stream h body r buf' trp'"
    moreover have "uint (hdr_type h) \<noteq> 0" using assms(2) by (simp add: uint_0_iff)
    ultimately show ?thesis using c l by auto
  qed
qed

text \<open>
  C32: The non-blocking reader resumes where it stopped: started on a TCP stream that begins
  with a packet that fits the buffer, and called again as long as it asks for it, it never
  leaves the buffer and never fails; after any number of calls it either still waits in a
  state that has consumed, stored and counted a prefix of the packet, or it has returned the
  packet type with the whole packet in the buffer and nothing of what follows consumed.
\<close>

theorem readnb_resumes:
  assumes "net_stream (sck trp) = packet h body @ r" and "tstate trp = 0" and "hdr_type h \<noteq> 0"
    and "length body < 2 ^ 28" and "length (packet h body) \<le> length buf"
  shows "\<exists>rc buf' trp'. readnb_calls transport_getdata n buf trp = Some (rc, buf', trp') \<and>
    length buf' = length buf \<and>
    (rc = 0 \<and> reading net_stream h body r buf' trp' \<or>
     rc = uint (hdr_type h) \<and> tstate trp' = 0 \<and> net_stream (sck trp') = r \<and>
     take (length (packet h body)) buf' = packet h body)"
  using readnb_calls_reading [of h body r buf trp n] assms by (simp add: reading_def read_done_def)

theorem readnb_resumes_witness:
  "\<exists>rc buf' trp'. readnb_calls transport_getdata 3 [9, 9, 9, 9, 9, 9]
      \<lparr>sck = net_example, multiplier = 0, rem_len = 0, tlen = 0, tstate = 0\<rparr> = Some (rc, buf', trp') \<and>
    length buf' = 6"
proof -
  have "hdr_type 0x30 \<noteq> 0" by code_simp
  with readnb_resumes [where trp = "\<lparr>sck = net_example, multiplier = 0, rem_len = 0, tlen = 0, tstate = 0\<rparr>"
      and h = "0x30" and body = "[0, 1, 0x74]" and r = "[0xD0]" and buf = "[9, 9, 9, 9, 9, 9]" and n = 3]
  show ?thesis by (auto simp: net_example_stream packet_def vbi_small)
qed

end
