(* ===== verification/MQTT_Client.thy ===== *)
theory MQTT_Client
  imports MQTT_Connect MQTT_Subscribe MQTT_Transport
begin

unbundle bit_operations_syntax

text \<open>
  The MQTT client of the application, \<open>User/mqttclient.c\<close>. Its state extends the transport's:
  the result of the next calls of \<open>select\<close> with the answer of \<open>FD_ISSET\<close> behind each, the global
  \<open>mqtt_user_msg\<close>, the two static packet counters, the tick count, and the messages that were
  handed to the application (\<open>Proscess\<close>), in order. Text the code only prints is left out.

  A local variable or buffer the code leaves uninitialised is an argument (\<open>stk\<close> for the bytes
  of a buffer, \<open>junk...\<close> for a variable): the statements hold whatever it contains.
\<close>

section \<open>State\<close>

abbreviation (input) MSG_MAX_LEN :: nat where "MSG_MAX_LEN \<equiv> 500"
abbreviation (input) MSG_TOPIC_LEN :: nat where "MSG_TOPIC_LEN \<equiv> 50"
abbreviation (input) KEEPLIVE_TIME :: u16 where "KEEPLIVE_TIME \<equiv> 50"

record mqtt_user_msg =
  msgqos :: u8
  msg_bytes :: bytes
  msglenth :: u32
  msg_topic :: bytes
  msg_packetid :: u16
  valid :: u8

record client = net +
  select_res :: "(int \<times> bool) list"
  user_msg :: mqtt_user_msg
  sub_packet_id :: u32
  pub_packet_id :: u16
  tick :: u32
  processed :: "bytes list"

text \<open>\<open>select\<close> with the one socket of the client; over the script it times out.\<close>

definition c_select :: "client \<Rightarrow> int \<times> bool \<times> client" where
  "c_select c = (case select_res c of
     (r, b) # rs \<Rightarrow> (r, b, c\<lparr>select_res := rs\<rparr>) | [] \<Rightarrow> (0, False, c))"

text \<open>The string constants of \<open>mqttclient.h\<close>.\<close>

definition CLIENT_ID :: bytes where
  "CLIENT_ID = [0x63, 0x6C, 0x69, 0x65, 0x6E, 0x74, 0x5F, 0x49, 0x44]"

definition USER_NAME :: bytes where
  "USER_NAME = [0x61, 0x71, 0x73, 0x6B, 0x62, 0x6A, 0x7A, 0x2F, 0x53, 0x54, 0x4D, 0x33, 0x32,
     0x46, 0x34, 0x30, 0x37]"

definition PASSWORD :: bytes where
  "PASSWORD = [0x58, 0x6E, 0x67, 0x55, 0x4E, 0x68, 0x69, 0x55, 0x54, 0x76, 0x44, 0x45, 0x56,
     0x44, 0x6D, 0x78]"

definition TOPIC :: bytes where
  "TOPIC = [0x6A, 0x69, 0x61, 0x6E, 0x67, 0x26, 0x74, 0x65, 0x6D, 0x70, 0x26, 0x68, 0x75, 0x6D]"

definition of_cstring :: "bytes \<Rightarrow> mqtt_string" where
  "of_cstring s = MQTTString_initializer\<lparr>cstring := Some s\<rparr>"

section \<open>Connecting, pinging, subscribing\<close>

abbreviation (input) Connect_OK :: int where "Connect_OK \<equiv> 0"
abbreviation (input) Connect_NOK :: int where "Connect_NOK \<equiv> 1"
abbreviation (input) Connect_NOTACK :: int where "Connect_NOTACK \<equiv> 2"

definition connect_options :: connect_data where
  "connect_options = MQTTPacket_connectData_initializer\<lparr>MQTTVersion := 4,
     clientID := of_cstring (c_str CLIENT_ID), keepAliveInterval := KEEPLIVE_TIME, cleansession := 1,
     username := of_cstring (c_str USER_NAME), password := of_cstring (c_str PASSWORD)\<rparr>"

definition MQTT_Connect :: "bytes \<Rightarrow> u8 \<Rightarrow> u8 \<Rightarrow> client \<Rightarrow> (int \<times> client) option" where
  "MQTT_Connect stk junk_sp junk_rc c = do {
     let buflen = int (length stk);
     (len, buf) \<leftarrow> MQTTSerialize_connect stk buflen connect_options;
     (_, c) \<leftarrow> transport_sendPacketBuffer c buf len;
     (type, buf, c) \<leftarrow> MQTTPacket_read transport_getdata c buf buflen;
     if type = 2 then do {
       (rc, sp, code) \<leftarrow> MQTTDeserialize_connack junk_sp junk_rc buf;
       Some (if rc \<noteq> 1 \<or> code \<noteq> 0 then Connect_NOK else Connect_OK, c) }
     else Some (Connect_NOTACK, c) }"

definition MQTT_PingReq :: "bytes \<Rightarrow> client \<Rightarrow> (int \<times> client) option" where
  "MQTT_PingReq stk c = do {
     let buflen = int (length stk);
     (len, buf) \<leftarrow> MQTTSerialize_pingreq stk buflen;
     (_, c) \<leftarrow> transport_sendPacketBuffer c buf len;
     case c_select c of (r, isset, c) \<Rightarrow>
       if r = 0 then Some (-1, c)
       else if \<not> isset then Some (-2, c)
       else do {
         (type, buf, c) \<leftarrow> MQTTPacket_read transport_getdata c buf buflen;
         Some (if type \<noteq> 13 then -3 else 0, c) } }"

text \<open>
  The packet identifier is a 32 bit counter of which the packet carries the low 16 bits; the
  identifier of the answer is compared with the whole counter.
\<close>

definition MQTTSubscribe :: "bytes \<Rightarrow> int \<Rightarrow> bytes \<Rightarrow> int \<Rightarrow> client \<Rightarrow> (int \<times> client) option" where
  "MQTTSubscribe stk junk_qos topic qos c = do {
     let buflen = int (length stk);
     (len, buf) \<leftarrow> MQTTSerialize_subscribe stk buflen 0 (ucast (sub_packet_id c)) 1 [of_cstring topic] [qos];
     let c = c\<lparr>sub_packet_id := sub_packet_id c + 1\<rparr>;
     (r, c) \<leftarrow> transport_sendPacketBuffer c buf len;
     if r < 0 then Some (-1, c)
     else case c_select c of (r, isset, c) \<Rightarrow>
       if r = 0 then Some (-2, c)
       else if \<not> isset then Some (-3, c)
       else do {
         (type, buf, c) \<leftarrow> MQTTPacket_read transport_getdata c buf buflen;
         if type \<noteq> 9 then Some (-4, c)
         else do {
           (rc, idbk, count, qs) \<leftarrow> MQTTDeserialize_suback 0 1 0 [junk_qos] buf buflen;
           if rc \<noteq> 1 then Some (-5, c)
           else do {
             q \<leftarrow> rd qs 0;
             Some (if q = 0x80 \<or> ucast idbk \<noteq> sub_packet_id c - 1 then -6 else 0, c) } } } }"

section \<open>Receiving messages\<close>

text \<open>
  \<open>UserMsgCtl\<close>: a message of more than two bytes goes to the application; then the slot is
  free again.
\<close>

definition UserMsgCtl :: "client \<Rightarrow> client" where
  "UserMsgCtl c =
     (let m = user_msg c;
          c = (if msglenth m > 2 then c\<lparr>processed := processed c @ [msg_bytes m]\<rparr> else c)
      in c\<lparr>user_msg := m\<lparr>valid := 0\<rparr>\<rparr>)"

text \<open>
  \<open>deliverMessage\<close> copies payload and topic into the fixed arrays of \<open>mqtt_user_msg\<close>, each
  with a terminating zero, and checks no length.
\<close>

definition deliverMessage :: "publish_data \<Rightarrow> mqtt_user_msg \<Rightarrow> mqtt_user_msg option" where
  "deliverMessage d u = do {
     let u = u\<lparr>msgqos := word_of_int (p_qos d)\<rparr>;
     pay \<leftarrow> (if p_payloadlen d < 0 then None else rd_bytes (p_payload d) 0 (nat (p_payloadlen d)));
     m \<leftarrow> wr_bytes (msg_bytes u) 0 pay;
     m \<leftarrow> wr m (nat (p_payloadlen d)) 0;
     let u = u\<lparr>msg_bytes := m, msglenth := word_of_int (p_payloadlen d)\<rparr>;
     t \<leftarrow> (if lenstring_len (p_topic d) < 0 then None
          else do { td \<leftarrow> lenstring_data (p_topic d); rd_bytes td 0 (nat (lenstring_len (p_topic d))) });
     tb \<leftarrow> wr_bytes (msg_topic u) 0 t;
     tb \<leftarrow> wr tb (nat (lenstring_len (p_topic d))) 0;
     Some (u\<lparr>msg_topic := tb, msg_packetid := p_packetid d, valid := 1\<rparr>) }"

text \<open>Sending an acknowledgement and what its failure means to the caller.\<close>

definition pktype_publish :: "publish_data \<Rightarrow> bytes \<Rightarrow> int \<Rightarrow> client \<Rightarrow> (bytes \<times> client) option" where
  "pktype_publish junk buf buflen c = do {
     (rc, d) \<leftarrow> MQTTDeserialize_publish junk buf buflen;
     if rc \<noteq> 1 then Some (buf, c)
     else do {
       u \<leftarrow> deliverMessage d (user_msg c);
       let c = c\<lparr>user_msg := u\<rparr>;
       if p_qos d = 0 then Some (buf, UserMsgCtl c)
       else if p_qos d = 1 then do {
         (len, buf) \<leftarrow> MQTTSerialize_puback buf buflen (msg_packetid u);
         if len = 0 then Some (buf, c)
         else do {
           (r, c) \<leftarrow> transport_sendPacketBuffer c buf len;
           if r < 0 then Some (buf, c) else Some (buf, UserMsgCtl c) } }
       else if p_qos d = 2 then do {
         (len, buf) \<leftarrow> MQTTSerialize_ack buf buflen PUBREC 0 (msg_packetid u);
         if len = 0 then Some (buf, c)
         else do {
           (r, c) \<leftarrow> transport_sendPacketBuffer c buf len;
           Some (buf, c) } }
       else Some (buf, c) } }"

definition pktype_pubrel :: "u16 \<Rightarrow> bytes \<Rightarrow> int \<Rightarrow> client \<Rightarrow> (bytes \<times> client) option" where
  "pktype_pubrel junk_id buf buflen c = do {
     (rc, type, dup, i) \<leftarrow> MQTTDeserialize_ack junk_id buf buflen;
     if rc \<noteq> 1 \<or> type \<noteq> PUBREL \<or> i \<noteq> msg_packetid (user_msg c) then Some (buf, c)
     else do {
       let c = (if valid (user_msg c) = 1 then UserMsgCtl c else c);
       (len, buf) \<leftarrow> MQTTSerialize_pubcomp buf buflen i;
       if len = 0 then Some (buf, c)
       else do {
         (r, c) \<leftarrow> transport_sendPacketBuffer c buf len;
         Some (buf, c) } } }"

definition mqtt_pktype_ctl :: "publish_data \<Rightarrow> u8 \<Rightarrow> bytes \<Rightarrow> int \<Rightarrow> client \<Rightarrow> (bytes \<times> client) option" where
  "mqtt_pktype_ctl junk packtype buf buflen c =
     (if packtype = PUBLISH then pktype_publish junk buf buflen c
      else if packtype = PUBREL then pktype_pubrel (p_packetid junk) buf buflen c
      else Some (buf, c))"

definition ReadPacketTimeout :: "bytes \<Rightarrow> int \<Rightarrow> nat \<Rightarrow> client \<Rightarrow> (int \<times> bytes \<times> client) option" where
  "ReadPacketTimeout buf buflen timeout c =
     (if timeout \<noteq> 0 then
        (case c_select c of (r, isset, c) \<Rightarrow>
          if r = 0 \<or> \<not> isset then Some (-1, buf, c)
          else MQTTPacket_read transport_getdata c buf buflen)
      else MQTTPacket_read transport_getdata c buf buflen)"

text \<open>The do-while loop of \<open>WaitForPacket\<close>, with \<open>n\<close> rounds done before.\<close>

function wait_loop :: "publish_data \<Rightarrow> u8 \<Rightarrow> nat \<Rightarrow> nat \<Rightarrow> bytes \<Rightarrow> client \<Rightarrow> (int \<times> client) option" where
  "wait_loop junk packettype rounds n buf c = do {
     (type, buf, c) \<leftarrow> ReadPacketTimeout buf (int (length buf)) 2 c;
     (buf, c) \<leftarrow> (if type \<noteq> -1 then mqtt_pktype_ctl junk (word_of_int type) buf (int (length buf)) c
                 else Some (buf, c));
     if type \<noteq> uint packettype \<and> n + 1 < rounds then wait_loop junk packettype rounds (n + 1) buf c
     else Some (type, c) }"
  by pat_completeness auto

termination wait_loop
  by (relation "measure (\<lambda>(junk, packettype, rounds, n, buf, c). rounds - n)") auto

declare wait_loop.simps [simp del]

definition WaitForPacket :: "publish_data \<Rightarrow> bytes \<Rightarrow> u8 \<Rightarrow> u8 \<Rightarrow> client \<Rightarrow> (int \<times> client) option" where
  "WaitForPacket junk stk packettype rounds c = do {
     (type, c) \<leftarrow> wait_loop junk packettype (unat rounds) 0 stk c;
     Some (if type = uint packettype then 0 else -1, c) }"

section \<open>Publishing\<close>

definition GetNextPackID :: "client \<Rightarrow> u16 \<times> client" where
  "GetNextPackID c = (pub_packet_id c, c\<lparr>pub_packet_id := pub_packet_id c + 1\<rparr>)"

text \<open>
  \<open>MQTTMsgPublish\<close> computes the length of the message as \<open>strlen((char *)msg_len)\<close> of the
  variable that is to hold it: \<open>garbage\<close> is the object at the address that happens to be in the
  variable. The identifier of the PUBREL is never set either (\<open>junk_id\<close>).
\<close>

definition MQTTMsgPublish ::
    "publish_data \<Rightarrow> bytes \<Rightarrow> bytes \<Rightarrow> bytes \<Rightarrow> u16 \<Rightarrow> bytes \<Rightarrow> int \<Rightarrow> bytes \<Rightarrow> client \<Rightarrow> (int \<times> client) option" where
  "MQTTMsgPublish junk stk wait_stk garbage junk_id topic qos msg c = do {
     let buflen = int (length stk);
     let (packid, c, qos) = (if qos = 1 \<or> qos = 2 then (case GetNextPackID c of (i, c) \<Rightarrow> (i, c, qos)) else (0, c, 0));
     msg_len \<leftarrow> c_strlen garbage;
     (len, buf) \<leftarrow> MQTTSerialize_publish stk buflen 0 qos 0 packid (of_cstring topic) msg (int msg_len);
     if len \<le> 0 then Some (-1, c)
     else do {
       (r, c) \<leftarrow> transport_sendPacketBuffer c buf len;
       if r < 0 then Some (-2, c)
       else if qos = 0 then Some (0, c)
       else if qos = 1 then do {
         (r, c) \<leftarrow> WaitForPacket junk wait_stk PUBACK 5 c;
         Some (if r < 0 then -3 else 1, c) }
       else if qos = 2 then do {
         (r, c) \<leftarrow> WaitForPacket junk wait_stk PUBREC 5 c;
         if r < 0 then Some (-3, c)
         else do {
           (len, buf) \<leftarrow> MQTTSerialize_pubrel buf buflen 0 junk_id;
           if len = 0 then Some (-4, c)
           else do {
             (r, c) \<leftarrow> transport_sendPacketBuffer c buf len;
             if r < 0 then Some (-6, c)
             else do {
               (r, c) \<leftarrow> WaitForPacket junk wait_stk PUBREC 5 c;
               Some (if r < 0 then -7 else 2, c) } } } }
       else Some (-8, c) } }"

section \<open>Sending\<close>

definition writes_ok :: "'a net_scheme \<Rightarrow> bool" where
  "writes_ok c \<longleftrightarrow> (\<forall>r \<in> set (write_res c). 0 \<le> r)"

text \<open>A successful send: the block is appended to what was sent, and nothing else of the state matters.\<close>

definition sends :: "'a net_scheme \<Rightarrow> bytes \<Rightarrow> 'a net_scheme \<Rightarrow> bool" where
  "sends c data c' \<longleftrightarrow> (\<exists>rs. c' = c\<lparr>write_res := rs, sent := sent c @ [data]\<rparr>) \<and> writes_ok c'"

lemma send_ok:
  assumes "writes_ok c" and "n \<le> length buf"
  shows "\<exists>c'. transport_sendPacketBuffer c buf (int n) = Some (int n, c') \<and> sends c (take n buf) c'"
proof (cases "write_res c")
  case Nil
  with assms show ?thesis
    by (intro exI [of _ "c\<lparr>sent := sent c @ [take n buf]\<rparr>"])
       (auto simp: transport_sendPacketBuffer_def rd_bytes_def sends_def writes_ok_def intro: exI [of _ "[]"])
next
  case (Cons r rs)
  with assms show ?thesis
    by (auto simp: transport_sendPacketBuffer_def rd_bytes_def sends_def writes_ok_def)
qed

lemma sends_state:
  assumes "sends c data c'"
  shows "sent c' = sent c @ [data]" "tcp c' = tcp c" "net_arrived c' = net_arrived c" "writes_ok c'"
  using assms by (auto simp: sends_def net_arrived_def)

lemma sends_client:
  assumes "sends (c :: client) data c'"
  shows "user_msg c' = user_msg c" "processed c' = processed c" "select_res c' = select_res c"
    "sub_packet_id c' = sub_packet_id c"
  using assms by (auto simp: sends_def)

section \<open>Acknowledgements the client sends\<close>

lemma serialize_ack_packet:
  assumes "4 \<le> length buf"
  shows "\<exists>h buf'. MQTTSerialize_ack buf (int (length buf)) t 0 i = Some (4, buf') \<and>
    length buf' = length buf \<and> take 4 buf' = [h, 2] @ u16be (unat i) \<and>
    h = mk_header t 0 (if t = PUBREL then 1 else 0) 0"
proof -
  let ?h = "mk_header t 0 (if t = PUBREL then 1 else 0) 0"
  let ?p = "packet ?h (u16be (unat i))"
  have p: "?p = [?h, 2] @ u16be (unat i)" by (simp add: packet_def vbi_small)
  have "length ?p \<le> length buf" using assms by (simp only: length_ack)
  from emit_packet [OF this] have "emit (buf, 0) ?p = Some (?p @ drop 4 buf, 4)"
    by (simp only: length_ack)
  moreover have "length (?p @ drop 4 buf) = length buf"
    using assms by (simp only: length_append length_ack length_drop)
  moreover have "take 4 (?p @ drop 4 buf) = ?p"
    by (simp add: packet_def vbi_small u16be_def)
  ultimately show ?thesis
    using assms unfolding p by (simp add: serialize_ack_emit p)
qed

definition ack_bytes :: "u8 \<Rightarrow> u16 \<Rightarrow> bytes" where
  "ack_bytes t i = [mk_header t 0 (if t = PUBREL then 1 else 0) 0, 2] @ u16be (unat i)"

lemma client_ack:
  assumes "4 \<le> length buf" and "writes_ok (c :: client)"
  shows "\<exists>buf' c'. MQTTSerialize_ack buf (int (length buf)) t 0 i = Some (4, buf') \<and>
    length buf' = length buf \<and>
    transport_sendPacketBuffer c buf' 4 = Some (4, c') \<and> sends c (ack_bytes t i) c'"
proof -
  obtain buf' where b: "MQTTSerialize_ack buf (int (length buf)) t 0 i = Some (4, buf')"
    "length buf' = length buf" "take 4 buf' = ack_bytes t i"
    using serialize_ack_packet [OF assms(1), of t i] by (auto simp: ack_bytes_def)
  moreover from send_ok [OF assms(2), of 4 buf'] b assms(1)
  obtain c' where "transport_sendPacketBuffer c buf' 4 = Some (4, c')" "sends c (ack_bytes t i) c'"
    by auto
  ultimately show ?thesis by blast
qed

section \<open>Delivering a message\<close>

definition slot_ok :: "mqtt_user_msg \<Rightarrow> bool" where
  "slot_ok u \<longleftrightarrow> length (msg_bytes u) = MSG_MAX_LEN \<and> length (msg_topic u) = MSG_TOPIC_LEN"

definition holds_msg :: "mqtt_user_msg \<Rightarrow> bytes \<Rightarrow> bytes \<Rightarrow> bool" where
  "holds_msg u t x \<longleftrightarrow> slot_ok u \<and> take (length x + 1) (msg_bytes u) = x @ [0] \<and>
     msglenth u = of_nat (length x) \<and> take (length t + 1) (msg_topic u) = t @ [0]"

lemma copy_terminated:
  assumes "length x < length b"
  shows "\<exists>b'. wr_bytes b 0 x = Some b' \<and> wr b' (length x) 0 = Some (x @ 0 # drop (length x + 1) b)"
  using assms
  by (intro exI [of _ "x @ drop (length x) b"])
     (auto simp: wr_bytes_def wr_def list_update_append simp flip: Cons_nth_drop_Suc)

lemma deliver_ok:
  assumes s: "str_is (p_topic d) t" and l: "p_payloadlen d = int (length x)" "take (length x) (p_payload d) = x"
    and fit: "length x < MSG_MAX_LEN" "length t < MSG_TOPIC_LEN" and u: "slot_ok u"
  shows "\<exists>u'. deliverMessage d u = Some u' \<and> holds_msg u' t x \<and> msg_packetid u' = p_packetid d \<and>
    valid u' = 1 \<and> msgqos u' = word_of_int (p_qos d)"
proof -
  obtain td where td: "lenstring_data (p_topic d) = Some td" "take (length t) td = t"
    "lenstring_len (p_topic d) = int (length t)"
    using s by (auto simp: str_is_def split: option.splits)
  then have t: "rd_bytes td 0 (length t) = Some t"
    by (metis add_0 drop_0 length_take min.cobounded2 rd_bytes_def min.absorb_iff2 le_cases min_def)
  have p: "rd_bytes (p_payload d) 0 (length x) = Some x"
    using l(2) by (metis add_0 drop_0 length_take min.cobounded2 rd_bytes_def min.absorb_iff2 le_cases min_def)
  obtain b1 where b1: "wr_bytes (msg_bytes u) 0 x = Some b1"
    "wr b1 (length x) 0 = Some (x @ 0 # drop (length x + 1) (msg_bytes u))"
    using copy_terminated [of x "msg_bytes u"] fit u by (auto simp: slot_ok_def)
  obtain b2 where b2: "wr_bytes (msg_topic u) 0 t = Some b2"
    "wr b2 (length t) 0 = Some (t @ 0 # drop (length t + 1) (msg_topic u))"
    using copy_terminated [of t "msg_topic u"] fit u by (auto simp: slot_ok_def)
  show ?thesis
    using l(1) td t p b1 b2 fit u
    by (simp add: deliverMessage_def holds_msg_def slot_ok_def)
qed

text \<open>A topic that does not fit the slot makes the copy leave the array.\<close>

lemma deliver_overflow:
  assumes s: "str_is (p_topic d) t" and "MSG_TOPIC_LEN \<le> length t" and u: "slot_ok u"
  shows "deliverMessage d u = None"
  using assms
  by (auto simp: deliverMessage_def str_is_def slot_ok_def rd_bytes_def wr_bytes_def wr_def Let_def
      split: option.splits Option.bind_splits if_splits)

section \<open>Incoming messages\<close>

definition publish_packet :: "u8 \<Rightarrow> bytes \<Rightarrow> u16 \<Rightarrow> bytes \<Rightarrow> bytes" where
  "publish_packet h t i x = packet h (publish_body (uint (hdr_qos h)) t i x)"

lemma qos_pos: "0 < uint (q :: u8) \<longleftrightarrow> q \<noteq> 0"
  using uint_ge_0 [of q] by (metis order_le_less uint_0_iff less_irrefl)

lemma qos_cases:
  "uint (q :: u8) = 0 \<longleftrightarrow> q = 0" "uint q = 1 \<longleftrightarrow> q = 1" "uint q = 2 \<longleftrightarrow> q = 2"
  "q < 2 \<longleftrightarrow> q = 0 \<or> q = 1"
proof -
  have "uint q = uint (1 :: u8) \<longleftrightarrow> q = 1" "uint q = uint (2 :: u8) \<longleftrightarrow> q = 2"
    by (simp_all only: word_uint_eq_iff)
  then show e: "uint q = 0 \<longleftrightarrow> q = 0" "uint q = 1 \<longleftrightarrow> q = 1" "uint q = 2 \<longleftrightarrow> q = 2"
    by (simp_all add: uint_0_iff)
  have "q < 2 \<longleftrightarrow> uint q < 2" by (simp add: word_less_def)
  also have "\<dots> \<longleftrightarrow> uint q = 0 \<or> uint q = 1" using uint_ge_0 [of q] by presburger
  finally show "q < 2 \<longleftrightarrow> q = 0 \<or> q = 1" unfolding e .
qed

lemma deserialize_publish_packet:
  assumes b: "buf = publish_packet h t i x @ r" and h: "hdr_type h = PUBLISH"
    and l: "length t < 65536" "length x < 65536"
  shows "\<exists>d'. MQTTDeserialize_publish d buf buflen = Some (1, d') \<and> str_is (p_topic d') t \<and>
    p_payloadlen d' = int (length x) \<and> take (length x) (p_payload d') = x \<and>
    p_qos d' = uint (hdr_qos h) \<and> p_packetid d' = (if hdr_qos h = 0 then p_packetid d else i)"
proof -
  let ?y = "(if hdr_qos h = 0 then [] else u16be (unat i)) @ x"
  have b': "buf = packet h (lenstr t @ ?y) @ r"
    using b by (simp add: publish_packet_def publish_body_def qos_pos)
  have n28: "length (lenstr t @ ?y) < 2 ^ 28" using l by simp
  let ?cur = "1 + length (vbi (length (lenstr t @ ?y))) + 2 + length t"
  obtain s where s: "str_is s t" and cur: "drop ?cur buf = ?y @ r"
    and des: "MQTTDeserialize_publish d buf buflen =
    (let d = d\<lparr>p_dup := hdr_dup h, p_qos := uint (hdr_qos h), p_retained := hdr_retain h, p_topic := s\<rparr>
     in if hdr_qos h = 0 then Some (1, d\<lparr>p_payloadlen := int (length ?y), p_payload := ?y @ r\<rparr>)
        else do { (i, q) \<leftarrow> readInt buf ?cur;
          Some (1, d\<lparr>p_packetid := word_of_int i, p_payloadlen := int (length ?y) - 2,
                     p_payload := drop 2 (?y @ r)\<rparr>) })"
    using deserialize_publish_topic [OF b' n28 h l(1), of d buflen] by blast
  show ?thesis
  proof (cases "hdr_qos h = 0")
    case True
    with des s show ?thesis by (simp add: Let_def)
  next
    case False
    then have "drop ?cur buf = u16be (unat i) @ x @ r" using cur by simp
    from readInt_drop [OF this] have "readInt buf ?cur = Some (int (unat i), ?cur + 2)" by simp
    with False des s show ?thesis by (simp add: Let_def)
  qed
qed

lemma UserMsgCtl_simps [simp]:
  "sent (UserMsgCtl c) = sent c" "valid (user_msg (UserMsgCtl c)) = 0"
  "msg_packetid (user_msg (UserMsgCtl c)) = msg_packetid (user_msg c)"
  "writes_ok (UserMsgCtl c) = writes_ok c" "tcp (UserMsgCtl c) = tcp c"
  "slot_ok (user_msg (UserMsgCtl c)) = slot_ok (user_msg c)"
  "processed (UserMsgCtl c) = processed c @ (if msglenth (user_msg c) > 2 then [msg_bytes (user_msg c)] else [])"
  "holds_msg (user_msg (UserMsgCtl c)) t x = holds_msg (user_msg c) t x"
  by (auto simp: UserMsgCtl_def Let_def writes_ok_def slot_ok_def holds_msg_def)

lemma user_msg_upd [simp]: "writes_ok (c\<lparr>user_msg := u\<rparr>) = writes_ok c"
  by (simp add: writes_ok_def)

lemma client_publish:
  assumes b: "buf = publish_packet h t i x @ r" and h: "hdr_type h = PUBLISH"
    and fit: "length x < MSG_MAX_LEN" "length t < MSG_TOPIC_LEN" and u: "slot_ok (user_msg c)"
    and w: "writes_ok (c :: client)" and len: "4 \<le> length buf"
  shows "\<exists>buf' c' u. mqtt_pktype_ctl junk PUBLISH buf (int (length buf)) c = Some (buf', c') \<and>
    length buf' = length buf \<and> holds_msg (user_msg c') t x \<and> writes_ok c' \<and> tcp c' = tcp c \<and>
    msg_packetid (user_msg c') = (if hdr_qos h = 0 then p_packetid junk else i) \<and>
    holds_msg u t x \<and>
    sent c' = sent c @ (if hdr_qos h = 1 then [ack_bytes PUBACK i] else
                        if hdr_qos h = 2 then [ack_bytes PUBREC i] else []) \<and>
    processed c' = processed c @ (if hdr_qos h < 2 \<and> msglenth u > 2 then [msg_bytes u] else []) \<and>
    valid (user_msg c') = (if hdr_qos h < 2 then 0 else 1)"
proof -
  obtain d where d: "MQTTDeserialize_publish junk buf (int (length buf)) = Some (1, d)" "str_is (p_topic d) t"
    "p_payloadlen d = int (length x)" "take (length x) (p_payload d) = x" "p_qos d = uint (hdr_qos h)"
    "p_packetid d = (if hdr_qos h = 0 then p_packetid junk else i)"
    using deserialize_publish_packet [OF b h, of junk "int (length buf)"] fit by auto
  obtain u where u: "deliverMessage d (user_msg c) = Some u" "holds_msg u t x"
    "msg_packetid u = p_packetid d" "valid u = 1"
    using deliver_ok [OF d(2-4) fit u] by blast
  let ?c = "c\<lparr>user_msg := u\<rparr>"
  have w': "writes_ok ?c" using w by simp
  note q = qos_cases [of "hdr_qos h"]
  consider "hdr_qos h = 0" | "hdr_qos h = 1" | "hdr_qos h = 2" | "hdr_qos h \<notin> {0, 1, 2}" by blast
  then show ?thesis
  proof cases
    case 1
    with d u w q show ?thesis
      by (intro exI [of _ buf] exI [of _ "UserMsgCtl ?c"] exI [of _ u])
         (simp add: mqtt_pktype_ctl_def pktype_publish_def)
  next
    case 2
    obtain buf' c' where "MQTTSerialize_ack buf (int (length buf)) PUBACK 0 i = Some (4, buf')"
      "length buf' = length buf" "transport_sendPacketBuffer ?c buf' 4 = Some (4, c')"
      "sends ?c (ack_bytes PUBACK i) c'"
      using client_ack [OF len w', of PUBACK i] by blast
    with 2 d u w q sends_state [of ?c "ack_bytes PUBACK i" c'] sends_client [of ?c "ack_bytes PUBACK i" c']
    show ?thesis
      by (intro exI [of _ buf'] exI [of _ "UserMsgCtl c'"] exI [of _ u])
         (simp add: mqtt_pktype_ctl_def pktype_publish_def MQTTSerialize_puback_def)
  next
    case 3
    obtain buf' c' where "MQTTSerialize_ack buf (int (length buf)) PUBREC 0 i = Some (4, buf')"
      "length buf' = length buf" "transport_sendPacketBuffer ?c buf' 4 = Some (4, c')"
      "sends ?c (ack_bytes PUBREC i) c'"
      using client_ack [OF len w', of PUBREC i] by blast
    with 3 d u w q sends_state [of ?c "ack_bytes PUBREC i" c'] sends_client [of ?c "ack_bytes PUBREC i" c']
    show ?thesis
      by (intro exI [of _ buf'] exI [of _ c'] exI [of _ u])
         (simp add: mqtt_pktype_ctl_def pktype_publish_def)
  next
    case 4
    with d u w q show ?thesis
      by (intro exI [of _ buf] exI [of _ ?c] exI [of _ u])
         (simp add: mqtt_pktype_ctl_def pktype_publish_def)
  qed
qed

lemma client_pubrel:
  assumes b: "buf = packet (mk_header PUBREL dup 1 0) (u16be (unat i)) @ r"
    and w: "writes_ok (c :: client)" and id: "msg_packetid (user_msg c) = i"
  shows "\<exists>buf' c'. mqtt_pktype_ctl junk PUBREL buf (int (length buf)) c = Some (buf', c') \<and>
    length buf' = length buf \<and> writes_ok c' \<and> tcp c' = tcp c \<and> msg_packetid (user_msg c') = i \<and>
    (valid (user_msg c) = 1 \<longrightarrow> valid (user_msg c') = 0) \<and>
    (valid (user_msg c) \<noteq> 1 \<longrightarrow> valid (user_msg c') = valid (user_msg c)) \<and>
    sent c' = sent c @ [ack_bytes PUBCOMP i] \<and>
    processed c' = processed c @
      (if valid (user_msg c) = 1 \<and> msglenth (user_msg c) > 2 then [msg_bytes (user_msg c)] else [])"
proof -
  let ?c = "if valid (user_msg c) = 1 then UserMsgCtl c else c"
  have des: "MQTTDeserialize_ack (p_packetid junk) buf (int (length buf)) =
      Some (1, PUBREL, take_bit 1 dup, i)"
    using deserialize_ack_packet [of buf "mk_header PUBREL dup 1 0" i "[]" r "p_packetid junk" "int (length buf)"] b
    by simp
  have "4 \<le> length buf" using b by (simp add: vbi_small)
  moreover have "writes_ok ?c" using w by simp
  ultimately obtain buf' c' where "MQTTSerialize_ack buf (int (length buf)) PUBCOMP 0 i = Some (4, buf')"
      "length buf' = length buf" "transport_sendPacketBuffer ?c buf' 4 = Some (4, c')"
      "sends ?c (ack_bytes PUBCOMP i) c'"
    using client_ack [of buf ?c PUBCOMP i] by blast
  with des id sends_state [of ?c "ack_bytes PUBCOMP i" c'] sends_client [of ?c "ack_bytes PUBCOMP i" c']
  show ?thesis
    by (intro exI [of _ buf'] exI [of _ c'])
       (auto simp: mqtt_pktype_ctl_def pktype_pubrel_def MQTTSerialize_pubcomp_def)
qed

text \<open>
  C31: How the client handles an incoming PUBLISH whose topic and payload fit its message
  slot: it keeps topic, payload and length in the slot; a QoS 0 message goes to the application
  at once and nothing is sent; a QoS 1 message goes to the application and a PUBACK with its identifier is
  sent; for QoS 2 a PUBREC with its identifier is sent and the message waits in the slot. (A
  message of two bytes or less is never given to the application.)
\<close>

theorem publish_handling:
  assumes "buf = publish_packet h t i x @ r" and "hdr_type h = PUBLISH" and "hdr_qos h \<noteq> 3"
    and "2 < length x" and "length x < MSG_MAX_LEN" and "length t < MSG_TOPIC_LEN" and "slot_ok (user_msg c)"
    and "writes_ok (c :: client)" and "4 \<le> length buf"
  shows "\<exists>buf' c' m. mqtt_pktype_ctl junk PUBLISH buf (int (length buf)) c = Some (buf', c') \<and>
    holds_msg (user_msg c') t x \<and> take (length x + 1) m = x @ [0] \<and>
    (hdr_qos h = 0 \<longrightarrow> sent c' = sent c \<and> processed c' = processed c @ [m]) \<and>
    (hdr_qos h = 1 \<longrightarrow> sent c' = sent c @ [ack_bytes PUBACK i] \<and> processed c' = processed c @ [m]) \<and>
    (hdr_qos h = 2 \<longrightarrow> sent c' = sent c @ [ack_bytes PUBREC i] \<and> processed c' = processed c \<and>
       valid (user_msg c') = 1 \<and> msg_packetid (user_msg c') = i)"
proof -
  obtain buf' c' u where c: "mqtt_pktype_ctl junk PUBLISH buf (int (length buf)) c = Some (buf', c')"
    "holds_msg (user_msg c') t x" "msg_packetid (user_msg c') = (if hdr_qos h = 0 then p_packetid junk else i)"
    "holds_msg u t x" "sent c' = sent c @ (if hdr_qos h = 1 then [ack_bytes PUBACK i] else
                        if hdr_qos h = 2 then [ack_bytes PUBREC i] else [])"
    "processed c' = processed c @ (if hdr_qos h < 2 \<and> msglenth u > 2 then [msg_bytes u] else [])"
    "valid (user_msg c') = (if hdr_qos h < 2 then 0 else 1)"
    using client_publish [OF assms(1,2,5,6,7,8,9), of junk] by blast
  have "msglenth u > 2"
    using c(4) assms(4,5) unfolding holds_msg_def
    by (simp add: word_less_nat_alt unsigned_of_nat take_bit_nat_eq_self)
  with c show ?thesis
    by (intro exI [of _ buf'] exI [of _ c'] exI [of _ "msg_bytes u"])
       (auto simp: holds_msg_def qos_cases)
qed


text \<open>
  C39: The topic of an incoming message is copied without a check: a PUBLISH that is a correct
  MQTT packet and fits the client's 500 byte buffer, but whose topic has 50 bytes or more, makes
  the client write past the end of the topic array.
\<close>

theorem topic_overflow:
  assumes "buf = publish_packet h t i x @ r" and "hdr_type h = PUBLISH"
    and "MSG_TOPIC_LEN \<le> length t" and "length t < 65536" and "length x < 65536" and "slot_ok (user_msg c)"
  shows "mqtt_pktype_ctl junk PUBLISH buf (int (length buf)) c = None"
proof -
  obtain d where "MQTTDeserialize_publish junk buf (int (length buf)) = Some (1, d)" "str_is (p_topic d) t"
    using deserialize_publish_packet [OF assms(1,2,4,5), of junk "int (length buf)"] by blast
  with deliver_overflow [OF _ assms(3,6)] show ?thesis
    by (simp add: mqtt_pktype_ctl_def pktype_publish_def)
qed

definition client_example :: client where
  "client_example = \<lparr>tcp = closed_sock, sent = [], write_res = [], open_res = [], select_res = [],
     user_msg = \<lparr>msgqos = 0, msg_bytes = replicate 500 0, msglenth = 0, msg_topic = replicate 50 0,
       msg_packetid = 0, valid = 0\<rparr>,
     sub_packet_id = 0, pub_packet_id = 0, tick = 0, processed = []\<rparr>"

lemma client_example [simp]:
  "slot_ok (user_msg client_example)" "writes_ok client_example" "sent client_example = []"
  "processed client_example = []"
  by (simp_all add: client_example_def slot_ok_def writes_ok_def)

lemma hdr_example: "hdr_type 0x34 = PUBLISH" "hdr_qos 0x34 = 2" "hdr_type 0x32 = PUBLISH" "hdr_qos 0x32 = 1"
  by code_simp+

theorem publish_handling_witness:
  "\<exists>buf' c' m. mqtt_pktype_ctl publish_example PUBLISH (publish_packet 0x32 [0x74] 7 [1, 2, 3])
      (int (length (publish_packet 0x32 [0x74] 7 [1, 2, 3]))) client_example = Some (buf', c') \<and>
    sent c' = [ack_bytes PUBACK 7] \<and> processed c' = [m] \<and> take 4 m = [1, 2, 3, 0]"
proof -
  have "4 \<le> length (publish_packet 0x32 [0x74] 7 [1, 2, 3])"
    by (simp add: publish_packet_def length_publish_body)
  with publish_handling [where buf = "publish_packet 0x32 [0x74] 7 [1, 2, 3]" and h = "0x32" and
      t = "[0x74]" and i = 7 and x = "[1, 2, 3]" and r = "[]" and c = client_example and junk = publish_example]
  show ?thesis by (auto simp: hdr_example eval_nat_numeral)
qed


theorem topic_overflow_witness:
  "mqtt_pktype_ctl publish_example PUBLISH (publish_packet 0x32 (replicate 60 0x74) 7 [1])
     (int (length (publish_packet 0x32 (replicate 60 0x74) 7 [1]))) client_example = None"
  using topic_overflow [where buf = "publish_packet 0x32 (replicate 60 0x74) 7 [1]" and h = "0x32" and
      t = "replicate 60 0x74" and i = 7 and x = "[1]" and r = "[]" and c = client_example and junk = publish_example]
  by (simp add: hdr_example)

section \<open>Waiting for a packet\<close>

text \<open>What a read of a packet keeps: everything the source keeps.\<close>

lemma decode_loop_inv:
  assumes "\<And>s n rc bs s'. getfn s n = Some (rc, bs, s') \<Longrightarrow> P s \<Longrightarrow> P s'"
    and "decode_loop getfn s c len mult val = Some (k, v, s')" and "P s"
  shows "P s'"
  using assms(2,3)
proof (induction "5 - len" arbitrary: s c len mult val)
  case 0
  then show ?case by (auto simp: decode_loop.simps [of getfn s c len])
next
  case (Suc m)
  show ?case
  proof (cases "4 < len + 1")
    case True
    with Suc.prems show ?thesis by (auto simp: decode_loop.simps [of getfn s c len])
  next
    case False
    with Suc.prems obtain rc bs s1 where g: "getfn s 1 = Some (rc, bs, s1)"
      by (auto simp: decode_loop.simps [of getfn s c len] split: Option.bind_splits)
    from assms(1) [OF g] Suc.prems have "P s1" by simp
    moreover from Suc.hyps(2) have "m = 5 - (len + 1)" by simp
    ultimately show ?thesis
      using Suc.prems(1) g False Suc.hyps(1) [of "len + 1" s1]
      by (simp add: decode_loop.simps [of getfn s c len mult val] Let_def split: if_splits)
  qed
qed

lemma packet_read_inv:
  assumes g: "\<And>s n rc bs s'. getfn s n = Some (rc, bs, s') \<Longrightarrow> P s \<Longrightarrow> P s'"
    and r: "MQTTPacket_read getfn s buf n = Some (rc, buf', s')" and P: "P s"
  shows "P s'"
proof -
  have d: "MQTTPacket_decode getfn s1 = Some (k, v, s2) \<Longrightarrow> P s1 \<Longrightarrow> P s2" for s1 k v s2
    using decode_loop_inv [where P = P and getfn = getfn, OF g] by (auto simp: MQTTPacket_decode_def)
  show ?thesis
    using r P by (auto simp: MQTTPacket_read_def split: Option.bind_splits if_splits dest!: g d)
qed

definition net_rest :: "client \<Rightarrow> client" where
  "net_rest c = c\<lparr>tcp := closed_sock\<rparr>"

lemma read_net_rest:
  "MQTTPacket_read transport_getdata c buf n = Some (rc, buf', c') \<Longrightarrow> net_rest c' = net_rest c"
  by (rule packet_read_inv [where P = "\<lambda>c'. net_rest c' = net_rest c" and getfn = transport_getdata])
     (auto simp: transport_getdata_def net_rest_def split: prod.splits)

lemma net_rest_eqs:
  assumes "net_rest c' = net_rest c"
  shows "select_res c' = select_res c" "sent c' = sent c" "processed c' = processed c"
    "user_msg c' = user_msg c" "write_res c' = write_res c" "sub_packet_id c' = sub_packet_id c"
  using assms by (cases c; cases c'; simp add: net_rest_def)+

lemma send_select: "transport_sendPacketBuffer c buf n = Some (r, c') \<Longrightarrow> select_res (c' :: client) = select_res c"
  by (auto simp: transport_sendPacketBuffer_def split: if_splits Option.bind_splits list.splits)

lemma UserMsgCtl_select [simp]: "select_res (UserMsgCtl c) = select_res c"
  by (simp add: UserMsgCtl_def Let_def)

lemma pktype_select: "mqtt_pktype_ctl junk t buf n c = Some (buf', c') \<Longrightarrow> select_res c' = select_res c"
  by (auto simp: mqtt_pktype_ctl_def pktype_publish_def pktype_pubrel_def Let_def dest!: send_select
      split: if_splits Option.bind_splits)

lemma ReadPacketTimeout_select:
  "ReadPacketTimeout buf n 2 c = Some (type, buf', c') \<Longrightarrow> select_res c' = drop 1 (select_res c)"
  by (cases "select_res c")
     (auto simp: ReadPacketTimeout_def c_select_def split: if_splits dest!: read_net_rest net_rest_eqs(1))

lemma wait_loop_selects:
  assumes "wait_loop junk t rounds n buf c = Some (type, c')"
  shows "\<exists>k \<ge> 1. k \<le> max 1 (rounds - n) \<and> select_res c' = drop k (select_res c)"
  using assms
proof (induction "rounds - n" arbitrary: n buf c rule: less_induct)
  case less
  obtain ty b1 c1 where r: "ReadPacketTimeout buf (int (length buf)) 2 c = Some (ty, b1, c1)"
    using less.prems by (auto simp: wait_loop.simps [of junk t rounds n buf c] split: Option.bind_splits)
  then obtain b2 c2 where p: "(if ty \<noteq> -1 then mqtt_pktype_ctl junk (word_of_int ty) b1 (int (length b1)) c1
      else Some (b1, c1)) = Some (b2, c2)"
    using less.prems by (auto simp: wait_loop.simps [of junk t rounds n buf c] split: Option.bind_splits)
  have s: "select_res c2 = drop 1 (select_res c)"
    using ReadPacketTimeout_select [OF r] p by (auto split: if_splits dest: pktype_select)
  have eq: "wait_loop junk t rounds n buf c =
      (if ty \<noteq> uint t \<and> n + 1 < rounds then wait_loop junk t rounds (n + 1) b2 c2 else Some (ty, c2))"
    using r p by (simp add: wait_loop.simps [of junk t rounds n buf c])
  show ?case
  proof (cases "ty \<noteq> uint t \<and> n + 1 < rounds")
    case True
    then have "wait_loop junk t rounds (n + 1) b2 c2 = Some (type, c')" using eq less.prems by simp
    moreover have "rounds - (n + 1) < rounds - n" using True by linarith
    ultimately have "\<exists>k\<ge>1. k \<le> max 1 (rounds - (n + 1)) \<and> select_res c' = drop k (select_res c2)"
      by (intro less.hyps)
    then obtain k where "1 \<le> k" "k \<le> max 1 (rounds - (n + 1))"
      "select_res c' = drop k (select_res c2)" by blast
    with s True show ?thesis by (intro exI [of _ "k + 1"]) auto
  next
    case False
    with eq less.prems s show ?thesis by (intro exI [of _ 1]) auto
  qed
qed

text \<open>
  C36: Waiting for a packet is bounded: \<open>WaitForPacket\<close> polls at least once and at most as often as it
  is told (once when told zero), and it returns 0 or -1. When the socket is readable and a complete
  acknowledgement of the wanted type has arrived it returns 0 after one poll, having consumed
  exactly that packet.
\<close>

theorem wait_for_packet:
  "(WaitForPacket junk stk t rounds c = Some (res, c') \<longrightarrow>
      (res = 0 \<or> res = -1) \<and>
      (\<exists>k \<ge> 1. k \<le> max 1 (unat rounds) \<and> select_res c' = drop k (select_res c))) \<and>
   (select_res c = (1, True) # sel \<and> net_arrived c = packet h body @ r \<and> hdr_type h = t \<and>
      t \<noteq> PUBLISH \<and> t \<noteq> PUBREL \<and> length body < 2 ^ 28 \<and> length (packet h body) \<le> length stk \<longrightarrow>
      (\<exists>c'. WaitForPacket junk stk t rounds c = Some (0, c') \<and> net_arrived c' = r \<and>
        select_res c' = sel \<and> sent c' = sent c \<and> processed c' = processed c))"
proof (intro conjI impI)
  assume "WaitForPacket junk stk t rounds c = Some (res, c')"
  then obtain ty where w: "wait_loop junk t (unat rounds) 0 stk c = Some (ty, c')"
    and "res = (if ty = uint t then 0 else -1)"
    by (auto simp: WaitForPacket_def split: Option.bind_splits)
  then show "res = 0 \<or> res = -1" by simp
  show "\<exists>k \<ge> 1. k \<le> max 1 (unat rounds) \<and> select_res c' = drop k (select_res c)"
    using wait_loop_selects [OF w] by simp
next
  assume a: "select_res c = (1, True) # sel \<and> net_arrived c = packet h body @ r \<and> hdr_type h = t \<and>
      t \<noteq> PUBLISH \<and> t \<noteq> PUBREL \<and> length body < 2 ^ 28 \<and> length (packet h body) \<le> length stk"
  let ?c = "c\<lparr>select_res := sel\<rparr>"
  have "net_arrived ?c = net_arrived c" by (simp add: net_arrived_def)
  then have "net_arrived ?c = packet h body @ r" using a by simp
  from lwip_block.read_packet [OF this, of stk] a obtain b' c' where
    rd: "MQTTPacket_read transport_getdata ?c stk (int (length stk)) = Some (uint t, b', c')"
    and arr: "net_arrived c' = r" by blast
  have "uint t \<noteq> -1" using uint_ge_0 [of t] by linarith
  moreover have "word_of_int (uint t) = t" by simp
  ultimately have "wait_loop junk t (unat rounds) 0 stk c = Some (uint t, c')"
    using a rd by (simp add: wait_loop.simps [of junk t] ReadPacketTimeout_def c_select_def mqtt_pktype_ctl_def)
  then show "\<exists>c'. WaitForPacket junk stk t rounds c = Some (0, c') \<and> net_arrived c' = r \<and>
        select_res c' = sel \<and> sent c' = sent c \<and> processed c' = processed c"
    using arr net_rest_eqs [OF read_net_rest [OF rd]] by (simp add: WaitForPacket_def)
qed

definition client_waiting :: client where
  "client_waiting = client_example\<lparr>select_res := [(0, False), (1, True)],
     tcp := \<lparr>lastdata = None, recvmbox = [Msg_pbuf (packet 0x40 (u16be 7)), Not_yet],
       mbox_valid = True, mbox_closed = False, fin_rx_pending = False, pending_err = 0,
       pcb_null = False, recved = 0\<rparr>\<rparr>"

theorem wait_for_packet_witness:
  "\<exists>c'. WaitForPacket publish_example (replicate 500 0) PUBACK 5 (client_waiting\<lparr>select_res := [(1, True)]\<rparr>) =
     Some (0, c') \<and> net_arrived c' = [] \<and> select_res c' = []"
proof -
  have h: "hdr_type 0x40 = PUBACK" by code_simp
  have a: "net_arrived (client_waiting\<lparr>select_res := [(1, True)]\<rparr>) = packet 0x40 (u16be 7) @ []"
    by (simp add: net_arrived_def client_waiting_def sock_defs packet_def)
  show ?thesis
    using wait_for_packet [of publish_example "replicate 500 0" PUBACK 5
        "client_waiting\<lparr>select_res := [(1, True)]\<rparr>" 0 client_waiting "[]" "0x40" "u16be 7" "[]"] h a
    by (simp add: vbi_small) blast
qed

section \<open>Logging in\<close>

definition connect_packet :: bytes where
  "connect_packet = packet (mk_header CONNECT 0 0 0) (connect_body connect_options)"

lemmas connect_options_defs = connect_options_def MQTTPacket_connectData_initializer_def of_cstring_def
  MQTTString_initializer_def MQTTPacket_willOptions_initializer_def

lemma length_names [simp]: "length CLIENT_ID = 9" "length USER_NAME = 17" "length PASSWORD = 16" "length TOPIC = 14"
  "0 \<notin> set CLIENT_ID" "0 \<notin> set USER_NAME" "0 \<notin> set PASSWORD" "0 \<notin> set TOPIC"
  by (simp_all add: CLIENT_ID_def USER_NAME_def PASSWORD_def TOPIC_def)

lemma of_cstring_simps [simp]:
  "0 \<notin> set s \<Longrightarrow> wf_mqtt_string (of_cstring (c_str s))"
  "0 \<notin> set s \<Longrightarrow> text_of (of_cstring (c_str s)) = s"
  "present (of_cstring s)"
  by (simp_all add: of_cstring_def MQTTString_initializer_def wf_mqtt_string_def text_of_def present_def)

lemma connect_options_simps [simp]:
  "MQTTVersion connect_options = 4" "clientID connect_options = of_cstring (c_str CLIENT_ID)"
  "username connect_options = of_cstring (c_str USER_NAME)" "password connect_options = of_cstring (c_str PASSWORD)"
  "willFlag connect_options = 0" "keepAliveInterval connect_options = 50"
  by (simp_all add: connect_options_def MQTTPacket_connectData_initializer_def)

lemma connect_options_body: "wf_connect connect_options" "length (connect_body connect_options) = 58"
  by (simp_all add: wf_connect_def connect_body_def opt_str_def name_MQTT_def)

lemma client_sends_connect:
  assumes "length stk = 200" and "writes_ok (c :: client)"
  shows "\<exists>buf c1. MQTTSerialize_connect stk (int (length stk)) connect_options = Some (60, buf) \<and>
    length buf = 200 \<and> transport_sendPacketBuffer c buf 60 = Some (60, c1) \<and> sends c connect_packet c1"
proof -
  have l: "length connect_packet = 60"
    by (simp add: connect_packet_def connect_options_body vbi_small)
  let ?b = "connect_packet @ drop 60 stk"
  have "MQTTSerialize_connect stk (int (length stk)) connect_options = Some (60, ?b)"
    using serialize_connect_packet [of connect_options stk] l assms(1)
    by (simp add: connect_options_body MQTTPacket_len_def flip: connect_packet_def)
  moreover from send_ok [OF assms(2), of 60 ?b] l
  obtain c1 where "transport_sendPacketBuffer c ?b 60 = Some (60, c1)" "sends c connect_packet c1"
    using assms(1) by auto
  ultimately show ?thesis using l assms(1) by (intro exI [of _ ?b] exI [of _ c1]) simp
qed

lemma length_packet_read:
  "length (packet h body) \<le> length buf \<Longrightarrow> length (packet h body @ drop (length (packet h body)) buf) = length buf"
  by simp

lemma client_connect:
  assumes stk: "length stk = 200" and w: "writes_ok c" and a: "net_arrived c = packet h [f, code] @ r"
    and h: "hdr_type h = CONNACK"
  shows "\<exists>c'. MQTT_Connect stk jsp jrc c = Some (if code = 0 then Connect_OK else Connect_NOK, c') \<and>
    sent c' = sent c @ [connect_packet] \<and> net_arrived c' = r \<and> writes_ok c'"
proof -
  obtain buf c1 where s: "MQTTSerialize_connect stk (int (length stk)) connect_options = Some (60, buf)"
    "length buf = 200" "transport_sendPacketBuffer c buf 60 = Some (60, c1)" "sends c connect_packet c1"
    using client_sends_connect [OF stk w] by blast
  note c1 = sends_state [OF s(4)]
  have a1: "net_arrived c1 = packet h [f, code] @ r" using a c1 by simp
  have "length [f, code] < 2 ^ 28" "length (packet h [f, code]) \<le> length buf"
    using s(2) by (simp_all add: vbi_small)
  from lwip_block.read_packet [OF a1 this] obtain c2 where
    rd: "MQTTPacket_read transport_getdata c1 buf (int (length buf)) =
      Some (uint (hdr_type h), packet h [f, code] @ drop (length (packet h [f, code])) buf, c2)"
    and arr: "net_arrived c2 = r" by blast
  have pk: "packet h [f, code] = h # 2 # f # code # []" by (simp add: packet_def vbi_small)
  have "MQTTDeserialize_connack jsp jrc (packet h [f, code] @ drop (length (packet h [f, code])) buf) =
      Some (1, take_bit 1 f, code)"
    unfolding pk using deserialize_connack_packet [OF h] by simp
  with s rd h stk arr c1 net_rest_eqs [OF read_net_rest [OF rd]] show ?thesis
    by (intro exI [of _ c2]) (simp add: MQTT_Connect_def writes_ok_def)
qed

text \<open>
  C37: Logging in: the client sends one packet, its CONNECT, and when the server's CONNACK has
  arrived and no write fails, the login succeeds exactly when the CONNACK's return code is 0,
  and the rest of the stream is left to be read.
\<close>

theorem login_follows_connack:
  assumes "length stk = 200" and "writes_ok c" and "net_arrived c = packet (mk_header CONNACK 0 0 0) [f, code] @ r"
  shows "\<exists>res c'. MQTT_Connect stk jsp jrc c = Some (res, c') \<and> (res = Connect_OK \<longleftrightarrow> code = 0) \<and>
    sent c' = sent c @ [connect_packet] \<and> net_arrived c' = r"
  using client_connect [OF assms, of jsp jrc] by (cases "code = 0") auto

definition client_login :: client where
  "client_login = client_example\<lparr>
     tcp := \<lparr>lastdata = None, recvmbox = [Msg_pbuf (packet (mk_header CONNACK 0 0 0) [0, 5])],
       mbox_valid = True, mbox_closed = False, fin_rx_pending = False, pending_err = 0,
       pcb_null = False, recved = 0\<rparr>\<rparr>"

theorem login_follows_connack_witness:
  "\<exists>res c'. MQTT_Connect (replicate 200 0) 0 0 client_login = Some (res, c') \<and> res \<noteq> Connect_OK \<and>
     sent c' = [connect_packet]"
proof -
  have "net_arrived client_login = packet (mk_header CONNACK 0 0 0) [0, 5] @ []" "writes_ok client_login"
    "sent client_login = []"
    by (simp_all add: net_arrived_def client_login_def sock_defs packet_def client_example_def writes_ok_def)
  then show ?thesis
    using login_follows_connack [of "replicate 200 0" client_login 0 5 "[]" 0 0] by auto
qed

section \<open>Subscribing\<close>

definition subscribe_packet :: "u32 \<Rightarrow> bytes \<Rightarrow> int \<Rightarrow> bytes" where
  "subscribe_packet n t q = packet (mk_header SUBSCRIBE 0 1 0)
     (u16be (unat (ucast n :: u16)) @ filters_qos [(of_cstring (c_str t), q)])"

lemma client_sends_subscribe:
  fixes c :: client
  assumes stk: "length stk = 100" and t: "0 \<notin> set t" "length t < 80" and w: "writes_ok c"
  shows "\<exists>b c1. MQTTSerialize_subscribe stk (int (length stk)) 0 (ucast (sub_packet_id c)) 1
        [of_cstring (c_str t)] [q] = Some (int (7 + length t), b) \<and> length b = 100 \<and>
    transport_sendPacketBuffer (c\<lparr>sub_packet_id := sub_packet_id c + 1\<rparr>) b (int (7 + length t)) =
      Some (int (7 + length t), c1) \<and>
    sends (c\<lparr>sub_packet_id := sub_packet_id c + 1\<rparr>) (subscribe_packet (sub_packet_id c) t q) c1"
proof -
  let ?T = "[of_cstring (c_str t)]" and ?i = "ucast (sub_packet_id c) :: u16"
  let ?body = "u16be (unat ?i) @ filters_qos (zip ?T [q])"
  let ?pkt = "subscribe_packet (sub_packet_id c) t q"
  have lb: "length ?body = 5 + length t" using t by simp
  have pkt: "?pkt = packet (mk_header SUBSCRIBE 0 1 0) ?body" by (simp add: subscribe_packet_def)
  have lp: "length ?pkt = 7 + length t" using t by (simp add: pkt vbi_small)
  have n28: "length ?body < 2 ^ 28" and fits: "MQTTPacket_len (int (length ?body)) \<le> int (length stk)"
    unfolding lb using t(2) stk by (simp_all add: MQTTPacket_len_def)
  let ?b = "?pkt @ drop (length ?pkt) stk"
  have ser: "MQTTSerialize_subscribe stk (int (length stk)) 0 ?i 1 ?T [q] = Some (int (length ?pkt), ?b)"
    using serialize_subscribe_emit [of ?T "[q]", OF _ _ fits, of stk 0] t(1)
      emit_packet_result [OF n28 fits, of "mk_header SUBSCRIBE 0 1 0"]
    by (simp add: pkt)
  have "writes_ok (c\<lparr>sub_packet_id := sub_packet_id c + 1\<rparr>)" using w by (simp add: writes_ok_def)
  from send_ok [OF this, of "length ?pkt" ?b] obtain c1 where
    "transport_sendPacketBuffer (c\<lparr>sub_packet_id := sub_packet_id c + 1\<rparr>) ?b (int (length ?pkt)) =
      Some (int (length ?pkt), c1)"
    "sends (c\<lparr>sub_packet_id := sub_packet_id c + 1\<rparr>) ?pkt c1" by auto
  with ser stk t(2) show ?thesis unfolding lp by (intro exI [of _ ?b] exI [of _ c1]) (simp add: lp)
qed

lemma client_subscribe:
  fixes i :: u16
  assumes stk: "length stk = 100" and t: "0 \<notin> set t" "length t < 80" and w: "writes_ok c"
    and sel: "select_res c = (1, True) # sel"
    and a: "net_arrived c = packet h (u16be (unat i) @ [g]) @ r" and h: "hdr_type h = SUBACK"
  shows "\<exists>c'. MQTTSubscribe stk jq (c_str t) q c =
      Some (if g = 0x80 \<or> ucast i \<noteq> sub_packet_id c then -6 else 0, c') \<and>
    sent c' = sent c @ [subscribe_packet (sub_packet_id c) t q] \<and> net_arrived c' = r \<and>
    sub_packet_id c' = sub_packet_id c + 1 \<and> select_res c' = sel \<and> writes_ok c'"
proof -
  let ?c = "c\<lparr>sub_packet_id := sub_packet_id c + 1\<rparr>"
  obtain b c1 where ser: "MQTTSerialize_subscribe stk (int (length stk)) 0 (ucast (sub_packet_id c)) 1
        [of_cstring (c_str t)] [q] = Some (int (7 + length t), b)" "length b = 100"
    and snd: "transport_sendPacketBuffer ?c b (int (7 + length t)) = Some (int (7 + length t), c1)"
    and c1: "sends ?c (subscribe_packet (sub_packet_id c) t q) c1"
    using client_sends_subscribe [OF stk t w] by blast
  note c1 = sends_state [OF c1] sends_client [OF c1]
  have "net_arrived ?c = net_arrived c" by (simp add: net_arrived_def)
  moreover have "net_arrived (c1\<lparr>select_res := sel\<rparr>) = net_arrived c1" by (simp add: net_arrived_def)
  ultimately have arr1: "net_arrived (c1\<lparr>select_res := sel\<rparr>) = packet h (u16be (unat i) @ [g]) @ r"
    using a c1(3) by simp
  have n28: "length (u16be (unat i) @ [g]) < 2 ^ 28" by simp
  have "length (packet h (u16be (unat i) @ [g])) \<le> length b"
    unfolding ser(2) by (simp add: vbi_small)
  from lwip_block.read_packet [OF arr1 n28 this] obtain b2 c2 where
    rd: "MQTTPacket_read transport_getdata (c1\<lparr>select_res := sel\<rparr>) b (int (length b)) =
      Some (uint (hdr_type h), b2, c2)" and arr: "net_arrived c2 = r"
    and b2: "b2 = packet h (u16be (unat i) @ [g]) @ drop (length (packet h (u16be (unat i) @ [g]))) b" by blast
  from deserialize_suback_loop [OF b2 n28 h, of 0 1 0 "[jq]" "int (length stk)"] obtain cur where
    cur: "drop cur b2 = [g] @ drop (length (packet h (u16be (unat i) @ [g]))) b" and
    des: "MQTTDeserialize_suback 0 1 0 [jq] b2 (int (length stk)) = do {
      (rc, count, qs) \<leftarrow> suback_loop b2 cur (int cur + int (length [g])) 1 0 [jq]; Some (rc, i, count, qs) }"
    by blast
  have des': "MQTTDeserialize_suback 0 1 0 [jq] b2 (int (length stk)) = Some (1, i, 1, [uint g])"
    unfolding des using suback_loop_reads [OF cur, of 0 "[jq]" 1] by simp
  have "uint g = uint (0x80 :: u8) \<longleftrightarrow> g = 0x80" by (simp only: word_uint_eq_iff)
  then have g: "uint g = 128 \<longleftrightarrow> g = 0x80" by simp
  note c2 = net_rest_eqs [OF read_net_rest [OF rd]]
  have "MQTTSubscribe stk jq (c_str t) q c =
      Some (if uint g = 128 \<or> ucast i \<noteq> sub_packet_id c2 - 1 then -6 else 0, c2)"
    using ser snd rd h des' sel c1(7) stk
    by (simp add: MQTTSubscribe_def c_select_def rd_def del: of_nat_add)
  then show ?thesis using c2 c1 arr by (intro exI [of _ c2]) (simp add: g writes_ok_def)
qed

text \<open>
  Subscribing: the client sends one SUBSCRIBE with the low 16 bits of its counter as the packet
  identifier and counts up; when the answer has arrived, it succeeds exactly when the server granted the
  subscription and answered with the counter's value. So from the 65537th subscription on, when the
  counter does not fit an identifier any more, even the right answer is refused.
\<close>

theorem subscribe_result:
  fixes i :: u16
  assumes "length stk = 100" and "0 \<notin> set t" and "length t < 80" and "writes_ok c"
    and "select_res c = (1, True) # sel"
    and "net_arrived c = packet (mk_header SUBACK 0 0 0) (u16be (unat i) @ [g]) @ r"
  shows "\<exists>res c'. MQTTSubscribe stk jq (c_str t) q c = Some (res, c') \<and>
    (res = 0 \<longleftrightarrow> g \<noteq> 0x80 \<and> ucast i = sub_packet_id c) \<and>
    sent c' = sent c @ [subscribe_packet (sub_packet_id c) t q] \<and> net_arrived c' = r \<and>
    sub_packet_id c' = sub_packet_id c + 1 \<and>
    (65536 \<le> sub_packet_id c \<longrightarrow> res = -6)"
proof -
  have h: "hdr_type (mk_header SUBACK 0 0 0) = SUBACK" by simp
  have "unat (ucast i :: u32) < 65536"
    unfolding unsigned_ucast_eq by (rule le_less_trans [OF take_bit_nat_less_eq_self unat_u16_lt])
  then have "65536 \<le> sub_packet_id c \<Longrightarrow> ucast i \<noteq> sub_packet_id c"
    by (auto simp: word_le_nat_alt)
  with client_subscribe [OF assms h, of jq q] show ?thesis by (auto split: if_splits)
qed

definition client_subscribed :: client where
  "client_subscribed = client_example\<lparr>select_res := [(1, True)], sub_packet_id := 65536,
     tcp := \<lparr>lastdata = None, recvmbox = [Msg_pbuf (packet (mk_header SUBACK 0 0 0) (u16be (unat (0 :: u16)) @ [1]))],
       mbox_valid = True, mbox_closed = False, fin_rx_pending = False, pending_err = 0,
       pcb_null = False, recved = 0\<rparr>\<rparr>"

theorem subscribe_result_witness:
  "\<exists>c'. MQTTSubscribe (replicate 100 0) 0 (c_str [0x74]) 1 client_subscribed = Some (-6, c') \<and>
     sub_packet_id c' = 65537"
proof -
  have "net_arrived client_subscribed = packet (mk_header SUBACK 0 0 0) (u16be (unat (0 :: u16)) @ [1]) @ []"
    by (simp add: net_arrived_def client_subscribed_def sock_defs packet_def client_example_def)
  moreover have "writes_ok client_subscribed" "select_res client_subscribed = (1, True) # []"
    "sub_packet_id client_subscribed = 65536"
    by (simp_all add: client_subscribed_def client_example_def writes_ok_def)
  ultimately show ?thesis
    using subscribe_result [of "replicate 100 0" "[0x74]" client_subscribed "[]" 0 1 "[]" 0 1] by auto
qed

section \<open>Publishing\<close>

text \<open>
  C40: The payload the client publishes is not the message: its length is taken with
  \<open>strlen\<close> from whatever object the uninitialised length variable points to. For QoS 0 exactly
  as many bytes of the message as that string is long are sent, and if the variable points to no
  terminated string the behaviour is undefined, whatever the message.
\<close>

theorem publish_uses_garbage_length:
  assumes "0 \<notin> set t" and "length t + n < 480" and "n \<le> length msg" and "length stk = MSG_MAX_LEN" and "writes_ok c"
  shows "(c_strlen garbage = Some n \<longrightarrow>
      (\<exists>c'. MQTTMsgPublish junk stk wstk garbage jid (c_str t) 0 msg c = Some (0, c') \<and>
        sent c' = sent c @ [publish_packet (mk_header PUBLISH 0 0 0) t 0 (take n msg)])) \<and>
    (c_strlen garbage = None \<longrightarrow> MQTTMsgPublish junk stk wstk garbage jid (c_str t) 0 msg c = None)"
proof (intro conjI impI)
  assume g: "c_strlen garbage = Some n"
  let ?T = "of_cstring (c_str t)" and ?x = "take n msg"
  let ?pkt = "publish_packet (mk_header PUBLISH 0 0 0) t 0 ?x"
  have b: "length (publish_body 0 (text_of ?T) 0 ?x) = 2 + length t + n"
    using assms(1,3) by (simp add: length_publish_body)
  have n28: "length (publish_body 0 (text_of ?T) 0 ?x) < 2 ^ 28"
    and fits: "MQTTPacket_len (int (length (publish_body 0 (text_of ?T) 0 ?x))) \<le> int (length stk)"
    unfolding b using assms(2,4) by (simp_all add: MQTTPacket_len_def Let_def)
  have pkt: "?pkt = packet (mk_header PUBLISH 0 (word_of_int 0) 0) (publish_body 0 (text_of ?T) 0 ?x)"
    using assms(1) by (simp add: publish_packet_def)
  have eq: "MQTTSerialize_publish stk (int (length stk)) 0 0 0 0 ?T msg (int n) =
      MQTTSerialize_publish stk (int (length stk)) 0 0 0 0 ?T ?x (int (length ?x))"
  proof -
    have copy: "copy_payload w msg (int n) = copy_payload w ?x (int n)" for w
      using assms(3) by (simp add: copy_payload_def rd_bytes_def)
    have len: "int (length ?x) = int n" using assms(3) by simp
    show ?thesis unfolding MQTTSerialize_publish_def len copy by (rule refl)
  qed
  have ser: "MQTTSerialize_publish stk (int (length stk)) 0 0 0 0 ?T msg (int n) =
      Some (int (length ?pkt), ?pkt @ drop (length ?pkt) stk)"
    unfolding eq pkt using assms(1) by (intro serialize_publish_packet n28 fits) simp
  from send_ok [OF assms(5), of "length ?pkt" "?pkt @ drop (length ?pkt) stk"] obtain c' where
    "transport_sendPacketBuffer c (?pkt @ drop (length ?pkt) stk) (int (length ?pkt)) = Some (int (length ?pkt), c')"
    "sends c ?pkt c'" by auto
  moreover have "0 < length ?pkt" by (simp add: publish_packet_def)
  ultimately show "\<exists>c'. MQTTMsgPublish junk stk wstk garbage jid (c_str t) 0 msg c = Some (0, c') \<and>
        sent c' = sent c @ [?pkt]"
    using g ser sends_state(1) by (intro exI [of _ c']) (simp add: MQTTMsgPublish_def)
qed (simp add: MQTTMsgPublish_def)

theorem publish_uses_garbage_length_witness:
  "\<exists>c'. MQTTMsgPublish publish_example (replicate 500 0) [] [0x41, 0] 0 (c_str [0x74]) 0 [1, 2, 3, 0] client_example =
     Some (0, c') \<and> sent c' = [publish_packet (mk_header PUBLISH 0 0 0) [0x74] 0 [1]]"
  using publish_uses_garbage_length [of "[0x74]" 1 "[1, 2, 3, 0]" "replicate 500 0" client_example "[0x41, 0]"
      publish_example "[]" 0] by simp
end
