(* ===== verification/MQTT_Task.thy ===== *)
theory MQTT_Task
  imports MQTT_Client
begin

text \<open>
  The task \<open>mqtt_thread\<close> of \<open>User/mqttclient.c\<close> with \<open>Client_Connect\<close>: a state machine over the
  client. Each state is a place of the code between two calls that talk to the network;
  \<open>goto MQTT_START\<close>, \<open>goto CLOSE\<close> and the loops of the code are its transitions.
\<close>

section \<open>State\<close>

datatype phase = Opening | Logging_in | Subscribing | Looping | Closing

record task =
  cl :: client
  phase :: phase
  curtick :: u32
  no_mqtt_msg_exchange :: u8
  task_buf :: bytes

text \<open>What the uninitialised locals of the called functions contain.\<close>

record locals =
  stk_connect :: bytes
  stk_subscribe :: bytes
  stk_ping :: bytes
  junk_session :: u8
  junk_code :: u8
  junk_granted :: int
  junk_publish :: publish_data

section \<open>Transitions\<close>

text \<open>
  \<open>Client_Connect\<close>: open the connection, again after 3000 ticks when it fails; log in and
  subscribe, and close and start over when either fails.
\<close>

definition task_open :: "task \<Rightarrow> task" where
  "task_open t = (case transport_open (cl t) of (s, c) \<Rightarrow>
     if s \<ge> 0 then t\<lparr>cl := c, phase := Logging_in\<rparr>
     else t\<lparr>cl := c\<lparr>tick := tick c + 3000\<rparr>\<rparr>)"

definition task_login :: "locals \<Rightarrow> task \<Rightarrow> task option" where
  "task_login l t = do {
     (r, c) \<leftarrow> MQTT_Connect (stk_connect l) (junk_session l) (junk_code l) (cl t);
     Some (t\<lparr>cl := c, phase := (if r \<noteq> Connect_OK then Closing else Subscribing)\<rparr>) }"

definition task_subscribe :: "locals \<Rightarrow> task \<Rightarrow> task option" where
  "task_subscribe l t = do {
     (r, c) \<leftarrow> MQTTSubscribe (stk_subscribe l) (junk_granted l) (c_str TOPIC) 1 (cl t);
     Some (if r < 0 then t\<lparr>cl := c, phase := Closing\<rparr>
           else t\<lparr>cl := c, phase := Looping, curtick := tick c\<rparr>) }"

definition task_close :: "task \<Rightarrow> task" where
  "task_close t = (case transport_close (cl t) of (_, c) \<Rightarrow> t\<lparr>cl := c, phase := Opening\<rparr>)"

text \<open>One round of the endless loop: read a packet when there is one, then keep the session alive.\<close>

definition task_receive :: "locals \<Rightarrow> task \<Rightarrow> task option" where
  "task_receive l t =
     (case c_select (cl t) of (_, isset, c) \<Rightarrow>
       let t = t\<lparr>cl := c, no_mqtt_msg_exchange := 1\<rparr>
       in if isset then do {
            (type, buf, c) \<leftarrow> ReadPacketTimeout (task_buf t) (int (length (task_buf t))) 50 c;
            if type \<noteq> -1 then do {
              (buf, c) \<leftarrow> mqtt_pktype_ctl (junk_publish l) (word_of_int type) buf (int (length buf)) c;
              Some (t\<lparr>cl := c, no_mqtt_msg_exchange := 0, curtick := tick c, task_buf := buf\<rparr>) }
            else Some (t\<lparr>cl := c, task_buf := buf\<rparr>) }
          else Some t)"

definition task_keepalive :: "locals \<Rightarrow> task \<Rightarrow> task option" where
  "task_keepalive l t =
     (if tick (cl t) - curtick t > 25000 then
        (let t = t\<lparr>curtick := tick (cl t)\<rparr>
         in if no_mqtt_msg_exchange t = 0 then Some t
            else do {
              (r, c) \<leftarrow> MQTT_PingReq (stk_ping l) (cl t);
              Some (if r < 0 then t\<lparr>cl := c, phase := Closing\<rparr>
                    else t\<lparr>cl := c, no_mqtt_msg_exchange := 0\<rparr>) })
      else Some t)"

definition task_loop :: "locals \<Rightarrow> task \<Rightarrow> task option" where
  "task_loop l t = do { t \<leftarrow> task_receive l t; task_keepalive l t }"

definition task_step :: "locals \<Rightarrow> task \<Rightarrow> task option" where
  "task_step l t = (case phase t of
     Opening \<Rightarrow> Some (task_open t)
   | Logging_in \<Rightarrow> task_login l t
   | Subscribing \<Rightarrow> task_subscribe l t
   | Looping \<Rightarrow> task_loop l t
   | Closing \<Rightarrow> Some (task_close t))"

text \<open>
  The runs of the task: between two steps time may pass, and the scripts of the environment
  (what arrives, what the next calls of \<open>select\<close> and \<open>open\<close> answer) may be anything; only writes are
  assumed to succeed. \<open>locals_ok\<close> gives the local buffers their sizes.
\<close>

definition locals_ok :: "locals \<Rightarrow> bool" where
  "locals_ok l \<longleftrightarrow> length (stk_connect l) = 200 \<and> length (stk_subscribe l) = 100 \<and> length (stk_ping l) = 200"

inductive reach :: "task \<Rightarrow> bool" where
  start: "phase t = Opening \<Longrightarrow> writes_ok (cl t) \<Longrightarrow> reach t"
| step: "reach t \<Longrightarrow> locals_ok l \<Longrightarrow> task_step l t = Some t' \<Longrightarrow> reach t'"
| environment: "reach t \<Longrightarrow> sent c = sent (cl t) \<Longrightarrow> sub_packet_id c = sub_packet_id (cl t) \<Longrightarrow>
    user_msg c = user_msg (cl t) \<Longrightarrow> writes_ok c \<Longrightarrow> reach (t\<lparr>cl := c\<rparr>)"

section \<open>What is sent on a connection\<close>

definition extends :: "'a net_scheme \<Rightarrow> 'a net_scheme \<Rightarrow> bool" where
  "extends c c' \<longleftrightarrow> (\<exists>xs. sent c' = sent c @ xs) \<and> (writes_ok c \<longrightarrow> writes_ok c')"

lemma extends_refl [intro, simp]: "extends c c"
  by (simp add: extends_def)

lemma extends_trans [trans]: "extends a b \<Longrightarrow> extends b c \<Longrightarrow> extends a c"
  by (auto simp: extends_def)

lemma extends_send: "transport_sendPacketBuffer c buf n = Some (r, c') \<Longrightarrow> extends c c'"
  by (auto simp: transport_sendPacketBuffer_def extends_def writes_ok_def
      split: if_splits Option.bind_splits list.splits)

lemma extends_read: "MQTTPacket_read transport_getdata c buf n = Some (rc, buf', c') \<Longrightarrow> extends (c :: client) c'"
  using net_rest_eqs [OF read_net_rest] by (simp add: extends_def writes_ok_def)

lemma extends_UserMsgCtl [simp]: "extends c (UserMsgCtl c')  = extends c c'"
  by (simp add: extends_def)

lemma extends_user_msg [simp]: "extends (c\<lparr>user_msg := u\<rparr>) c' = extends c c'"
  by (simp add: extends_def)

lemma extends_UserMsgCtl' [simp]: "extends (UserMsgCtl c) c' = extends c c'"
  by (simp add: extends_def)

lemma extends_pktype:
  assumes "mqtt_pktype_ctl junk t buf n c = Some (buf', c')"
  shows "extends c c'"
proof -
  have "pktype_publish junk buf n c = Some (buf', c') \<Longrightarrow> extends c c'" for junk buf c
    by (auto simp: pktype_publish_def Let_def dest!: extends_send split: if_splits Option.bind_splits)
       (auto simp: extends_def writes_ok_def)
  moreover have "pktype_pubrel i buf n c = Some (buf', c') \<Longrightarrow> extends c c'" for i buf c
    by (auto simp: pktype_pubrel_def Let_def dest!: extends_send split: if_splits Option.bind_splits)
  ultimately show ?thesis
    using assms by (auto simp: mqtt_pktype_ctl_def split: if_splits)
qed

lemma select_state:
  "c_select c = (r, b, c') \<Longrightarrow> sent c' = sent c \<and> write_res c' = write_res c \<and> tick c' = tick c \<and>
    sub_packet_id c' = sub_packet_id c \<and> user_msg c' = user_msg c"
  by (auto simp: c_select_def split: list.splits)

lemma extends_select: "c_select c = (r, b, c') \<Longrightarrow> extends c c'"
  using select_state [of c r b c'] by (simp add: extends_def writes_ok_def)

lemma extends_ping: "MQTT_PingReq stk c = Some (r, c') \<Longrightarrow> extends c c'"
  by (auto simp: MQTT_PingReq_def Let_def split: if_splits Option.bind_splits prod.splits
      dest!: extends_send extends_read extends_select intro: extends_trans)

lemma extends_rpt: "ReadPacketTimeout buf n k c = Some (r, buf', c') \<Longrightarrow> extends c c'"
  by (auto simp: ReadPacketTimeout_def split: if_splits prod.splits
      dest!: extends_read extends_select intro: extends_trans)

lemma login_sends:
  assumes "MQTT_Connect stk a b c = Some (r, c')" and "length stk = 200" and "writes_ok c"
  shows "sent c' = sent c @ [connect_packet] \<and> writes_ok c'"
proof -
  obtain buf c1 where s: "MQTTSerialize_connect stk (int (length stk)) connect_options = Some (60, buf)"
    "transport_sendPacketBuffer c buf 60 = Some (60, c1)" "sends c connect_packet c1"
    using client_sends_connect [OF assms(2,3)] by blast
  with assms(1) obtain ty b2 where
    "MQTTPacket_read transport_getdata c1 buf (int (length stk)) = Some (ty, b2, c')"
    by (auto simp: MQTT_Connect_def split: Option.bind_splits if_splits)
  with s(3) sends_state [OF s(3)] show ?thesis
    using net_rest_eqs [OF read_net_rest] by (simp add: writes_ok_def)
qed

lemma subscribe_sends:
  assumes r: "MQTTSubscribe stk jq (c_str TOPIC) 1 c = Some (r, c')" and "length stk = 100" and "writes_ok c"
    and "0 \<le> r"
  shows "sent c' = sent c @ [subscribe_packet (sub_packet_id c) TOPIC 1] \<and> writes_ok c'"
proof -
  obtain buf c1 where s: "MQTTSerialize_subscribe stk (int (length stk)) 0 (ucast (sub_packet_id c)) 1
      [of_cstring (c_str TOPIC)] [1] = Some (21, buf)"
    "transport_sendPacketBuffer (c\<lparr>sub_packet_id := sub_packet_id c + 1\<rparr>) buf 21 = Some (21, c1)"
    "sends (c\<lparr>sub_packet_id := sub_packet_id c + 1\<rparr>) (subscribe_packet (sub_packet_id c) TOPIC 1) c1"
    using client_sends_subscribe [of stk TOPIC c 1] assms(2,3) by auto
  with r assms(4) obtain s2 ty b2 where "MQTTPacket_read transport_getdata s2 buf (int (length stk)) = Some (ty, b2, c')"
    and "extends c1 s2" "sent s2 = sent c1"
    by (auto simp: MQTTSubscribe_def Let_def split: Option.bind_splits if_splits prod.splits dest: extends_select select_state)
  with s(3) sends_state [OF s(3)] show ?thesis
    using net_rest_eqs [OF read_net_rest] by (simp add: writes_ok_def extends_def)
qed

lemma extends_subscribe: "MQTTSubscribe stk jq tp q c = Some (r, c') \<Longrightarrow> extends c c'"
  by (auto simp: MQTTSubscribe_def Let_def extends_def writes_ok_def split: if_splits Option.bind_splits prod.splits
      dest!: extends_send extends_read select_state)

section \<open>Invariants of the task\<close>

definition session :: "bytes list \<Rightarrow> bool" where
  "session xs \<longleftrightarrow> (\<exists>n rest. xs = connect_packet # subscribe_packet n TOPIC 1 # rest)"

definition task_inv :: "task \<Rightarrow> bool" where
  "task_inv t \<longleftrightarrow> writes_ok (cl t) \<and>
     (phase t = Logging_in \<longrightarrow> sent (cl t) = []) \<and>
     (phase t = Subscribing \<longrightarrow> sent (cl t) = [connect_packet]) \<and>
     (phase t = Looping \<longrightarrow> session (sent (cl t)))"

lemma session_extends: "session (sent c) \<Longrightarrow> extends c c' \<Longrightarrow> session (sent c')"
  by (auto simp: session_def extends_def)

lemma extends_writes: "extends c c' \<Longrightarrow> writes_ok c \<Longrightarrow> writes_ok c'"
  by (simp add: extends_def)

lemma task_receive_inv:
  assumes "task_receive l t = Some t'"
  shows "extends (cl t) (cl t') \<and> phase t' = phase t"
  using assms
  by (auto simp: task_receive_def Let_def split: if_splits Option.bind_splits prod.splits
      dest!: extends_select extends_rpt extends_pktype intro: extends_trans)

lemma task_keepalive_inv:
  assumes "task_keepalive l t = Some t'"
  shows "extends (cl t) (cl t') \<and> (phase t' = phase t \<or> phase t' = Closing)"
  using assms
  by (auto simp: task_keepalive_def Let_def split: if_splits Option.bind_splits dest!: extends_ping)

lemma task_step_inv:
  assumes "task_step l t = Some t'" and "locals_ok l" and "task_inv t"
  shows "task_inv t'"
proof (cases "phase t")
  case Opening
  with assms show ?thesis
    by (auto simp: task_step_def task_open_def transport_open_def task_inv_def writes_ok_def
        split: list.splits option.splits)
next
  case Logging_in
  with assms obtain r c where r: "MQTT_Connect (stk_connect l) (junk_session l) (junk_code l) (cl t) = Some (r, c)"
    and t': "t' = t\<lparr>cl := c, phase := (if r \<noteq> Connect_OK then Closing else Subscribing)\<rparr>"
    by (auto simp: task_step_def task_login_def split: Option.bind_splits)
  with login_sends [OF r] assms Logging_in show ?thesis
    by (simp add: task_inv_def locals_ok_def)
next
  case Subscribing
  with assms obtain r c where r: "MQTTSubscribe (stk_subscribe l) (junk_granted l) (c_str TOPIC) 1 (cl t) = Some (r, c)"
    and t': "t' = (if r < 0 then t\<lparr>cl := c, phase := Closing\<rparr>
       else t\<lparr>cl := c, phase := Looping, curtick := tick c\<rparr>)"
    by (auto simp: task_step_def task_subscribe_def split: Option.bind_splits)
  have "extends (cl t) c" by (rule extends_subscribe [OF r])
  with r t' subscribe_sends [OF r] assms Subscribing show ?thesis
    by (auto simp: task_inv_def locals_ok_def session_def dest: extends_writes)
next
  case Looping
  with assms obtain t1 where 1: "task_receive l t = Some t1" and 2: "task_keepalive l t1 = Some t'"
    by (auto simp: task_step_def task_loop_def split: Option.bind_splits)
  from task_receive_inv [OF 1] task_keepalive_inv [OF 2] Looping assms(3) show ?thesis
    by (auto simp: task_inv_def dest: extends_writes session_extends)
next
  case Closing
  with assms show ?thesis
    by (auto simp: task_step_def task_close_def transport_close_def task_inv_def writes_ok_def split: prod.splits)
qed

lemma reach_inv: "reach t \<Longrightarrow> task_inv t"
proof (induction rule: reach.induct)
  case (start t)
  then show ?case by (simp add: task_inv_def)
next
  case (step t l t')
  then show ?case using task_step_inv by blast
next
  case (environment t c)
  then show ?case by (simp add: task_inv_def)
qed


definition task_example :: task where
  "task_example = \<lparr>cl = client_example\<lparr>open_res := [Some closed_sock]\<rparr>, phase = Opening, curtick = 0,
     no_mqtt_msg_exchange = 1, task_buf = replicate 500 0\<rparr>"

definition locals_example :: locals where
  "locals_example = \<lparr>stk_connect = replicate 200 0, stk_subscribe = replicate 100 0, stk_ping = replicate 200 0,
     junk_session = 0, junk_code = 0, junk_granted = 0, junk_publish = publish_example\<rparr>"


section \<open>Keeping the session alive\<close>

lemma tick_read:
  "MQTTPacket_read transport_getdata c buf n = Some (rc, buf', c') \<Longrightarrow> tick (c' :: client) = tick c"
  using read_net_rest [of c buf n rc buf' c'] by (cases c; cases c') (simp add: net_rest_def)

lemma tick_send: "transport_sendPacketBuffer c buf n = Some (r, c') \<Longrightarrow> tick (c' :: client) = tick c"
  by (auto simp: transport_sendPacketBuffer_def split: if_splits Option.bind_splits list.splits)

lemma tick_ping: "MQTT_PingReq stk c = Some (r, c') \<Longrightarrow> tick c' = tick c"
  by (auto simp: MQTT_PingReq_def Let_def split: if_splits Option.bind_splits prod.splits
      dest!: tick_send tick_read select_state)


definition task_idle :: task where
  "task_idle = task_example\<lparr>phase := Looping, curtick := 100, cl := client_example\<lparr>tick := 10000\<rparr>\<rparr>"

end
