(* ===== verification/RTOS_Chain.thy ===== *)
theory RTOS_Chain
  imports C_Prelude
begin

text \<open>
  Chains of pointers: the sequence of the nodes that following one pointer field visits. The
  lists of the kernel and the free list of its heap are chains in this sense.
\<close>

fun chain :: "('a \<Rightarrow> 'a) \<Rightarrow> 'a list \<Rightarrow> bool" where
  "chain f (a # b # r) = (f a = b \<and> chain f (b # r))"
| "chain f _ = True"

lemma chain_split: "chain f (as @ a # bs) \<longleftrightarrow> chain f (as @ [a]) \<and> chain f (a # bs)"
proof (induction as)
  case Nil
  then show ?case by simp
next
  case (Cons x as)
  then show ?case by (cases as) auto
qed

lemma chain_cong: "(\<And>x. x \<in> set (butlast xs) \<Longrightarrow> f x = g x) \<Longrightarrow> chain f xs = chain g xs"
  by (induction f xs rule: chain.induct) auto

lemma chain_upd: "x \<notin> set (butlast xs) \<Longrightarrow> chain (f(x := y)) xs = chain f xs"
  by (rule chain_cong) auto

text \<open>A new node between two neighbours, and a node taken out.\<close>

lemma chain_insert:
  assumes "chain f (as @ a # b # bs)" and "x \<notin> set (as @ a # b # bs)"
    and "distinct (as @ [a])" "a \<notin> set (butlast (b # bs))"
  shows "chain (f(x := b, a := x)) (as @ a # x # b # bs)"
proof -
  have n: "x \<notin> set (butlast (as @ [a]))" "a \<notin> set (butlast (as @ [a]))" "x \<notin> set (butlast (b # bs))" "x \<noteq> a"
    using assms by (auto dest: in_set_butlastD)
  have c: "chain f (as @ [a])" "chain f (b # bs)"
    using assms(1) by (simp_all add: chain_split [of f as a "b # bs"])
  have "chain (f(x := b, a := x)) (as @ [a])" "chain (f(x := b, a := x)) (b # bs)"
    using c n assms(4) by (metis chain_upd)+
  then show ?thesis
    using \<open>x \<noteq> a\<close> by (simp add: chain_split [of _ as a "x # b # bs"])
qed

lemma chain_remove:
  assumes "chain f (as @ a # x # b # bs)" and "distinct (as @ [a, x])" "a \<notin> set (butlast (b # bs))"
  shows "chain (f(a := b)) (as @ a # b # bs)"
proof -
  have n: "a \<notin> set (butlast (as @ [a]))" using assms(2) by auto
  have c: "chain f (as @ [a])" "chain f (b # bs)"
    using assms(1) by (simp_all add: chain_split [of f as a "x # b # bs"])
  have "chain (f(a := b)) (as @ [a])" "chain (f(a := b)) (b # bs)"
    using c n assms(3) by (metis chain_upd)+
  then show ?thesis by (simp add: chain_split [of _ as a "b # bs"])
qed

text \<open>The same on a chain cut in two at the place of the change.\<close>

lemma chain_next: "chain f (xs @ ys) \<Longrightarrow> xs \<noteq> [] \<Longrightarrow> ys \<noteq> [] \<Longrightarrow> f (last xs) = hd ys"
  by (induction f xs rule: chain.induct) (auto simp: neq_Nil_conv)

lemma chain_splice:
  assumes "chain f (xs @ ys)" "distinct (xs @ p # ys)" "xs \<noteq> []" "ys \<noteq> []"
  shows "chain (f(p := hd ys, last xs := p)) (xs @ p # ys)"
proof -
  obtain us a where xs: "xs = us @ [a]" using assms(3) by (cases xs rule: rev_cases) auto
  obtain b vs where ys: "ys = b # vs" using assms(4) by (cases ys) auto
  have "a \<notin> set (butlast (b # vs))" using assms(2) unfolding xs ys by (metis in_set_butlastD distinct_append
        append_assoc Cons_eq_appendI disjoint_iff in_set_conv_decomp list.set_intros(2))
  then show ?thesis using chain_insert [of f us a b vs p] assms(1,2) unfolding xs ys by auto
qed

lemma chain_cut:
  assumes "chain f (xs @ q # ys)" "distinct (xs @ q # ys)" "xs \<noteq> []" "ys \<noteq> []"
  shows "chain (f(last xs := f q)) (xs @ ys)" and "f q = hd ys" and "f (last xs) = q"
proof -
  obtain us a where xs: "xs = us @ [a]" using assms(3) by (cases xs rule: rev_cases) auto
  obtain b vs where ys: "ys = b # vs" using assms(4) by (cases ys) auto
  have n: "a \<notin> set (butlast (b # vs))" using assms(2) unfolding xs ys by (metis in_set_butlastD distinct_append
        append_assoc Cons_eq_appendI disjoint_iff in_set_conv_decomp list.set_intros(2))
  have "chain f (us @ a # q # b # vs)" using assms(1) by (simp add: xs ys)
  from iffD1 [OF chain_split this] have q: "f q = b" "f a = q" by simp_all
  then show "f q = hd ys" "f (last xs) = q" by (simp_all add: xs ys)
  show "chain (f(last xs := f q)) (xs @ ys)"
    using chain_remove [of f us a q b vs] assms(1,2) n q(1) unfolding xs ys by simp
qed

end
