(* ===== verification/RTOS_List.thy ===== *)
theory RTOS_List
  imports RTOS_Chain "HOL-Library.Multiset"
begin

text \<open>
  The doubly linked lists of the kernel, \<open>FreeRTOS/src/list.c\<close>, at the level of pointers:
  a store of list items and a store of list headers. The end marker \<open>xListEnd\<close> of a list is a
  node like the others, found at the pointer \<open>End l\<close>. The abstract view of a list is the sequence
  of its items with the position of \<open>pxIndex\<close>; every operation is shown to refine one on it.
\<close>

section \<open>The store\<close>

datatype ptr = Item nat | End nat

record list_item =
  xItemValue :: u32
  pxNext :: ptr
  pxPrevious :: ptr
  pvOwner :: nat
  pxContainer :: "nat option"

record xlist =
  uxNumberOfItems :: u32
  pxIndex :: ptr

record lmem =
  nodes :: "ptr \<Rightarrow> list_item"
  lists :: "nat \<Rightarrow> xlist"

abbreviation (input) portMAX_DELAY :: u32 where "portMAX_DELAY \<equiv> 0xFFFFFFFF"

definition set_value :: "ptr \<Rightarrow> u32 \<Rightarrow> lmem \<Rightarrow> lmem" where
  "set_value p v m = m\<lparr>nodes := (nodes m)(p := (nodes m p)\<lparr>xItemValue := v\<rparr>)\<rparr>"

definition set_next :: "ptr \<Rightarrow> ptr \<Rightarrow> lmem \<Rightarrow> lmem" where
  "set_next p q m = m\<lparr>nodes := (nodes m)(p := (nodes m p)\<lparr>pxNext := q\<rparr>)\<rparr>"

definition set_prev :: "ptr \<Rightarrow> ptr \<Rightarrow> lmem \<Rightarrow> lmem" where
  "set_prev p q m = m\<lparr>nodes := (nodes m)(p := (nodes m p)\<lparr>pxPrevious := q\<rparr>)\<rparr>"

definition set_container :: "ptr \<Rightarrow> nat option \<Rightarrow> lmem \<Rightarrow> lmem" where
  "set_container p l m = m\<lparr>nodes := (nodes m)(p := (nodes m p)\<lparr>pxContainer := l\<rparr>)\<rparr>"

definition set_index :: "nat \<Rightarrow> ptr \<Rightarrow> lmem \<Rightarrow> lmem" where
  "set_index l p m = m\<lparr>lists := (lists m)(l := (lists m l)\<lparr>pxIndex := p\<rparr>)\<rparr>"

definition set_count :: "nat \<Rightarrow> u32 \<Rightarrow> lmem \<Rightarrow> lmem" where
  "set_count l n m = m\<lparr>lists := (lists m)(l := (lists m l)\<lparr>uxNumberOfItems := n\<rparr>)\<rparr>"

abbreviation nxt :: "lmem \<Rightarrow> ptr \<Rightarrow> ptr" where "nxt m p \<equiv> pxNext (nodes m p)"
abbreviation prv :: "lmem \<Rightarrow> ptr \<Rightarrow> ptr" where "prv m p \<equiv> pxPrevious (nodes m p)"
abbreviation val :: "lmem \<Rightarrow> ptr \<Rightarrow> u32" where "val m p \<equiv> xItemValue (nodes m p)"
abbreviation owner :: "lmem \<Rightarrow> ptr \<Rightarrow> nat" where "owner m p \<equiv> pvOwner (nodes m p)"
abbreviation container :: "lmem \<Rightarrow> ptr \<Rightarrow> nat option" where "container m p \<equiv> pxContainer (nodes m p)"
abbreviation index_of :: "lmem \<Rightarrow> nat \<Rightarrow> ptr" where "index_of m l \<equiv> pxIndex (lists m l)"
abbreviation count_of :: "lmem \<Rightarrow> nat \<Rightarrow> u32" where "count_of m l \<equiv> uxNumberOfItems (lists m l)"

named_theorems list_simps \<open>the store after the updates of a list operation\<close>

lemma setters_other [list_simps]:
  "nodes (set_index l p m) = nodes m" "nodes (set_count l n m) = nodes m"
  "lists (set_next p q m) = lists m" "lists (set_prev p q m) = lists m"
  "lists (set_container p c m) = lists m" "lists (set_value p v m) = lists m"
  by (auto simp: set_next_def set_prev_def set_value_def set_container_def set_index_def set_count_def)

lemma setters_at [list_simps]:
  "nxt (set_next p q m) r = (if r = p then q else nxt m r)" "prv (set_next p q m) r = prv m r"
  "prv (set_prev p q m) r = (if r = p then q else prv m r)" "nxt (set_prev p q m) r = nxt m r"
  "nxt (set_value p v m) r = nxt m r" "prv (set_value p v m) r = prv m r"
  "nxt (set_container p c m) r = nxt m r" "prv (set_container p c m) r = prv m r"
  "val (set_next p q m) r = val m r" "val (set_prev p q m) r = val m r" "val (set_container p c m) r = val m r"
  "val (set_value p v m) r = (if r = p then v else val m r)"
  "container (set_next p q m) r = container m r" "container (set_prev p q m) r = container m r"
  "container (set_container p c m) r = (if r = p then c else container m r)"
  "container (set_value p v m) r = container m r"
  "owner (set_next p q m) r = owner m r" "owner (set_prev p q m) r = owner m r"
  "owner (set_container p c m) r = owner m r" "owner (set_value p v m) r = owner m r"
  "index_of (set_index l p m) k = (if k = l then p else index_of m k)" "count_of (set_index l p m) k = count_of m k"
  "count_of (set_count l n m) k = (if k = l then n else count_of m k)" "index_of (set_count l n m) k = index_of m k"
  by (auto simp: set_next_def set_prev_def set_value_def set_container_def set_index_def set_count_def)

section \<open>The operations\<close>

definition vListInitialise :: "nat \<Rightarrow> lmem \<Rightarrow> lmem" where
  "vListInitialise l m =
     (let m = set_index l (End l) m;
          m = set_value (End l) portMAX_DELAY m;
          m = set_next (End l) (End l) m;
          m = set_prev (End l) (End l) m
      in set_count l 0 m)"

definition vListInitialiseItem :: "nat \<Rightarrow> lmem \<Rightarrow> lmem" where
  "vListInitialiseItem x m = set_container (Item x) None m"

definition vListInsertEnd :: "nat \<Rightarrow> nat \<Rightarrow> lmem \<Rightarrow> lmem" where
  "vListInsertEnd l x m =
     (let index = index_of m l;
          m = set_next (Item x) index m;
          m = set_prev (Item x) (prv m index) m;
          m = set_next (prv m index) (Item x) m;
          m = set_prev index (Item x) m;
          m = set_container (Item x) (Some l) m
      in set_count l (count_of m l + 1) m)"

text \<open>
  The search loop of \<open>vListInsert\<close>. It runs for ever on a list without a larger value: then its
  value is \<open>None\<close>.
\<close>

partial_function (option) insert_search :: "lmem \<Rightarrow> u32 \<Rightarrow> ptr \<Rightarrow> ptr option" where
  "insert_search m v p = (if val m (nxt m p) \<le> v then insert_search m v (nxt m p) else Some p)"

definition vListInsert :: "nat \<Rightarrow> nat \<Rightarrow> lmem \<Rightarrow> lmem option" where
  "vListInsert l x m = do {
     let v = val m (Item x);
     p \<leftarrow> (if v = portMAX_DELAY then Some (prv m (End l)) else insert_search m v (End l));
     let m = set_next (Item x) (nxt m p) m;
     let m = set_prev (nxt m (Item x)) (Item x) m;
     let m = set_prev (Item x) p m;
     let m = set_next p (Item x) m;
     let m = set_container (Item x) (Some l) m;
     Some (set_count l (count_of m l + 1) m) }"

text \<open>An item that is in no list has no header to update: undefined.\<close>

definition uxListRemove :: "nat \<Rightarrow> lmem \<Rightarrow> (u32 \<times> lmem) option" where
  "uxListRemove x m = do {
     l \<leftarrow> container m (Item x);
     let m = set_prev (nxt m (Item x)) (prv m (Item x)) m;
     let m = set_next (prv m (Item x)) (nxt m (Item x)) m;
     let m = (if index_of m l = Item x then set_index l (prv m (Item x)) m else m);
     let m = set_container (Item x) None m;
     let m = set_count l (count_of m l - 1) m;
     Some (count_of m l, m) }"

text \<open>The macro \<open>listGET_OWNER_OF_NEXT_ENTRY\<close>.\<close>

definition listGET_OWNER_OF_NEXT_ENTRY :: "nat \<Rightarrow> lmem \<Rightarrow> nat \<times> lmem" where
  "listGET_OWNER_OF_NEXT_ENTRY l m =
     (let m = set_index l (nxt m (index_of m l)) m;
          m = (if index_of m l = End l then set_index l (nxt m (index_of m l)) m else m)
      in (owner m (index_of m l), m))"

definition listGET_OWNER_OF_HEAD_ENTRY :: "nat \<Rightarrow> lmem \<Rightarrow> nat" where
  "listGET_OWNER_OF_HEAD_ENTRY l m = owner m (nxt m (End l))"

section \<open>Rings\<close>

text \<open>One direction of a ring through the marker \<open>e\<close>.\<close>

lemma half_split:
  "e # xs @ ys @ [e] = butlast (e # xs) @ last (e # xs) # hd (ys @ [e]) # tl (ys @ [e])"
  using append_butlast_last_id [of "e # xs"] by (cases ys) (simp_all add: append_eq_append_conv2)

lemma half_insert:
  assumes c: "chain f (e # xs @ ys @ [e])" and d: "distinct (e # xs @ ys)" and x: "x \<notin> set (e # xs @ ys)"
  defines "a \<equiv> last (e # xs)" and "b \<equiv> hd (ys @ [e])"
  shows "f a = b" and "chain (f(x := b, a := x)) (e # xs @ x # ys @ [e])"
proof -
  let ?as = "butlast (e # xs)" and ?bs = "tl (ys @ [e])"
  have s: "e # xs @ ys @ [e] = ?as @ a # b # ?bs" unfolding a_def b_def by (rule half_split)
  have "e # xs = ?as @ [a]" unfolding a_def by (rule append_butlast_last_id [symmetric]) simp
  then have d1: "distinct (?as @ [a])" using d by (metis append_Cons distinct_append)
  have tl: "b # ?bs = ys @ [e]" unfolding b_def by (cases ys) simp_all
  have "a \<in> set (e # xs)" unfolding a_def by (rule last_in_set) simp
  then have "a \<notin> set (butlast (b # ?bs))" using d unfolding tl by auto
  moreover have "x \<notin> set (?as @ a # b # ?bs)" using x s by (metis append_assoc Cons_eq_appendI Un_iff
        empty_iff insert_iff list.set(1) list.simps(15) set_append)
  ultimately have "chain (f(x := b, a := x)) (?as @ a # x # b # ?bs)"
    using chain_insert [of f ?as a b ?bs x] c s d1 by simp
  moreover have "?as @ a # x # b # ?bs = e # xs @ x # ys @ [e]"
    using \<open>e # xs = ?as @ [a]\<close> tl by (metis append_Cons append_assoc append_Nil)
  ultimately show "chain (f(x := b, a := x)) (e # xs @ x # ys @ [e])" by simp
  show "f a = b" using c unfolding s chain_split [of f ?as a "b # ?bs"] chain.simps by blast
qed

lemma half_remove:
  assumes c: "chain f (e # xs @ x # ys @ [e])" and d: "distinct (e # xs @ x # ys)"
  defines "a \<equiv> last (e # xs)" and "b \<equiv> hd (ys @ [e])"
  shows "f a = x" and "f x = b" and "chain (f(a := b)) (e # xs @ ys @ [e])"
proof -
  let ?as = "butlast (e # xs)" and ?bs = "tl (ys @ [e])"
  have ea: "e # xs = ?as @ [a]" unfolding a_def by (rule append_butlast_last_id [symmetric]) simp
  have tl: "b # ?bs = ys @ [e]" unfolding b_def by (cases ys) simp_all
  have s: "e # xs @ x # ys @ [e] = ?as @ a # x # b # ?bs"
    using ea tl by (metis append_Cons append_assoc append_Nil)
  have s2: "e # xs @ ys @ [e] = ?as @ a # b # ?bs"
    using ea tl by (metis append_Cons append_assoc append_Nil)
  have "a \<in> set (e # xs)" unfolding a_def by (rule last_in_set) simp
  then have "a \<notin> set (butlast (b # ?bs))" using d unfolding tl by auto
  moreover have "distinct (?as @ [a, x])"
    using d ea by (metis append_Cons append_Nil append_assoc distinct_append)
  ultimately show "chain (f(a := b)) (e # xs @ ys @ [e])"
    using chain_remove [of f ?as a x b ?bs] c unfolding s s2 by simp
  show "f a = x" "f x = b" using c unfolding s chain_split [of f ?as a "x # b # ?bs"] chain.simps by blast+
qed

definition ring :: "(ptr \<Rightarrow> ptr) \<Rightarrow> (ptr \<Rightarrow> ptr) \<Rightarrow> nat \<Rightarrow> nat list \<Rightarrow> bool" where
  "ring f g l xs \<longleftrightarrow> distinct xs \<and> chain f (End l # map Item xs @ [End l]) \<and>
     chain g (End l # rev (map Item xs) @ [End l])"

definition before :: "nat \<Rightarrow> nat list \<Rightarrow> ptr" where
  "before l as = last (End l # map Item as)"

definition after :: "nat \<Rightarrow> nat list \<Rightarrow> ptr" where
  "after l bs = hd (map Item bs @ [End l])"

lemma before_rev: "last (End l # rev (map Item bs)) = after l bs"
  by (cases bs) (simp_all add: after_def)

lemma after_rev: "hd (rev (map Item as) @ [End l]) = before l as"
  by (cases as rule: rev_cases) (simp_all add: before_def)

lemma ring_insert:
  assumes r: "ring f g l (as @ bs)" and x: "x \<notin> set (as @ bs)"
  shows "f (before l as) = after l bs" "g (after l bs) = before l as"
    "ring (f(Item x := after l bs, before l as := Item x)) (g(Item x := before l as, after l bs := Item x)) l (as @ x # bs)"
proof -
  have di: "distinct (End l # map Item as @ map Item bs)" "distinct (End l # rev (map Item bs) @ rev (map Item as))"
    and xi: "Item x \<notin> set (End l # map Item as @ map Item bs)" "Item x \<notin> set (End l # rev (map Item bs) @ rev (map Item as))"
    using r x by (auto simp: ring_def distinct_map inj_on_def)
  have cf: "chain f (End l # map Item as @ map Item bs @ [End l])"
    and cg: "chain g (End l # rev (map Item bs) @ rev (map Item as) @ [End l])"
    using r by (simp_all add: ring_def)
  note 1 = half_insert [OF cf di(1) xi(1), folded before_def after_def]
  note 2 = half_insert [OF cg di(2) xi(2), unfolded before_rev after_rev]
  show "f (before l as) = after l bs" by (rule 1)
  show "g (after l bs) = before l as" by (rule 2)
  show "ring (f(Item x := after l bs, before l as := Item x)) (g(Item x := before l as, after l bs := Item x)) l (as @ x # bs)"
    using 1(2) 2(2) r x by (simp add: ring_def)
qed

lemma ring_remove:
  assumes r: "ring f g l (as @ x # bs)"
  shows "f (before l as) = Item x" "f (Item x) = after l bs" "g (after l bs) = Item x" "g (Item x) = before l as"
    "ring (f(before l as := after l bs)) (g(after l bs := before l as)) l (as @ bs)"
proof -
  have di: "distinct (End l # map Item as @ Item x # map Item bs)"
    "distinct (End l # rev (map Item bs) @ Item x # rev (map Item as))"
    using r by (auto simp: ring_def distinct_map inj_on_def)
  have cf: "chain f (End l # map Item as @ Item x # map Item bs @ [End l])"
    and cg: "chain g (End l # rev (map Item bs) @ Item x # rev (map Item as) @ [End l])"
    using r by (simp_all add: ring_def)
  note 1 = half_remove [OF cf di(1), folded before_def after_def]
  note 2 = half_remove [OF cg di(2), unfolded before_rev after_rev]
  show "f (before l as) = Item x" "f (Item x) = after l bs" "g (after l bs) = Item x" "g (Item x) = before l as"
    by (rule 1 2)+
  show "ring (f(before l as := after l bs)) (g(after l bs := before l as)) l (as @ bs)"
    using 1(3) 2(3) r by (simp add: ring_def)
qed

section \<open>Well-formed lists\<close>

definition list_ok :: "lmem \<Rightarrow> nat \<Rightarrow> nat list \<Rightarrow> bool" where
  "list_ok m l xs \<longleftrightarrow> ring (nxt m) (prv m) l xs \<and> (\<forall>x. container m (Item x) = Some l \<longleftrightarrow> x \<in> set xs) \<and>
     count_of m l = of_nat (length xs) \<and> val m (End l) = portMAX_DELAY \<and>
     (index_of m l = End l \<or> index_of m l \<in> Item ` set xs)"

lemma list_ok_upd:
  assumes "nxt m' = f" "prv m' = g" "ring f g l xs'"
    and "container m' = (container m)(Item x := c)" "count_of m' l = of_nat (length xs')" "val m' = val m"
    and "list_ok m l xs" "index_of m' l = End l \<or> index_of m' l \<in> Item ` set xs'"
    and "\<And>y. y \<in> set xs' \<longleftrightarrow> (if y = x then c = Some l else y \<in> set xs)"
  shows "list_ok m' l xs'"
  using assms by (auto simp: list_ok_def fun_eq_iff)

lemma ring_next:
  "ring f g l (as @ y # bs) \<Longrightarrow> f (before l as) = Item y \<and> f (Item y) = after l bs \<and> g (Item y) = before l as \<and> g (after l bs) = Item y"
  using ring_remove [of f g l as y bs] by simp

text \<open>\<open>vListInsertEnd\<close> inserts in front of \<open>pxIndex\<close>: behind everything when that is the marker.\<close>

definition insert_end :: "ptr \<Rightarrow> nat \<Rightarrow> nat list \<Rightarrow> nat list" where
  "insert_end i x xs = (case i of End _ \<Rightarrow> xs @ [x]
     | Item y \<Rightarrow> takeWhile (\<lambda>z. z \<noteq> y) xs @ x # dropWhile (\<lambda>z. z \<noteq> y) xs)"

lemma index_split:
  assumes "list_ok m l xs"
  shows "\<exists>as bs. xs = as @ bs \<and> index_of m l = after l bs \<and> insert_end (index_of m l) x xs = as @ x # bs"
proof (cases "index_of m l")
  case (End k)
  with assms show ?thesis
    by (intro exI [of _ xs] exI [of _ "[]"]) (auto simp: list_ok_def after_def insert_end_def)
next
  case (Item y)
  with assms have "y \<in> set xs" by (auto simp: list_ok_def)
  let ?t = "takeWhile (\<lambda>z. z \<noteq> y) xs" and ?d = "dropWhile (\<lambda>z. z \<noteq> y) xs"
  have "?d \<noteq> []" using \<open>y \<in> set xs\<close> by (simp add: dropWhile_eq_Nil_conv)
  moreover from this have "hd ?d = y" using hd_dropWhile [of "\<lambda>z. z \<noteq> y" xs] by simp
  ultimately have "index_of m l = after l ?d" using Item by (cases ?d) (simp_all add: after_def)
  moreover have "insert_end (index_of m l) x xs = ?t @ x # ?d" using Item by (simp add: insert_end_def)
  moreover have "xs = ?t @ ?d" by simp
  ultimately show ?thesis by metis
qed

lemma before_notin: "x \<notin> set as \<Longrightarrow> before l as \<noteq> Item x"
  by (cases as rule: rev_cases) (auto simp: before_def)

lemma after_notin: "x \<notin> set bs \<Longrightarrow> after l bs \<noteq> Item x"
  by (cases bs) (auto simp: after_def)

text \<open>The two insertions are this update of the store.\<close>

definition link :: "nat \<Rightarrow> nat \<Rightarrow> ptr \<Rightarrow> ptr \<Rightarrow> lmem \<Rightarrow> lmem" where
  "link l x a b m = set_count l (count_of m l + 1) (set_container (Item x) (Some l)
    (set_prev b (Item x) (set_next a (Item x) (set_prev (Item x) a (set_next (Item x) b m)))))"

lemma link_list_ok:
  assumes ok: "list_ok m l (as @ bs)" and x: "container m (Item x) \<noteq> Some l"
  shows "list_ok (link l x (before l as) (after l bs) m) l (as @ x # bs)"
proof -
  let ?m = "link l x (before l as) (after l bs) m"
  have xs: "x \<notin> set (as @ bs)" using ok x by (auto simp: list_ok_def)
  have r: "ring (nxt m) (prv m) l (as @ bs)" using ok by (simp add: list_ok_def)
  show ?thesis
  proof (rule list_ok_upd [OF _ _ ring_insert(3) [OF r xs] _ _ _ ok])
    show "container ?m = (container m)(Item x := Some l)" "val ?m = val m"
      "nxt ?m = (nxt m)(Item x := after l bs, before l as := Item x)"
      "prv ?m = (prv m)(Item x := before l as, after l bs := Item x)"
      by (auto simp: link_def list_simps fun_eq_iff)
    show "count_of ?m l = of_nat (length (as @ x # bs))"
      using ok by (simp add: link_def list_simps list_ok_def)
    show "index_of ?m l = End l \<or> index_of ?m l \<in> Item ` set (as @ x # bs)"
      using ok by (auto simp: link_def list_simps list_ok_def)
  qed (use xs in auto)
qed

text \<open>An operation that leaves the nodes, the members and the header of a list alone keeps it.\<close>

lemma list_ok_frame:
  assumes ok: "list_ok m k ys"
    and n: "\<And>p. p \<in> insert (End k) (Item ` set ys) \<Longrightarrow> nxt m' p = nxt m p \<and> prv m' p = prv m p"
    and c: "\<And>y. container m' (Item y) = Some k \<longleftrightarrow> container m (Item y) = Some k"
    and h: "lists m' k = lists m k" "val m' (End k) = val m (End k)"
  shows "list_ok m' k ys"
proof -
  have "chain (nxt m') (End k # map Item ys @ [End k]) = chain (nxt m) (End k # map Item ys @ [End k])"
    "chain (prv m') (End k # rev (map Item ys) @ [End k]) = chain (prv m) (End k # rev (map Item ys) @ [End k])"
    using n by (auto intro!: chain_cong dest!: in_set_butlastD)
  then show ?thesis using ok c h by (simp add: list_ok_def ring_def)
qed

lemma list_ok_member: "list_ok m l xs \<Longrightarrow> container m (Item x) = Some l \<longleftrightarrow> x \<in> set xs"
  by (simp add: list_ok_def)

lemma before_in: "before l as \<in> insert (End l) (Item ` set as)"
  by (cases as rule: rev_cases) (auto simp: before_def)

lemma after_in: "after l bs \<in> insert (End l) (Item ` set bs)"
  by (cases bs) (auto simp: after_def)

text \<open>Two lists have no node in common.\<close>

lemma lists_disjoint:
  assumes "list_ok m l xs" "list_ok m k ys" "k \<noteq> l" "p \<in> insert (End l) (Item ` set xs)"
  shows "p \<notin> insert (End k) (Item ` set ys)"
  using assms list_ok_member [OF assms(1)] list_ok_member [OF assms(2)]
  by (auto; metis option.inject)

lemma link_other:
  assumes l: "list_ok m l (as @ bs)" and k: "list_ok m k ys" "k \<noteq> l" and x: "container m (Item x) = None"
  shows "list_ok (link l x (before l as) (after l bs) m) k ys"
proof (rule list_ok_frame [OF k(1)])
  fix p assume p: "p \<in> insert (End k) (Item ` set ys)"
  have "x \<notin> set ys" using list_ok_member [OF k(1), of x] x by auto
  moreover have "before l as \<noteq> p" "after l bs \<noteq> p"
    using lists_disjoint [OF l k] p before_in [of l as] after_in [of l bs] by auto
  ultimately show "nxt (link l x (before l as) (after l bs) m) p = nxt m p \<and>
      prv (link l x (before l as) (after l bs) m) p = prv m p"
    using p k(2) by (auto simp: link_def list_simps)
qed (use x k(2) in \<open>auto simp: link_def list_simps set_count_def\<close>)

lemma link_val: "val (link l x a b m) p = val m p" "owner (link l x a b m) p = owner m p"
  "index_of (link l x a b m) k = index_of m k"
  by (simp_all add: link_def list_simps)

lemma vListInsertEnd_link:
  assumes ok: "list_ok m l (as @ bs)" and i: "index_of m l = after l bs" and x: "container m (Item x) \<noteq> Some l"
  shows "vListInsertEnd l x m = link l x (before l as) (after l bs) m"
proof -
  have r: "ring (nxt m) (prv m) l (as @ bs)" and xs: "x \<notin> set (as @ bs)"
    using ok x by (auto simp: list_ok_def)
  have p: "prv m (after l bs) = before l as" by (rule ring_insert(2) [OF r xs])
  have ne: "Item x \<noteq> before l as" "Item x \<noteq> after l bs"
    using before_notin [of x as l] after_notin [of x bs l] xs by auto
  show ?thesis using ne
    by (simp add: vListInsertEnd_def link_def i p Let_def list_simps)
qed

lemma insert_search_step:
  "insert_search m v p = (if val m (nxt m p) \<le> v then insert_search m v (nxt m p) else Some p)"
  by (rule insert_search.simps)

lemma max_delay_top [simp]: "(v :: u32) \<le> portMAX_DELAY" "portMAX_DELAY \<le> (v :: u32) \<longleftrightarrow> v = portMAX_DELAY"
proof -
  have m: "portMAX_DELAY = - 1" by simp
  show "v \<le> portMAX_DELAY" "portMAX_DELAY \<le> v \<longleftrightarrow> v = portMAX_DELAY"
    unfolding m by (rule word_order.extremum word_order.extremum_unique)+
qed

text \<open>The search of \<open>vListInsert\<close> ends behind the last item of the prefix with values up to \<open>v\<close>.\<close>

lemma insert_search_ok:
  assumes ok: "list_ok m l (as @ bs)" and v: "v \<noteq> portMAX_DELAY"
  shows "insert_search m v (before l as) =
    Some (before l (as @ takeWhile (\<lambda>y. val m (Item y) \<le> v) bs))"
  using ok
proof (induction bs arbitrary: as)
  case Nil
  have r: "ring (nxt m) (prv m) l (as @ [])" using Nil by (simp add: list_ok_def)
  obtain x where "x \<notin> set (as @ [])" using ex_new_if_finite [OF infinite_UNIV_nat, of "set (as @ [])"] by auto
  then have "nxt m (before l as) = End l" using ring_insert(1) [OF r] by (simp add: after_def)
  moreover have "\<not> val m (End l) \<le> v" using Nil v by (simp add: list_ok_def)
  ultimately show ?case by (subst insert_search_step) simp
next
  case (Cons y bs)
  have r: "ring (nxt m) (prv m) l (as @ y # bs)" using Cons.prems by (simp add: list_ok_def)
  have n: "nxt m (before l as) = Item y" using ring_next [OF r] by simp
  have "before l (as @ [y]) = Item y" by (simp add: before_def)
  moreover have "insert_search m v (before l (as @ [y])) =
      Some (before l ((as @ [y]) @ takeWhile (\<lambda>y. val m (Item y) \<le> v) bs))"
    using Cons.IH [of "as @ [y]"] Cons.prems by simp
  ultimately show ?case using n by (subst insert_search_step) simp
qed

definition insert_sorted :: "(nat \<Rightarrow> u32) \<Rightarrow> nat \<Rightarrow> nat list \<Rightarrow> nat list" where
  "insert_sorted w x xs = takeWhile (\<lambda>y. w y \<le> w x) xs @ x # dropWhile (\<lambda>y. w y \<le> w x) xs"

lemma set_comm:
  "set_next p a (set_prev q b m) = set_prev q b (set_next p a m)"
  "p \<noteq> q \<Longrightarrow> set_prev p a (set_prev q b m) = set_prev q b (set_prev p a m)"
  by (simp_all add: set_next_def set_prev_def fun_eq_iff)

lemma vListInsert_link:
  assumes ok: "list_ok m l xs" and x: "container m (Item x) \<noteq> Some l"
  defines "P \<equiv> \<lambda>y. val m (Item y) \<le> val m (Item x)"
  shows "vListInsert l x m = Some (link l x (before l (takeWhile P xs)) (after l (dropWhile P xs)) m)"
proof -
  let ?v = "val m (Item x)" and ?as = "takeWhile P xs" and ?bs = "dropWhile P xs"
  have ok': "list_ok m l (?as @ ?bs)" using ok by simp
  have r: "ring (nxt m) (prv m) l (?as @ ?bs)" and xs: "x \<notin> set (?as @ ?bs)"
    using ok x by (auto simp: list_ok_def)
  have n: "nxt m (before l ?as) = after l ?bs" by (rule ring_insert(1) [OF r xs])
  have ne: "Item x \<noteq> before l ?as" "Item x \<noteq> after l ?bs"
    using before_notin [of x ?as l] after_notin [of x ?bs l] xs unfolding set_append by (metis UnCI)+
  have "(if ?v = portMAX_DELAY then Some (prv m (End l)) else insert_search m ?v (End l)) = Some (before l ?as)"
  proof (cases "?v = portMAX_DELAY")
    case True
    then have P: "P y" for y by (simp add: P_def)
    then have b: "?bs = []" by simp
    have "prv m (End l) = before l ?as" using ring_insert(2) [OF r xs] unfolding b by (simp add: after_def)
    then show ?thesis using True by simp
  next
    case False
    have "End l = before l []" by (simp add: before_def)
    then show ?thesis using False insert_search_ok [of m l "[]" xs ?v] ok by (simp add: P_def)
  qed
  then show ?thesis using ne [symmetric] n
    by (simp add: vListInsert_def link_def Let_def list_simps set_comm(1) set_comm(2) [OF ne(2) [symmetric]])
qed

text \<open>Removal.\<close>

definition unlink :: "nat \<Rightarrow> nat \<Rightarrow> ptr \<Rightarrow> ptr \<Rightarrow> lmem \<Rightarrow> lmem" where
  "unlink l x a b m = (let m = set_next a b (set_prev b a m);
     m = (if index_of m l = Item x then set_index l a m else m)
   in set_count l (count_of m l - 1) (set_container (Item x) None m))"

lemma uxListRemove_unlink:
  assumes ok: "list_ok m l (as @ x # bs)"
  shows "uxListRemove x m = Some (of_nat (length (as @ bs)), unlink l x (before l as) (after l bs) m)"
proof -
  have r: "ring (nxt m) (prv m) l (as @ x # bs)" and c: "container m (Item x) = Some l"
    and n: "count_of m l = of_nat (length (as @ x # bs))"
    using ok by (auto simp: list_ok_def)
  note p = ring_remove [OF r]
  have d: "x \<notin> set as" "x \<notin> set bs" using r by (auto simp: ring_def)
  note ne = before_notin [OF d(1), of l] after_notin [OF d(2), of l]
  show ?thesis using ne [symmetric] c n p(2,4)
    by (simp add: uxListRemove_def unlink_def Let_def list_simps)
qed

lemma unlink_list_ok:
  assumes ok: "list_ok m l (as @ x # bs)"
  shows "list_ok (unlink l x (before l as) (after l bs) m) l (as @ bs)"
proof -
  have r: "ring (nxt m) (prv m) l (as @ x # bs)" using ok by (simp add: list_ok_def)
  let ?m = "unlink l x (before l as) (after l bs) m"
  show ?thesis
  proof (rule list_ok_upd [OF _ _ ring_remove(5) [OF r] _ _ _ ok])
    show "container ?m = (container m)(Item x := None)" "val ?m = val m"
      "nxt ?m = (nxt m)(before l as := after l bs)" "prv ?m = (prv m)(after l bs := before l as)"
      by (auto simp: unlink_def Let_def list_simps fun_eq_iff)
    show "count_of ?m l = of_nat (length (as @ bs))"
      using ok by (simp add: unlink_def Let_def list_simps list_ok_def)
    show "index_of ?m l = End l \<or> index_of ?m l \<in> Item ` set (as @ bs)"
      using ok before_in [of l as] by (auto simp: unlink_def Let_def list_simps list_ok_def)
  qed (use r in \<open>auto simp: ring_def\<close>)
qed

lemma unlink_other:
  assumes l: "list_ok m l (as @ x # bs)" and k: "list_ok m k ys" "k \<noteq> l"
  shows "list_ok (unlink l x (before l as) (after l bs) m) k ys"
proof (rule list_ok_frame [OF k(1)])
  fix p assume p: "p \<in> insert (End k) (Item ` set ys)"
  have "before l as \<noteq> p" "after l bs \<noteq> p"
    using lists_disjoint [OF l k] p before_in [of l as] after_in [of l bs] by auto
  then show "nxt (unlink l x (before l as) (after l bs) m) p = nxt m p \<and>
      prv (unlink l x (before l as) (after l bs) m) p = prv m p"
    using k(2) by (auto simp: unlink_def Let_def list_simps)
qed (use k(2) list_ok_member [OF l, of x] in
  \<open>auto simp: unlink_def Let_def list_simps set_count_def set_index_def\<close>)

lemma unlink_val: "val (unlink l x a b m) p = val m p" "owner (unlink l x a b m) p = owner m p"
  "index_of (unlink l x a b m) l = (if index_of m l = Item x then a else index_of m l)"
  "container (unlink l x a b m) (Item x) = None"
  by (simp_all add: unlink_def Let_def list_simps)

text \<open>
  The round robin: \<open>pxIndex\<close> goes to the next item and skips the marker. A run of calls
  collects the owners.
\<close>

fun owners_of_next :: "nat \<Rightarrow> nat \<Rightarrow> lmem \<Rightarrow> nat list \<times> lmem" where
  "owners_of_next 0 l m = ([], m)"
| "owners_of_next (Suc n) l m =
     (let (w, m) = listGET_OWNER_OF_NEXT_ENTRY l m; (ws, m) = owners_of_next n l m in (w # ws, m))"

lemma set_index_index: "set_index l p (set_index l q m) = set_index l p m"
  by (simp add: set_index_def)

lemma set_index_same: "p = index_of m l \<Longrightarrow> set_index l p m = m"
  by (simp add: set_index_def)

lemma list_ok_set_index: "list_ok m l xs \<Longrightarrow> p = End l \<or> p \<in> Item ` set xs \<Longrightarrow> list_ok (set_index l p m) l xs"
  by (simp add: list_ok_def list_simps)

lemma next_entry:
  assumes ok: "list_ok m l (as @ y # bs)"
    and i: "index_of m l = before l as \<or> as = [] \<and> bs = [] \<and> index_of m l = Item y \<or>
      as = [] \<and> bs \<noteq> [] \<and> index_of m l = before l (y # bs)"
  shows "listGET_OWNER_OF_NEXT_ENTRY l m = (owner m (Item y), set_index l (Item y) m)"
proof -
  have r: "ring (nxt m) (prv m) l (as @ y # bs)" using ok by (simp add: list_ok_def)
  have n: "nxt m (before l as) = Item y" using ring_next [OF r] by simp
  have e: "nxt m (before l (y # bs)) = End l" if "as = []"
  proof (cases bs rule: rev_cases)
    case Nil
    then show ?thesis using ring_next [OF r] that by (simp add: before_def after_def)
  next
    case (snoc cs z)
    then have "ring (nxt m) (prv m) l ((y # cs) @ z # [])" using r that by simp
    from ring_next [OF this] show ?thesis using snoc by (simp add: before_def after_def)
  qed
  have "before l [] = End l" "before l [y] = Item y" by (simp_all add: before_def)
  with i n e show ?thesis
    by (auto simp: listGET_OWNER_OF_NEXT_ENTRY_def Let_def list_simps set_index_index)
qed

lemma owners_ahead:
  assumes "list_ok m l (as @ bs @ cs)" "index_of m l = before l as"
  shows "owners_of_next (length bs) l m =
    (map (\<lambda>y. owner m (Item y)) bs, set_index l (before l (as @ bs)) m)"
  using assms
proof (induction bs arbitrary: as m)
  case Nil
  then show ?case by (simp add: set_index_same)
next
  case (Cons y bs)
  let ?m = "set_index l (Item y) m"
  have b: "before l (as @ [y]) = Item y" by (simp add: before_def)
  have g: "listGET_OWNER_OF_NEXT_ENTRY l m = (owner m (Item y), ?m)"
    using Cons.prems by (intro next_entry) auto
  have "list_ok ?m l ((as @ [y]) @ bs @ cs)" using list_ok_set_index [OF Cons.prems(1), of "Item y"] by simp
  then have "owners_of_next (length bs) l ?m = (map (\<lambda>z. owner ?m (Item z)) bs,
      set_index l (before l ((as @ [y]) @ bs)) ?m)"
    using b by (intro Cons.IH) (simp_all add: list_simps)
  then show ?case using g by (simp add: list_simps set_index_index)
qed

lemma owners_append:
  "owners_of_next (a + b) l m = (let (ws, m) = owners_of_next a l m; (vs, m) = owners_of_next b l m in (ws @ vs, m))"
  by (induction a arbitrary: m) (simp_all add: Let_def split: prod.splits)

text \<open>Past the last item the walk begins again.\<close>

lemma owners_wrap:
  assumes ok: "list_ok m l (y # as @ bs)" and i: "index_of m l = before l (y # as @ bs)"
  shows "owners_of_next (Suc (length as)) l m =
    (map (\<lambda>y. owner m (Item y)) (y # as), set_index l (before l (y # as)) m)"
proof -
  let ?m = "set_index l (Item y) m"
  have b: "before l [y] = Item y" by (simp add: before_def)
  have g: "listGET_OWNER_OF_NEXT_ENTRY l m = (owner m (Item y), ?m)"
    using ok i b by (intro next_entry [of m l "[]"]) auto
  have "owners_of_next (length as) l ?m = (map (\<lambda>z. owner ?m (Item z)) as, set_index l (before l ([y] @ as)) ?m)"
    using list_ok_set_index [OF ok, of "Item y"] b by (intro owners_ahead [of _ _ _ _ bs]) (simp_all add: list_simps)
  with g show ?thesis by (simp add: list_simps set_index_index)
qed

text \<open>
  Sorted insertion keeps a list sorted, and its item comes last among the items of its value,
  which is what makes equal priorities share the processor.
\<close>

lemma takeWhile_le_sorted: "sorted (map w xs) \<Longrightarrow> y \<in> set (dropWhile (\<lambda>y. w y \<le> v) xs) \<Longrightarrow> (v :: u32) < w y"
  by (induction xs) (force split: if_splits)+

lemma insert_sorted_stable:
  assumes "sorted (map w xs)"
  shows "sorted (map w (insert_sorted w x xs)) \<and> mset (insert_sorted w x xs) = add_mset x (mset xs) \<and>
    filter (\<lambda>y. w y = w x) (insert_sorted w x xs) = filter (\<lambda>y. w y = w x) xs @ [x]"
proof -
  let ?P = "\<lambda>y. w y \<le> w x"
  have d: "w x < w y" if "y \<in> set (dropWhile ?P xs)" for y using takeWhile_le_sorted [OF assms that] .
  have t: "w y \<le> w x" if "y \<in> set (takeWhile ?P xs)" for y using set_takeWhileD [OF that] by simp
  have f: "filter (\<lambda>y. w y = w x) (dropWhile ?P xs) = []"
    using d less_irrefl [of "w x"] by (metis (mono_tags, lifting) filter_False)
  have s: "xs = takeWhile ?P xs @ dropWhile ?P xs" by (rule takeWhile_dropWhile_id [symmetric])
  have "sorted (map w (takeWhile ?P xs))" "sorted (map w (dropWhile ?P xs))"
    using assms by (metis map_append sorted_append s)+
  then have "sorted (map w (insert_sorted w x xs))"
    unfolding insert_sorted_def map_append list.map sorted_append
    by (auto dest!: t d intro: less_imp_le order_trans)
  moreover have "mset (insert_sorted w x xs) = add_mset x (mset xs)"
  proof -
    have "mset xs = mset (takeWhile ?P xs) + mset (dropWhile ?P xs)" by (metis mset_append s)
    then show ?thesis by (simp add: insert_sorted_def)
  qed
  moreover have "filter (\<lambda>y. w y = w x) (takeWhile ?P xs) = filter (\<lambda>y. w y = w x) xs"
    by (metis filter_append f append_Nil2 takeWhile_dropWhile_id)
  then have "filter (\<lambda>y. w y = w x) (insert_sorted w x xs) = filter (\<lambda>y. w y = w x) xs @ [x]"
    using f by (simp add: insert_sorted_def)
  ultimately show ?thesis by blast
qed

section \<open>The properties of the lists\<close>

text \<open>
  \<open>vListInsertEnd\<close> puts the item where \<open>listGET_OWNER_OF_NEXT_ENTRY\<close> comes last: in front of
  \<open>pxIndex\<close>, at the end when that is the marker.
\<close>

lemma vListInsertEnd_refines:
  assumes "list_ok m l xs" and "container m (Item x) = None"
  shows "list_ok (vListInsertEnd l x m) l (insert_end (index_of m l) x xs) \<and>
    index_of (vListInsertEnd l x m) l = index_of m l \<and>
    (\<forall>k ys. k \<noteq> l \<longrightarrow> list_ok m k ys \<longrightarrow> list_ok (vListInsertEnd l x m) k ys)"
proof -
  obtain as bs where s: "xs = as @ bs" "index_of m l = after l bs" "insert_end (index_of m l) x xs = as @ x # bs"
    using index_split [OF assms(1)] by blast
  have ok: "list_ok m l (as @ bs)" using assms s by simp
  have e: "vListInsertEnd l x m = link l x (before l as) (after l bs) m"
    using vListInsertEnd_link [OF ok s(2)] assms(2) by simp
  show ?thesis
    unfolding e s(3) using link_list_ok [OF ok] link_other [OF ok] assms(2) by (simp add: link_val)
qed

text \<open>
  C18: on a well-formed list \<open>vListInsert\<close> terminates and inserts the item behind the items with a
  value up to its own, \<open>portMAX_DELAY\<close> included; a sorted list stays sorted, with the new item last among those of its
  value. The values, the position of the round robin and every other list are left alone.
\<close>

theorem vListInsert_refines:
  assumes "list_ok m l xs" and "container m (Item x) = None"
  shows "\<exists>m'. vListInsert l x m = Some m' \<and> list_ok m' l (insert_sorted (\<lambda>y. val m (Item y)) x xs) \<and>
    (\<forall>p. val m' p = val m p) \<and> index_of m' l = index_of m l \<and>
    (\<forall>k ys. k \<noteq> l \<longrightarrow> list_ok m k ys \<longrightarrow> list_ok m' k ys) \<and>
    (let w = \<lambda>y. val m (Item y) in sorted (map w xs) \<longrightarrow> sorted (map w (insert_sorted w x xs)) \<and>
       filter (\<lambda>y. w y = w x) (insert_sorted w x xs) = filter (\<lambda>y. w y = w x) xs @ [x])"
proof -
  let ?P = "\<lambda>y. val m (Item y) \<le> val m (Item x)"
  let ?m = "link l x (before l (takeWhile ?P xs)) (after l (dropWhile ?P xs)) m"
  have ok: "list_ok m l (takeWhile ?P xs @ dropWhile ?P xs)" using assms by simp
  have "vListInsert l x m = Some ?m" using assms by (intro vListInsert_link) simp_all
  moreover have "list_ok ?m l (takeWhile ?P xs @ x # dropWhile ?P xs)"
    using assms by (intro link_list_ok ok) simp
  moreover have "\<forall>k ys. k \<noteq> l \<longrightarrow> list_ok m k ys \<longrightarrow> list_ok ?m k ys"
    using link_other [OF ok] assms(2) by blast
  ultimately show ?thesis using insert_sorted_stable [of "\<lambda>y. val m (Item y)" xs x]
    by (auto simp: insert_sorted_def link_val Let_def)
qed

text \<open>
  C19: \<open>uxListRemove\<close> takes the item out of the list it is in, returns the number of the items
  left, clears the item's container, moves \<open>pxIndex\<close> back when it stood on the item, and leaves every other list alone.
\<close>

theorem uxListRemove_refines:
  assumes "list_ok m l (as @ x # bs)"
  shows "\<exists>m'. uxListRemove x m = Some (of_nat (length (as @ bs)), m') \<and> list_ok m' l (as @ bs) \<and>
    container m' (Item x) = None \<and>
    index_of m' l = (if index_of m l = Item x then before l as else index_of m l) \<and>
    (\<forall>k ys. k \<noteq> l \<longrightarrow> list_ok m k ys \<longrightarrow> list_ok m' k ys)"
  using uxListRemove_unlink [OF assms] unlink_list_ok [OF assms] unlink_other [OF assms]
  by (auto simp: unlink_val)

text \<open>
  C20: as many calls of \<open>listGET_OWNER_OF_NEXT_ENTRY\<close> as the list has items return each item's
  owner once, in ring order from behind \<open>pxIndex\<close>, and leave \<open>pxIndex\<close> where it was (on the last
  item instead of the marker).
\<close>

theorem round_robin:
  assumes "list_ok m l (as @ bs)" and "index_of m l = before l as"
  shows "owners_of_next (length (as @ bs)) l m =
    (map (\<lambda>y. owner m (Item y)) (bs @ as), set_index l (before l (if as = [] then bs else as)) m)"
proof -
  let ?m = "set_index l (before l (as @ bs)) m"
  have 1: "owners_of_next (length bs) l m = (map (\<lambda>y. owner m (Item y)) bs, ?m)"
    using owners_ahead [of m l as bs "[]"] assms by simp
  show ?thesis
  proof (cases as)
    case Nil
    then show ?thesis using 1 by simp
  next
    case (Cons y ys)
    have "list_ok ?m l (y # ys @ bs)"
      using list_ok_set_index [OF assms(1) , of "before l (as @ bs)"] before_in [of l "as @ bs"] Cons by simp
    then have "owners_of_next (Suc (length ys)) l ?m =
        (map (\<lambda>y. owner ?m (Item y)) (y # ys), set_index l (before l (y # ys)) ?m)"
      using Cons by (intro owners_wrap) (simp_all add: list_simps)
    then have 2: "owners_of_next (length as) l ?m = (map (\<lambda>y. owner m (Item y)) as, set_index l (before l as) m)"
      using Cons by (simp add: list_simps set_index_index)
    have "owners_of_next (length bs + length as) l m =
        (map (\<lambda>y. owner m (Item y)) (bs @ as), set_index l (before l as) m)"
      by (simp only: owners_append 1 2 Let_def prod.case map_append)
    then show ?thesis using Cons by (simp add: add.commute)
  qed
qed

section \<open>Lists with a cursor\<close>

text \<open>
  The abstract value of a list with its \<open>pxIndex\<close>: the items up to the cursor, which stands on
  the last of them or on the marker when there is none, and the items behind it. The scheduler is
  modelled on these values; the locale states what it relies on, and its interpretation that the
  pointer program provides it.
\<close>

record rlist =
  passed :: "nat list"
  ahead :: "nat list"

definition items :: "rlist \<Rightarrow> nat list" where
  "items r = passed r @ ahead r"

definition rl_insert_end :: "nat \<Rightarrow> rlist \<Rightarrow> rlist" where
  "rl_insert_end x r = (if passed r = [] then r\<lparr>ahead := ahead r @ [x]\<rparr>
     else r\<lparr>passed := butlast (passed r) @ [x, last (passed r)]\<rparr>)"

definition rl_remove :: "nat \<Rightarrow> rlist \<Rightarrow> rlist" where
  "rl_remove x r = \<lparr>passed = remove1 x (passed r), ahead = remove1 x (ahead r)\<rparr>"

text \<open>The owner of the marker is not a task: moving on in an empty list is undefined.\<close>

definition rl_next :: "rlist \<Rightarrow> (nat \<times> rlist) option" where
  "rl_next r = (case ahead r of
       y # ys \<Rightarrow> Some (y, \<lparr>passed = passed r @ [y], ahead = ys\<rparr>)
     | [] \<Rightarrow> (case passed r of y # ys \<Rightarrow> Some (y, \<lparr>passed = [y], ahead = ys\<rparr>) | [] \<Rightarrow> None))"

lemma items_insert_end_split: "\<exists>us vs. items r = us @ vs \<and> items (rl_insert_end x r) = us @ x # vs \<and>
    (passed r = [] \<and> vs = [] \<or> (\<exists>c. vs = c # ahead r \<and> passed r = us @ [c]))"
proof (cases "passed r" rule: rev_cases)
  case Nil
  then show ?thesis by (intro exI [of _ "ahead r"] exI [of _ "[]"]) (simp add: rl_insert_end_def items_def)
next
  case (snoc us c)
  then show ?thesis by (intro exI [of _ us] exI [of _ "c # ahead r"]) (simp add: rl_insert_end_def items_def)
qed

lemma set_insert_end [simp]: "set (items (rl_insert_end x r)) = insert x (set (items r))"
  using items_insert_end_split [of r x] by auto

lemma length_insert_end [simp]: "length (items (rl_insert_end x r)) = Suc (length (items r))"
  using items_insert_end_split [of r x] by auto

lemma distinct_insert_end: "distinct (items r) \<Longrightarrow> x \<notin> set (items r) \<Longrightarrow> distinct (items (rl_insert_end x r))"
  using items_insert_end_split [of r x] by auto

lemma set_remove [simp]: "distinct (items r) \<Longrightarrow> set (items (rl_remove x r)) = set (items r) - {x}"
  by (auto simp: items_def rl_remove_def)

lemma distinct_remove: "distinct (items r) \<Longrightarrow> distinct (items (rl_remove x r))"
  by (auto simp: items_def rl_remove_def dest: notin_set_remove1)

lemma rl_next_ok:
  assumes "items r \<noteq> []"
  shows "\<exists>x r'. rl_next r = Some (x, r') \<and> x \<in> set (items r) \<and> items r' = items r"
  using assms by (cases "ahead r"; cases "passed r") (auto simp: rl_next_def items_def)

text \<open>The representation of a list with a cursor by the pointers.\<close>

definition list_view :: "lmem \<Rightarrow> nat \<Rightarrow> rlist \<Rightarrow> bool" where
  "list_view m l r \<longleftrightarrow> list_ok m l (items r) \<and> index_of m l = before l (passed r)"

lemma insert_end_items:
  assumes "distinct (items r)"
  shows "insert_end (before l (passed r)) x (items r) = items (rl_insert_end x r)"
proof (cases "passed r" rule: rev_cases)
  case Nil
  then show ?thesis by (simp add: insert_end_def before_def items_def rl_insert_end_def)
next
  case (snoc us c)
  then have "c \<notin> set us" using assms by (auto simp: items_def)
  then show ?thesis using snoc
    by (simp add: insert_end_def before_def items_def rl_insert_end_def takeWhile_append dropWhile_append)
qed

lemma list_ok_distinct: "list_ok m l xs \<Longrightarrow> distinct xs"
  by (simp add: list_ok_def ring_def)

text \<open>The order in which the cursor comes to the items.\<close>

definition ring_order :: "rlist \<Rightarrow> nat list" where
  "ring_order r = ahead r @ passed r"

lemma rl_next_rotates: "rl_next r = Some (x, r') \<Longrightarrow> x = hd (ring_order r) \<and> ring_order r' = rotate1 (ring_order r)"
  by (auto simp: rl_next_def ring_order_def split: list.splits)

lemma remove_insert_end: "x \<notin> set (items r) \<Longrightarrow> items (rl_remove x (rl_insert_end x r)) = items r"
proof (cases "passed r" rule: rev_cases)
  case (snoc us c)
  then show "x \<notin> set (items r) \<Longrightarrow> ?thesis"
    by (auto simp: rl_remove_def rl_insert_end_def items_def remove1_append remove1_idem)
qed (simp add: rl_remove_def rl_insert_end_def items_def remove1_append remove1_idem)

locale kernel_list =
  fixes view :: "'m \<Rightarrow> nat \<Rightarrow> rlist \<Rightarrow> bool"
    and insert_at_end :: "nat \<Rightarrow> nat \<Rightarrow> 'm \<Rightarrow> 'm"
    and remove :: "nat \<Rightarrow> 'm \<Rightarrow> (u32 \<times> 'm) option"
    and next_owner :: "nat \<Rightarrow> 'm \<Rightarrow> nat \<times> 'm"
    and loose :: "'m \<Rightarrow> nat \<Rightarrow> bool"
    and owner_of :: "'m \<Rightarrow> nat \<Rightarrow> nat"
  assumes view_insert_end: "view m l r \<Longrightarrow> loose m x \<Longrightarrow> view (insert_at_end l x m) l (rl_insert_end x r)"
    and view_remove: "view m l r \<Longrightarrow> x \<in> set (items r) \<Longrightarrow>
      \<exists>m'. remove x m = Some (of_nat (length (items (rl_remove x r))), m') \<and> view m' l (rl_remove x r) \<and> loose m' x"
    and view_next: "view m l r \<Longrightarrow> items r \<noteq> [] \<Longrightarrow>
      \<exists>x r' m'. rl_next r = Some (x, r') \<and> next_owner l m = (owner_of m x, m') \<and> view m' l r'"
begin

text \<open>Removing what was inserted gives the items back.\<close>

lemma insert_remove:
  assumes "view m l r" "loose m x" "x \<notin> set (items r)"
  shows "\<exists>m' r'. remove x (insert_at_end l x m) = Some (of_nat (length (items r)), m') \<and> view m' l r' \<and>
    items r' = items r \<and> loose m' x"
  using view_remove [OF view_insert_end [OF assms(1,2)], of x] remove_insert_end [OF assms(3)] by auto

text \<open>The next owner is the first in ring order, and goes to the back of it.\<close>

lemma next_rotates:
  assumes "view m l r" "items r \<noteq> []"
  shows "\<exists>m' r'. next_owner l m = (owner_of m (hd (ring_order r)), m') \<and> view m' l r' \<and>
    ring_order r' = rotate1 (ring_order r)"
  using view_next [OF assms] rl_next_rotates by metis

end

lemma view_insert_end:
  assumes "list_view m l r" "container m (Item x) = None"
  shows "list_view (vListInsertEnd l x m) l (rl_insert_end x r)"
proof -
  have ok: "list_ok m l (items r)" and i: "index_of m l = before l (passed r)" using assms by (auto simp: list_view_def)
  have "before l (passed (rl_insert_end x r)) = before l (passed r)"
    by (cases "passed r" rule: rev_cases) (simp_all add: rl_insert_end_def before_def)
  then show ?thesis
    using vListInsertEnd_refines [OF ok assms(2)] insert_end_items [OF list_ok_distinct [OF ok], of l x] i
    by (simp add: list_view_def)
qed

lemma view_remove:
  assumes "list_view m l r" "x \<in> set (items r)"
  shows "\<exists>m'. uxListRemove x m = Some (of_nat (length (items (rl_remove x r))), m') \<and> list_view m' l (rl_remove x r) \<and>
    container m' (Item x) = None"
proof -
  have ok: "list_ok m l (items r)" and i: "index_of m l = before l (passed r)" using assms by (auto simp: list_view_def)
  obtain as bs where s: "items r = as @ x # bs" using assms(2) by (metis split_list)
  have d: "distinct (as @ x # bs)" using list_ok_distinct [OF ok] s by simp
  have rem: "items (rl_remove x r) = as @ bs"
  proof (cases "x \<in> set (passed r)")
    case True
    then have "x \<notin> set (ahead r)" using list_ok_distinct [OF ok] by (auto simp: items_def)
    then have "remove1 x (items r) = items (rl_remove x r)"
      using True by (simp add: items_def rl_remove_def remove1_append remove1_idem)
    then show ?thesis using d by (simp add: s remove1_append)
  next
    case False
    then have "remove1 x (items r) = items (rl_remove x r)"
      by (auto simp: items_def rl_remove_def remove1_append remove1_idem)
    then show ?thesis using d by (simp add: s remove1_append)
  qed
  have idx: "(if index_of m l = Item x then before l as else index_of m l) = before l (passed (rl_remove x r))"
  proof (cases "passed r" rule: rev_cases)
    case Nil
    then show ?thesis using i by (simp add: rl_remove_def before_def)
  next
    case (snoc us c)
    then have ic: "index_of m l = Item c" using i by (simp add: before_def)
    show ?thesis
    proof (cases "c = x")
      case True
      have "us @ x # ahead r = as @ x # bs" using s snoc True by (simp add: items_def)
      moreover have xu: "x \<notin> set us" "x \<notin> set (ahead r)" using list_ok_distinct [OF ok] snoc True by (auto simp: items_def)
      ultimately have "us = as" using append_Cons_eq_iff [OF xu, of as bs] by simp
      then show ?thesis using ic True snoc xu(1) by (simp add: rl_remove_def remove1_append)
    next
      case False
      then have "before l (passed (rl_remove x r)) = Item c"
        using snoc by (auto simp: rl_remove_def remove1_append before_def)
      then show ?thesis using ic False by simp
    qed
  qed
  show ?thesis
    using uxListRemove_unlink [OF ok [unfolded s]] unlink_list_ok [OF ok [unfolded s]] idx rem
    by (auto simp: list_view_def unlink_val)
qed

lemma view_next:
  assumes "list_view m l r" "items r \<noteq> []"
  shows "\<exists>x r' m'. rl_next r = Some (x, r') \<and> listGET_OWNER_OF_NEXT_ENTRY l m = (owner m (Item x), m') \<and> list_view m' l r'"
proof -
  have ok: "list_ok m l (items r)" and i: "index_of m l = before l (passed r)" using assms by (auto simp: list_view_def)
  show ?thesis
  proof (cases "ahead r")
    case (Cons y ys)
    then have ok': "list_ok m l (passed r @ y # ys)" using ok by (simp add: items_def)
    have "listGET_OWNER_OF_NEXT_ENTRY l m = (owner m (Item y), set_index l (Item y) m)"
      using i by (intro next_entry [OF ok']) simp
    then show ?thesis using list_ok_set_index [OF ok', of "Item y"] Cons
      by (simp add: rl_next_def list_view_def items_def before_def list_simps)
  next
    case Nil
    then obtain y ys where p: "passed r = y # ys" using assms(2) by (cases "passed r") (auto simp: items_def)
    then have ok': "list_ok m l ([] @ y # ys)" using ok Nil by (simp add: items_def)
    have "listGET_OWNER_OF_NEXT_ENTRY l m = (owner m (Item y), set_index l (Item y) m)"
      using i p by (intro next_entry [OF ok']) (auto simp: before_def)
    then show ?thesis using list_ok_set_index [OF ok', of "Item y"] Nil p
      by (simp add: rl_next_def list_view_def items_def before_def list_simps)
  qed
qed

interpretation pointer_list: kernel_list list_view vListInsertEnd uxListRemove listGET_OWNER_OF_NEXT_ENTRY
  "\<lambda>m x. container m (Item x) = None" "\<lambda>m x. owner m (Item x)"
  by unfold_locales (rule view_insert_end view_remove view_next; assumption)+

section \<open>Examples\<close>

text \<open>A store with one initialised list, and the list of the items 5 and 9.\<close>

definition blank_store :: lmem where
  "blank_store = \<lparr>nodes = (\<lambda>p. \<lparr>xItemValue = (case p of Item n \<Rightarrow> of_nat n | End _ \<Rightarrow> 0), pxNext = p, pxPrevious = p,
     pvOwner = (case p of Item n \<Rightarrow> 100 + n | End _ \<Rightarrow> 0), pxContainer = None\<rparr>),
     lists = (\<lambda>_. \<lparr>uxNumberOfItems = 0, pxIndex = End 0\<rparr>)\<rparr>"

definition two_items :: lmem where
  "two_items = vListInsertEnd 0 9 (vListInsertEnd 0 5 (vListInitialise 0 blank_store))"

lemma vListInitialise_ok:
  "(\<And>x. container m (Item x) \<noteq> Some l) \<Longrightarrow> list_ok (vListInitialise l m) l []"
  by (simp add: list_ok_def ring_def vListInitialise_def Let_def list_simps)

lemma two_items_ok: "list_ok two_items 0 [5, 9]" "index_of two_items 0 = End 0" "container two_items (Item 7) = None"
  "val two_items (Item 5) = 5" "val two_items (Item 9) = 9" "val two_items (Item 7) = 7"
  "owner two_items (Item 5) = 105" "owner two_items (Item 9) = 109"
  by (auto simp: two_items_def blank_store_def list_ok_def ring_def vListInsertEnd_def vListInitialise_def Let_def list_simps)

lemma vListInsert_refines_witness:
  "\<exists>m'. vListInsert 0 7 two_items = Some m' \<and> list_ok m' 0 [5, 7, 9]"
  using vListInsert_refines [OF two_items_ok(1,3)] two_items_ok(4-6) by (auto simp: insert_sorted_def)

lemma uxListRemove_refines_witness:
  "\<exists>m'. uxListRemove 5 two_items = Some (1, m') \<and> list_ok m' 0 [9]"
  using uxListRemove_refines [of two_items 0 "[]" 5 "[9]"] two_items_ok(1) by auto

lemma round_robin_witness:
  "fst (owners_of_next 2 0 two_items) = [105, 109]"
  using round_robin [of two_items 0 "[]" "[5, 9]"] two_items_ok by (simp add: before_def numeral_2_eq_2)

end
