(* ===== verification/RTOS_Tasks.thy ===== *)
theory RTOS_Tasks
  imports RTOS_List
begin

text \<open>
  The scheduler, \<open>FreeRTOS/src/tasks.c\<close>: the ready lists with their bitmap, the two delayed
  lists that swap when the tick counter wraps, event lists, the suspended scheduler with its
  pending ready list, priority inheritance, suspension and task notifications. Lists are values of
  \<open>rlist\<close> or sequences, which is what the pointer program of \<open>RTOS_List\<close> provides. The
  interrupt that performs a requested context switch is the step \<open>vTaskSwitchContext\<close>.
\<close>

unbundle bit_operations_syntax

section \<open>The state\<close>

type_synonym tid = nat

abbreviation (input) NULL :: tid where "NULL \<equiv> 0"
abbreviation (input) configMAX_PRIORITIES :: u32 where "configMAX_PRIORITIES \<equiv> 8"
abbreviation (input) taskEVENT_LIST_ITEM_VALUE_IN_USE :: u32 where "taskEVENT_LIST_ITEM_VALUE_IN_USE \<equiv> 0x80000000"

text \<open>The lists a task's state item and its event item can be in.\<close>

datatype state_list = Ready u32 | DelayedList bool | SuspendedList | TerminationList
datatype event_list = EventList nat | PendingReadyList

datatype notify_state = NotWaiting | Waiting | Received

datatype eNotifyAction = eNoAction | eSetBits | eIncrement | eSetValueWithOverwrite | eSetValueWithoutOverwrite

record tcb =
  uxPriority :: u32
  uxBasePriority :: u32
  uxMutexesHeld :: u32
  xStateValue :: u32
  xStateContainer :: "state_list option"
  xEventValue :: u32
  xEventContainer :: "event_list option"
  ulNotifiedValue :: u32
  ucNotifyState :: notify_state

text \<open>
  \<open>delayed\<close> are the two lists \<open>xDelayedTaskList1\<close> and \<open>xDelayedTaskList2\<close>,
  \<open>pxDelayedTaskList\<close> says which is the current one. \<open>yield_requested\<close> is the pending
  context switch interrupt.
\<close>

record kernel =
  tcbs :: "tid \<Rightarrow> tcb"
  pxCurrentTCB :: tid
  ready :: "u32 \<Rightarrow> rlist"
  delayed :: "bool \<Rightarrow> tid list"
  pxDelayedTaskList :: bool
  xSuspendedTaskList :: "tid list"
  xTasksWaitingTermination :: "tid list"
  xPendingReadyList :: "tid list"
  events :: "nat \<Rightarrow> tid list"
  uxTopReadyPriority :: u32
  xTickCount :: u32
  xNumOfOverflows :: u32
  xNextTaskUnblockTime :: u32
  uxSchedulerSuspended :: u32
  uxPendedTicks :: u32
  xYieldPending :: bool
  yield_requested :: bool
  xSchedulerRunning :: bool
  uxCurrentNumberOfTasks :: u32

abbreviation prio :: "kernel \<Rightarrow> tid \<Rightarrow> u32" where "prio K t \<equiv> uxPriority (tcbs K t)"

definition set_tcb :: "tid \<Rightarrow> (tcb \<Rightarrow> tcb) \<Rightarrow> kernel \<Rightarrow> kernel" where
  "set_tcb t f K = K\<lparr>tcbs := (tcbs K)(t := f (tcbs K t))\<rparr>"

definition prvGetTCBFromHandle :: "tid \<Rightarrow> kernel \<Rightarrow> tid" where
  "prvGetTCBFromHandle h K = (if h = NULL then pxCurrentTCB K else h)"

definition taskYIELD :: "kernel \<Rightarrow> kernel" where
  "taskYIELD K = K\<lparr>yield_requested := True\<rparr>"

section \<open>List operations on tasks\<close>

fun state_items :: "kernel \<Rightarrow> state_list \<Rightarrow> tid list" where
  "state_items K (Ready p) = items (ready K p)"
| "state_items K (DelayedList b) = delayed K b"
| "state_items K SuspendedList = xSuspendedTaskList K"
| "state_items K TerminationList = xTasksWaitingTermination K"

fun event_items :: "kernel \<Rightarrow> event_list \<Rightarrow> tid list" where
  "event_items K (EventList e) = events K e"
| "event_items K PendingReadyList = xPendingReadyList K"

text \<open>\<open>uxListRemove\<close> of a task's state item and of its event item, with the number of items left.\<close>

fun take_state :: "state_list \<Rightarrow> tid \<Rightarrow> kernel \<Rightarrow> kernel" where
  "take_state (Ready p) t K = K\<lparr>ready := (ready K)(p := rl_remove t (ready K p))\<rparr>"
| "take_state (DelayedList b) t K = K\<lparr>delayed := (delayed K)(b := remove1 t (delayed K b))\<rparr>"
| "take_state SuspendedList t K = K\<lparr>xSuspendedTaskList := remove1 t (xSuspendedTaskList K)\<rparr>"
| "take_state TerminationList t K = K\<lparr>xTasksWaitingTermination := remove1 t (xTasksWaitingTermination K)\<rparr>"

fun take_event :: "event_list \<Rightarrow> tid \<Rightarrow> kernel \<Rightarrow> kernel" where
  "take_event (EventList e) t K = K\<lparr>events := (events K)(e := remove1 t (events K e))\<rparr>"
| "take_event PendingReadyList t K = K\<lparr>xPendingReadyList := remove1 t (xPendingReadyList K)\<rparr>"

definition remove_state :: "tid \<Rightarrow> kernel \<Rightarrow> (u32 \<times> kernel) option" where
  "remove_state t K = do {
     s \<leftarrow> xStateContainer (tcbs K t);
     let K = take_state s t (set_tcb t (\<lambda>c. c\<lparr>xStateContainer := None\<rparr>) K);
     Some (of_nat (length (state_items K s)), K) }"

definition remove_event :: "tid \<Rightarrow> kernel \<Rightarrow> (u32 \<times> kernel) option" where
  "remove_event t K = do {
     e \<leftarrow> xEventContainer (tcbs K t);
     let K = take_event e t (set_tcb t (\<lambda>c. c\<lparr>xEventContainer := None\<rparr>) K);
     Some (of_nat (length (event_items K e)), K) }"

text \<open>\<open>vListInsertEnd\<close> and \<open>vListInsert\<close> of a task's items.\<close>

fun insert_state_end :: "state_list \<Rightarrow> tid \<Rightarrow> kernel \<Rightarrow> kernel" where
  "insert_state_end s t K = set_tcb t (\<lambda>c. c\<lparr>xStateContainer := Some s\<rparr>) (case s of
       Ready p \<Rightarrow> K\<lparr>ready := (ready K)(p := rl_insert_end t (ready K p))\<rparr>
     | DelayedList b \<Rightarrow> K\<lparr>delayed := (delayed K)(b := delayed K b @ [t])\<rparr>
     | SuspendedList \<Rightarrow> K\<lparr>xSuspendedTaskList := xSuspendedTaskList K @ [t]\<rparr>
     | TerminationList \<Rightarrow> K\<lparr>xTasksWaitingTermination := xTasksWaitingTermination K @ [t]\<rparr>)"

fun insert_event_end :: "event_list \<Rightarrow> tid \<Rightarrow> kernel \<Rightarrow> kernel" where
  "insert_event_end e t K = set_tcb t (\<lambda>c. c\<lparr>xEventContainer := Some e\<rparr>) (case e of
       EventList i \<Rightarrow> K\<lparr>events := (events K)(i := events K i @ [t])\<rparr>
     | PendingReadyList \<Rightarrow> K\<lparr>xPendingReadyList := xPendingReadyList K @ [t]\<rparr>)"

definition insert_delayed :: "bool \<Rightarrow> tid \<Rightarrow> kernel \<Rightarrow> kernel" where
  "insert_delayed b t K = set_tcb t (\<lambda>c. c\<lparr>xStateContainer := Some (DelayedList b)\<rparr>)
     (K\<lparr>delayed := (delayed K)(b := insert_sorted (\<lambda>u. xStateValue (tcbs K u)) t (delayed K b))\<rparr>)"

definition insert_event :: "nat \<Rightarrow> tid \<Rightarrow> kernel \<Rightarrow> kernel" where
  "insert_event e t K = set_tcb t (\<lambda>c. c\<lparr>xEventContainer := Some (EventList e)\<rparr>)
     (K\<lparr>events := (events K)(e := insert_sorted (\<lambda>u. xEventValue (tcbs K u)) t (events K e))\<rparr>)"

section \<open>Ready lists\<close>

definition portRECORD_READY_PRIORITY :: "u32 \<Rightarrow> kernel \<Rightarrow> kernel" where
  "portRECORD_READY_PRIORITY p K = K\<lparr>uxTopReadyPriority := uxTopReadyPriority K OR push_bit (unat p) 1\<rparr>"

definition portRESET_READY_PRIORITY :: "u32 \<Rightarrow> kernel \<Rightarrow> kernel" where
  "portRESET_READY_PRIORITY p K = K\<lparr>uxTopReadyPriority := uxTopReadyPriority K AND NOT (push_bit (unat p) 1)\<rparr>"

definition taskRESET_READY_PRIORITY :: "u32 \<Rightarrow> kernel \<Rightarrow> kernel" where
  "taskRESET_READY_PRIORITY p K = (if items (ready K p) = [] then portRESET_READY_PRIORITY p K else K)"

definition prvAddTaskToReadyList :: "tid \<Rightarrow> kernel \<Rightarrow> kernel" where
  "prvAddTaskToReadyList t K =
     (let K = portRECORD_READY_PRIORITY (prio K t) K in insert_state_end (Ready (prio K t)) t K)"

text \<open>\<open>31 - __clz\<close> of the bitmap. Of an empty bitmap it is no index of the ready lists.\<close>

definition portGET_HIGHEST_PRIORITY :: "u32 \<Rightarrow> nat option" where
  "portGET_HIGHEST_PRIORITY m = find (bit m) (rev [0..<32])"

definition taskSELECT_HIGHEST_PRIORITY_TASK :: "kernel \<Rightarrow> kernel option" where
  "taskSELECT_HIGHEST_PRIORITY_TASK K = do {
     p \<leftarrow> portGET_HIGHEST_PRIORITY (uxTopReadyPriority K);
     (t, r) \<leftarrow> rl_next (ready K (of_nat p));
     Some (K\<lparr>ready := (ready K)(of_nat p := r), pxCurrentTCB := t\<rparr>) }"

definition vTaskSwitchContext :: "kernel \<Rightarrow> kernel option" where
  "vTaskSwitchContext K = (if uxSchedulerSuspended K \<noteq> 0 then Some (K\<lparr>xYieldPending := True\<rparr>)
     else taskSELECT_HIGHEST_PRIORITY_TASK (K\<lparr>xYieldPending := False\<rparr>))"

definition prvInitialiseTaskLists :: "kernel \<Rightarrow> kernel" where
  "prvInitialiseTaskLists K = K\<lparr>ready := (\<lambda>p. if p < configMAX_PRIORITIES then \<lparr>passed = [], ahead = []\<rparr> else ready K p),
     delayed := (\<lambda>_. []), xPendingReadyList := [], xTasksWaitingTermination := [], xSuspendedTaskList := [],
     pxDelayedTaskList := False\<rparr>"

definition prvAddNewTaskToReadyList :: "tid \<Rightarrow> kernel \<Rightarrow> kernel" where
  "prvAddNewTaskToReadyList t K =
     (let K = K\<lparr>uxCurrentNumberOfTasks := uxCurrentNumberOfTasks K + 1\<rparr>;
          K = (if pxCurrentTCB K = NULL
               then (let K = K\<lparr>pxCurrentTCB := t\<rparr> in if uxCurrentNumberOfTasks K = 1 then prvInitialiseTaskLists K else K)
               else if \<not> xSchedulerRunning K \<and> prio K (pxCurrentTCB K) \<le> prio K t then K\<lparr>pxCurrentTCB := t\<rparr> else K);
          K = prvAddTaskToReadyList t K
      in if xSchedulerRunning K \<and> prio K (pxCurrentTCB K) < prio K t then taskYIELD K else K)"

section \<open>Time\<close>

definition prvResetNextTaskUnblockTime :: "kernel \<Rightarrow> kernel" where
  "prvResetNextTaskUnblockTime K = K\<lparr>xNextTaskUnblockTime := (case delayed K (pxDelayedTaskList K) of
       [] \<Rightarrow> portMAX_DELAY | t # _ \<Rightarrow> xStateValue (tcbs K t))\<rparr>"

definition taskSWITCH_DELAYED_LISTS :: "kernel \<Rightarrow> kernel" where
  "taskSWITCH_DELAYED_LISTS K = prvResetNextTaskUnblockTime
     (K\<lparr>pxDelayedTaskList := \<not> pxDelayedTaskList K, xNumOfOverflows := xNumOfOverflows K + 1\<rparr>)"

text \<open>The loop of \<open>xTaskIncrementTick\<close> that unblocks the tasks whose time has come.\<close>

partial_function (option) unblock_loop :: "u32 \<Rightarrow> bool \<Rightarrow> kernel \<Rightarrow> (bool \<times> kernel) option" where
  "unblock_loop now xSwitchRequired K = (case delayed K (pxDelayedTaskList K) of
       [] \<Rightarrow> Some (xSwitchRequired, K\<lparr>xNextTaskUnblockTime := portMAX_DELAY\<rparr>)
     | t # _ \<Rightarrow> (if now < xStateValue (tcbs K t)
         then Some (xSwitchRequired, K\<lparr>xNextTaskUnblockTime := xStateValue (tcbs K t)\<rparr>)
         else do {
           (_, K) \<leftarrow> remove_state t K;
           K \<leftarrow> (if xEventContainer (tcbs K t) \<noteq> None then map_option snd (remove_event t K) else Some K);
           let K = prvAddTaskToReadyList t K;
           unblock_loop now (xSwitchRequired \<or> prio K (pxCurrentTCB K) \<le> prio K t) K }))"

definition xTaskIncrementTick :: "kernel \<Rightarrow> (bool \<times> kernel) option" where
  "xTaskIncrementTick K = do {
     (xSwitchRequired, K) \<leftarrow> (if uxSchedulerSuspended K = 0
       then do {
         let now = xTickCount K + 1;
         let K = K\<lparr>xTickCount := now\<rparr>;
         let K = (if now = 0 then taskSWITCH_DELAYED_LISTS K else K);
         (sw, K) \<leftarrow> (if xNextTaskUnblockTime K \<le> now then unblock_loop now False K else Some (False, K));
         Some (sw \<or> 1 < length (items (ready K (prio K (pxCurrentTCB K)))), K) }
       else Some (False, K\<lparr>uxPendedTicks := uxPendedTicks K + 1\<rparr>));
     Some (xSwitchRequired \<or> xYieldPending K, K) }"

definition prvAddCurrentTaskToDelayedList :: "u32 \<Rightarrow> bool \<Rightarrow> kernel \<Rightarrow> kernel option" where
  "prvAddCurrentTaskToDelayedList xTicksToWait xCanBlockIndefinitely K = do {
     let t = pxCurrentTCB K;
     (n, K) \<leftarrow> remove_state t K;
     let K = (if n = 0 then portRESET_READY_PRIORITY (prio K t) K else K);
     Some (if xTicksToWait = portMAX_DELAY \<and> xCanBlockIndefinitely then insert_state_end SuspendedList t K
       else (let xTimeToWake = xTickCount K + xTicksToWait;
                 K = set_tcb t (\<lambda>c. c\<lparr>xStateValue := xTimeToWake\<rparr>) K
             in if xTimeToWake < xTickCount K then insert_delayed (\<not> pxDelayedTaskList K) t K
                else (let K = insert_delayed (pxDelayedTaskList K) t K
                      in if xTimeToWake < xNextTaskUnblockTime K
                         then K\<lparr>xNextTaskUnblockTime := xTimeToWake\<rparr> else K))) }"

definition vTaskSuspendAll :: "kernel \<Rightarrow> kernel" where
  "vTaskSuspendAll K = K\<lparr>uxSchedulerSuspended := uxSchedulerSuspended K + 1\<rparr>"

text \<open>The two loops of \<open>xTaskResumeAll\<close>: the pending ready list, and the ticks missed meanwhile.\<close>

partial_function (option) pending_loop :: "bool \<Rightarrow> kernel \<Rightarrow> (bool \<times> kernel) option" where
  "pending_loop any K = (case xPendingReadyList K of
       [] \<Rightarrow> Some (any, K)
     | t # _ \<Rightarrow> do {
         (_, K) \<leftarrow> remove_event t K;
         (_, K) \<leftarrow> remove_state t K;
         let K = prvAddTaskToReadyList t K;
         let K = (if prio K (pxCurrentTCB K) \<le> prio K t then K\<lparr>xYieldPending := True\<rparr> else K);
         pending_loop True K })"

fun pended_ticks :: "nat \<Rightarrow> kernel \<Rightarrow> kernel option" where
  "pended_ticks 0 K = Some K"
| "pended_ticks (Suc n) K = do {
     (sw, K) \<leftarrow> xTaskIncrementTick K;
     pended_ticks n (if sw then K\<lparr>xYieldPending := True\<rparr> else K) }"

definition xTaskResumeAll :: "kernel \<Rightarrow> (bool \<times> kernel) option" where
  "xTaskResumeAll K =
     (let K = K\<lparr>uxSchedulerSuspended := uxSchedulerSuspended K - 1\<rparr>
      in if uxSchedulerSuspended K = 0 \<and> uxCurrentNumberOfTasks K > 0
         then do {
           (any, K) \<leftarrow> pending_loop False K;
           let K = (if any then prvResetNextTaskUnblockTime K else K);
           K \<leftarrow> (if uxPendedTicks K > 0
             then map_option (\<lambda>K. K\<lparr>uxPendedTicks := 0\<rparr>) (pended_ticks (unat (uxPendedTicks K)) K) else Some K);
           Some (if xYieldPending K then (True, taskYIELD K) else (False, K)) }
         else Some (False, K))"

definition vTaskDelay :: "u32 \<Rightarrow> kernel \<Rightarrow> kernel option" where
  "vTaskDelay xTicksToDelay K = do {
     (xAlreadyYielded, K) \<leftarrow> (if xTicksToDelay > 0
       then do { K \<leftarrow> prvAddCurrentTaskToDelayedList xTicksToDelay False (vTaskSuspendAll K); xTaskResumeAll K }
       else Some (False, K));
     Some (if xAlreadyYielded then K else taskYIELD K) }"

text \<open>Whether \<open>vTaskDelayUntil\<close> has to wait: the wake time is still ahead, counting wraps.\<close>

definition should_delay :: "u32 \<Rightarrow> u32 \<Rightarrow> u32 \<Rightarrow> bool" where
  "should_delay now prev wake = (if now < prev then wake < prev \<and> wake > now else wake < prev \<or> wake > now)"

definition vTaskDelayUntil :: "u32 \<Rightarrow> u32 \<Rightarrow> kernel \<Rightarrow> (u32 \<times> kernel) option" where
  "vTaskDelayUntil pxPreviousWakeTime xTimeIncrement K = do {
     let K = vTaskSuspendAll K;
     let now = xTickCount K;
     let xTimeToWake = pxPreviousWakeTime + xTimeIncrement;
     K \<leftarrow> (if should_delay now pxPreviousWakeTime xTimeToWake
       then prvAddCurrentTaskToDelayedList (xTimeToWake - now) False K else Some K);
     (xAlreadyYielded, K) \<leftarrow> xTaskResumeAll K;
     Some (xTimeToWake, if xAlreadyYielded then K else taskYIELD K) }"

section \<open>Event lists\<close>

definition vTaskPlaceOnEventList :: "nat \<Rightarrow> u32 \<Rightarrow> kernel \<Rightarrow> kernel option" where
  "vTaskPlaceOnEventList e xTicksToWait K =
     prvAddCurrentTaskToDelayedList xTicksToWait True (insert_event e (pxCurrentTCB K) K)"

definition vTaskPlaceOnUnorderedEventList :: "nat \<Rightarrow> u32 \<Rightarrow> u32 \<Rightarrow> kernel \<Rightarrow> kernel option" where
  "vTaskPlaceOnUnorderedEventList e v xTicksToWait K =
     (let t = pxCurrentTCB K;
          K = set_tcb t (\<lambda>c. c\<lparr>xEventValue := v OR taskEVENT_LIST_ITEM_VALUE_IN_USE\<rparr>) K;
          K = insert_event_end (EventList e) t K
      in prvAddCurrentTaskToDelayedList xTicksToWait True K)"

definition vTaskPlaceOnEventListRestricted :: "nat \<Rightarrow> u32 \<Rightarrow> bool \<Rightarrow> kernel \<Rightarrow> kernel option" where
  "vTaskPlaceOnEventListRestricted e xTicksToWait xWaitIndefinitely K =
     (let K = insert_event_end (EventList e) (pxCurrentTCB K) K;
          xTicksToWait = (if xWaitIndefinitely then portMAX_DELAY else xTicksToWait)
      in prvAddCurrentTaskToDelayedList xTicksToWait xWaitIndefinitely K)"

definition xTaskRemoveFromEventList :: "nat \<Rightarrow> kernel \<Rightarrow> (bool \<times> kernel) option" where
  "xTaskRemoveFromEventList e K = (case events K e of [] \<Rightarrow> None | t # _ \<Rightarrow> do {
     (_, K) \<leftarrow> remove_event t K;
     K \<leftarrow> (if uxSchedulerSuspended K = 0
       then do { (_, K) \<leftarrow> remove_state t K; Some (prvAddTaskToReadyList t K) }
       else Some (insert_event_end PendingReadyList t K));
     Some (if prio K (pxCurrentTCB K) < prio K t then (True, K\<lparr>xYieldPending := True\<rparr>) else (False, K)) })"

definition vTaskRemoveFromUnorderedEventList :: "tid \<Rightarrow> u32 \<Rightarrow> kernel \<Rightarrow> kernel option" where
  "vTaskRemoveFromUnorderedEventList t v K = do {
     let K = set_tcb t (\<lambda>c. c\<lparr>xEventValue := v OR taskEVENT_LIST_ITEM_VALUE_IN_USE\<rparr>) K;
     (_, K) \<leftarrow> remove_event t K;
     (_, K) \<leftarrow> remove_state t K;
     let K = prvAddTaskToReadyList t K;
     Some (if prio K (pxCurrentTCB K) < prio K t then K\<lparr>xYieldPending := True\<rparr> else K) }"

definition vTaskMissedYield :: "kernel \<Rightarrow> kernel" where
  "vTaskMissedYield K = K\<lparr>xYieldPending := True\<rparr>"

definition uxTaskResetEventItemValue :: "kernel \<Rightarrow> u32 \<times> kernel" where
  "uxTaskResetEventItemValue K = (let t = pxCurrentTCB K in
     (xEventValue (tcbs K t), set_tcb t (\<lambda>c. c\<lparr>xEventValue := configMAX_PRIORITIES - uxPriority c\<rparr>) K))"

section \<open>Timeouts\<close>

record TimeOut =
  xOverflowCount :: u32
  xTimeOnEntering :: u32

definition vTaskInternalSetTimeOutState :: "kernel \<Rightarrow> TimeOut" where
  "vTaskInternalSetTimeOutState K = \<lparr>xOverflowCount = xNumOfOverflows K, xTimeOnEntering = xTickCount K\<rparr>"

definition xTaskCheckForTimeOut :: "kernel \<Rightarrow> TimeOut \<Rightarrow> u32 \<Rightarrow> bool \<times> TimeOut \<times> u32" where
  "xTaskCheckForTimeOut K pxTimeOut pxTicksToWait =
     (let xElapsedTime = xTickCount K - xTimeOnEntering pxTimeOut
      in if pxTicksToWait = portMAX_DELAY then (False, pxTimeOut, pxTicksToWait)
         else if xNumOfOverflows K \<noteq> xOverflowCount pxTimeOut \<and> xTimeOnEntering pxTimeOut \<le> xTickCount K
         then (True, pxTimeOut, pxTicksToWait)
         else if xElapsedTime < pxTicksToWait
         then (False, vTaskInternalSetTimeOutState K, pxTicksToWait - xElapsedTime)
         else (True, pxTimeOut, 0))"

section \<open>Priorities\<close>

definition uxTaskPriorityGet :: "tid \<Rightarrow> kernel \<Rightarrow> u32" where
  "uxTaskPriorityGet xTask K = prio K (prvGetTCBFromHandle xTask K)"

text \<open>The event item's value is the task's priority, highest first, unless a list uses it otherwise.\<close>

definition set_event_priority :: "tid \<Rightarrow> u32 \<Rightarrow> kernel \<Rightarrow> kernel" where
  "set_event_priority t p K = (if xEventValue (tcbs K t) AND taskEVENT_LIST_ITEM_VALUE_IN_USE = 0
     then set_tcb t (\<lambda>c. c\<lparr>xEventValue := configMAX_PRIORITIES - p\<rparr>) K else K)"

definition vTaskPrioritySet :: "tid \<Rightarrow> u32 \<Rightarrow> kernel \<Rightarrow> kernel option" where
  "vTaskPrioritySet xTask uxNewPriority K =
     (let p = (if configMAX_PRIORITIES \<le> uxNewPriority then configMAX_PRIORITIES - 1 else uxNewPriority);
          t = prvGetTCBFromHandle xTask K;
          uxCurrentBasePriority = uxBasePriority (tcbs K t)
      in if uxCurrentBasePriority \<noteq> p
         then do {
           let xYieldRequired = (if p > uxCurrentBasePriority
             then t \<noteq> pxCurrentTCB K \<and> prio K (pxCurrentTCB K) \<le> p else t = pxCurrentTCB K);
           let uxPriorityUsedOnEntry = prio K t;
           let K = set_tcb t (\<lambda>c. (if uxBasePriority c = uxPriority c then c\<lparr>uxPriority := p\<rparr> else c)\<lparr>uxBasePriority := p\<rparr>) K;
           let K = set_event_priority t p K;
           K \<leftarrow> (if xStateContainer (tcbs K t) = Some (Ready uxPriorityUsedOnEntry)
             then do {
               (n, K) \<leftarrow> remove_state t K;
               let K = (if n = 0 then portRESET_READY_PRIORITY uxPriorityUsedOnEntry K else K);
               Some (prvAddTaskToReadyList t K) }
             else Some K);
           Some (if xYieldRequired then taskYIELD K else K) }
         else Some K)"

definition xTaskPriorityInherit :: "tid \<Rightarrow> kernel \<Rightarrow> (bool \<times> kernel) option" where
  "xTaskPriorityInherit h K =
     (let c = prio K (pxCurrentTCB K)
      in if h = NULL then Some (False, K)
         else if prio K h < c
         then do {
           let K = set_event_priority h c K;
           K \<leftarrow> (if xStateContainer (tcbs K h) = Some (Ready (prio K h))
             then do {
               (n, K) \<leftarrow> remove_state h K;
               let K = (if n = 0 then taskRESET_READY_PRIORITY (prio K h) K else K);
               let K = set_tcb h (\<lambda>b. b\<lparr>uxPriority := c\<rparr>) K;
               Some (prvAddTaskToReadyList h K) }
             else Some (set_tcb h (\<lambda>b. b\<lparr>uxPriority := c\<rparr>) K));
           Some (True, K) }
         else Some (uxBasePriority (tcbs K h) < c, K))"

definition xTaskPriorityDisinherit :: "tid \<Rightarrow> kernel \<Rightarrow> (bool \<times> kernel) option" where
  "xTaskPriorityDisinherit h K = (if h = NULL then Some (False, K) else do {
     let K = set_tcb h (\<lambda>c. c\<lparr>uxMutexesHeld := uxMutexesHeld c - 1\<rparr>) K;
     if prio K h \<noteq> uxBasePriority (tcbs K h) \<and> uxMutexesHeld (tcbs K h) = 0
     then do {
       (n, K) \<leftarrow> remove_state h K;
       let K = (if n = 0 then taskRESET_READY_PRIORITY (prio K h) K else K);
       let K = set_tcb h (\<lambda>c. c\<lparr>uxPriority := uxBasePriority c\<rparr>) K;
       let K = set_tcb h (\<lambda>c. c\<lparr>xEventValue := configMAX_PRIORITIES - uxPriority c\<rparr>) K;
       Some (True, prvAddTaskToReadyList h K) }
     else Some (False, K) })"

definition vTaskPriorityDisinheritAfterTimeout :: "tid \<Rightarrow> u32 \<Rightarrow> kernel \<Rightarrow> kernel option" where
  "vTaskPriorityDisinheritAfterTimeout h uxHighestPriorityWaitingTask K =
     (let uxPriorityToUse = max (uxBasePriority (tcbs K h)) uxHighestPriorityWaitingTask
      in if h \<noteq> NULL \<and> prio K h \<noteq> uxPriorityToUse \<and> uxMutexesHeld (tcbs K h) = 1
         then do {
           let uxPriorityUsedOnEntry = prio K h;
           let K = set_tcb h (\<lambda>c. c\<lparr>uxPriority := uxPriorityToUse\<rparr>) K;
           let K = set_event_priority h uxPriorityToUse K;
           if xStateContainer (tcbs K h) = Some (Ready uxPriorityUsedOnEntry)
           then do {
             (n, K) \<leftarrow> remove_state h K;
             let K = (if n = 0 then taskRESET_READY_PRIORITY (prio K h) K else K);
             Some (prvAddTaskToReadyList h K) }
           else Some K }
         else Some K)"

definition pvTaskIncrementMutexHeldCount :: "kernel \<Rightarrow> tid \<times> kernel" where
  "pvTaskIncrementMutexHeldCount K = (let t = pxCurrentTCB K in
     (t, if t \<noteq> NULL then set_tcb t (\<lambda>c. c\<lparr>uxMutexesHeld := uxMutexesHeld c + 1\<rparr>) K else K))"

section \<open>Suspension\<close>

definition prvTaskIsTaskSuspended :: "tid \<Rightarrow> kernel \<Rightarrow> bool" where
  "prvTaskIsTaskSuspended t K \<longleftrightarrow> xStateContainer (tcbs K t) = Some SuspendedList \<and>
     xEventContainer (tcbs K t) \<noteq> Some PendingReadyList \<and> xEventContainer (tcbs K t) = None"

definition vTaskSuspend :: "tid \<Rightarrow> kernel \<Rightarrow> kernel option" where
  "vTaskSuspend xTaskToSuspend K = do {
     let t = prvGetTCBFromHandle xTaskToSuspend K;
     (n, K) \<leftarrow> remove_state t K;
     let K = (if n = 0 then taskRESET_READY_PRIORITY (prio K t) K else K);
     K \<leftarrow> (if xEventContainer (tcbs K t) \<noteq> None then map_option snd (remove_event t K) else Some K);
     let K = insert_state_end SuspendedList t K;
     let K = (if ucNotifyState (tcbs K t) = Waiting then set_tcb t (\<lambda>c. c\<lparr>ucNotifyState := NotWaiting\<rparr>) K else K);
     let K = (if xSchedulerRunning K then prvResetNextTaskUnblockTime K else K);
     if t = pxCurrentTCB K
     then (if xSchedulerRunning K then Some (taskYIELD K)
       else if of_nat (length (xSuspendedTaskList K)) = uxCurrentNumberOfTasks K
       then Some (K\<lparr>pxCurrentTCB := NULL\<rparr>) else vTaskSwitchContext K)
     else Some K }"

definition vTaskResume :: "tid \<Rightarrow> kernel \<Rightarrow> kernel option" where
  "vTaskResume t K = (if t \<noteq> pxCurrentTCB K \<and> t \<noteq> NULL \<and> prvTaskIsTaskSuspended t K
     then do {
       (_, K) \<leftarrow> remove_state t K;
       let K = prvAddTaskToReadyList t K;
       Some (if prio K (pxCurrentTCB K) \<le> prio K t then taskYIELD K else K) }
     else Some K)"

definition xTaskResumeFromISR :: "tid \<Rightarrow> kernel \<Rightarrow> (bool \<times> kernel) option" where
  "xTaskResumeFromISR t K = (if prvTaskIsTaskSuspended t K
     then (if uxSchedulerSuspended K = 0
       then do {
         let xYieldRequired = prio K (pxCurrentTCB K) \<le> prio K t;
         (_, K) \<leftarrow> remove_state t K;
         Some (xYieldRequired, prvAddTaskToReadyList t K) }
       else Some (False, insert_event_end PendingReadyList t K))
     else Some (False, K))"

section \<open>Notifications\<close>

definition notify_value :: "eNotifyAction \<Rightarrow> u32 \<Rightarrow> tcb \<Rightarrow> bool \<times> u32" where
  "notify_value a v c = (case a of
       eSetBits \<Rightarrow> (True, ulNotifiedValue c OR v)
     | eIncrement \<Rightarrow> (True, ulNotifiedValue c + 1)
     | eSetValueWithOverwrite \<Rightarrow> (True, v)
     | eSetValueWithoutOverwrite \<Rightarrow> (if ucNotifyState c \<noteq> Received then (True, v) else (False, ulNotifiedValue c))
     | eNoAction \<Rightarrow> (True, ulNotifiedValue c))"

text \<open>The result, the previous value, and the kernel.\<close>

definition xTaskGenericNotify :: "tid \<Rightarrow> u32 \<Rightarrow> eNotifyAction \<Rightarrow> kernel \<Rightarrow> (bool \<times> u32 \<times> kernel) option" where
  "xTaskGenericNotify t ulValue eAction K = do {
     let previous = ulNotifiedValue (tcbs K t);
     let ucOriginalNotifyState = ucNotifyState (tcbs K t);
     let (xReturn, v) = notify_value eAction ulValue (tcbs K t);
     let K = set_tcb t (\<lambda>c. c\<lparr>ucNotifyState := Received, ulNotifiedValue := v\<rparr>) K;
     if ucOriginalNotifyState = Waiting
     then do {
       (_, K) \<leftarrow> remove_state t K;
       let K = prvAddTaskToReadyList t K;
       Some (xReturn, previous, if prio K (pxCurrentTCB K) < prio K t then taskYIELD K else K) }
     else Some (xReturn, previous, K) }"

text \<open>Waking a notified task from an interrupt; the flag is \<open>*pxHigherPriorityTaskWoken = pdTRUE\<close>.\<close>

definition notify_wake_from_isr :: "tid \<Rightarrow> kernel \<Rightarrow> (bool \<times> kernel) option" where
  "notify_wake_from_isr t K = do {
     K \<leftarrow> (if uxSchedulerSuspended K = 0
       then do { (_, K) \<leftarrow> remove_state t K; Some (prvAddTaskToReadyList t K) }
       else Some (insert_event_end PendingReadyList t K));
     Some (if prio K (pxCurrentTCB K) < prio K t then (True, K\<lparr>xYieldPending := True\<rparr>) else (False, K)) }"

definition xTaskGenericNotifyFromISR :: "tid \<Rightarrow> u32 \<Rightarrow> eNotifyAction \<Rightarrow> kernel \<Rightarrow> (bool \<times> u32 \<times> bool \<times> kernel) option" where
  "xTaskGenericNotifyFromISR t ulValue eAction K = do {
     let previous = ulNotifiedValue (tcbs K t);
     let ucOriginalNotifyState = ucNotifyState (tcbs K t);
     let (xReturn, v) = notify_value eAction ulValue (tcbs K t);
     let K = set_tcb t (\<lambda>c. c\<lparr>ucNotifyState := Received, ulNotifiedValue := v\<rparr>) K;
     (woken, K) \<leftarrow> (if ucOriginalNotifyState = Waiting then notify_wake_from_isr t K else Some (False, K));
     Some (xReturn, previous, woken, K) }"

definition vTaskNotifyGiveFromISR :: "tid \<Rightarrow> kernel \<Rightarrow> (bool \<times> kernel) option" where
  "vTaskNotifyGiveFromISR t K = do {
     let ucOriginalNotifyState = ucNotifyState (tcbs K t);
     let K = set_tcb t (\<lambda>c. c\<lparr>ucNotifyState := Received, ulNotifiedValue := ulNotifiedValue c + 1\<rparr>) K;
     if ucOriginalNotifyState = Waiting then notify_wake_from_isr t K else Some (False, K) }"

text \<open>
  The two waiting functions, each cut at the point where the task has requested its switch: the
  part before it, and the part after the task runs again.
\<close>

definition ulTaskNotifyTake_wait :: "u32 \<Rightarrow> kernel \<Rightarrow> kernel option" where
  "ulTaskNotifyTake_wait xTicksToWait K = (let t = pxCurrentTCB K in
     if ulNotifiedValue (tcbs K t) = 0
     then (let K = set_tcb t (\<lambda>c. c\<lparr>ucNotifyState := Waiting\<rparr>) K
       in if xTicksToWait > 0 then map_option taskYIELD (prvAddCurrentTaskToDelayedList xTicksToWait True K) else Some K)
     else Some K)"

definition ulTaskNotifyTake_return :: "bool \<Rightarrow> kernel \<Rightarrow> u32 \<times> kernel" where
  "ulTaskNotifyTake_return xClearCountOnExit K =
     (let t = pxCurrentTCB K; v = ulNotifiedValue (tcbs K t);
          K = (if v \<noteq> 0 then set_tcb t (\<lambda>c. c\<lparr>ulNotifiedValue := if xClearCountOnExit then 0 else v - 1\<rparr>) K else K)
      in (v, set_tcb t (\<lambda>c. c\<lparr>ucNotifyState := NotWaiting\<rparr>) K))"

definition xTaskNotifyWait_wait :: "u32 \<Rightarrow> u32 \<Rightarrow> kernel \<Rightarrow> kernel option" where
  "xTaskNotifyWait_wait ulBitsToClearOnEntry xTicksToWait K = (let t = pxCurrentTCB K in
     if ucNotifyState (tcbs K t) \<noteq> Received
     then (let K = set_tcb t (\<lambda>c. c\<lparr>ulNotifiedValue := ulNotifiedValue c AND NOT ulBitsToClearOnEntry, ucNotifyState := Waiting\<rparr>) K
       in if xTicksToWait > 0 then map_option taskYIELD (prvAddCurrentTaskToDelayedList xTicksToWait True K) else Some K)
     else Some K)"

definition xTaskNotifyWait_return :: "u32 \<Rightarrow> kernel \<Rightarrow> bool \<times> u32 \<times> kernel" where
  "xTaskNotifyWait_return ulBitsToClearOnExit K =
     (let t = pxCurrentTCB K; v = ulNotifiedValue (tcbs K t); xReturn = (ucNotifyState (tcbs K t) = Received);
          K = (if xReturn then set_tcb t (\<lambda>c. c\<lparr>ulNotifiedValue := v AND NOT ulBitsToClearOnExit\<rparr>) K else K)
      in (xReturn, v, set_tcb t (\<lambda>c. c\<lparr>ucNotifyState := NotWaiting\<rparr>) K))"

definition xTaskNotifyStateClear :: "tid \<Rightarrow> kernel \<Rightarrow> bool \<times> kernel" where
  "xTaskNotifyStateClear xTask K = (let t = prvGetTCBFromHandle xTask K in
     if ucNotifyState (tcbs K t) = Received
     then (True, set_tcb t (\<lambda>c. c\<lparr>ucNotifyState := NotWaiting\<rparr>) K) else (False, K))"

section \<open>Moving a task's items\<close>

text \<open>
  \<open>detach\<close> and \<open>detach_event\<close> are the kernel after \<open>uxListRemove\<close> of the state item and of the
  event item. The rules below say what each move changes; \<open>kernel_simps\<close> says that it changes
  nothing else.
\<close>

named_theorems kernel_simps \<open>the fields of the kernel after a move\<close>

definition detach :: "tid \<Rightarrow> kernel \<Rightarrow> kernel" where
  "detach t K = (case xStateContainer (tcbs K t) of None \<Rightarrow> K
     | Some s \<Rightarrow> take_state s t (set_tcb t (\<lambda>c. c\<lparr>xStateContainer := None\<rparr>) K))"

definition detach_event :: "tid \<Rightarrow> kernel \<Rightarrow> kernel" where
  "detach_event t K = (case xEventContainer (tcbs K t) of None \<Rightarrow> K
     | Some e \<Rightarrow> take_event e t (set_tcb t (\<lambda>c. c\<lparr>xEventContainer := None\<rparr>) K))"

lemma remove_state_eq:
  "xStateContainer (tcbs K t) = Some s \<Longrightarrow>
    remove_state t K = Some (of_nat (length (state_items (detach t K) s)), detach t K)"
  by (simp add: remove_state_def detach_def Let_def)

lemma remove_event_eq:
  "xEventContainer (tcbs K t) = Some e \<Longrightarrow>
    remove_event t K = Some (of_nat (length (event_items (detach_event t K) e)), detach_event t K)"
  by (simp add: remove_event_def detach_event_def Let_def)

lemma maybe_remove_event:
  "(if xEventContainer (tcbs K t) \<noteq> None then map_option snd (remove_event t K) else Some K) = Some (detach_event t K)"
  by (auto simp: remove_event_eq) (simp add: detach_event_def)

lemma set_tcb_simps [kernel_simps]:
  "tcbs (set_tcb t f K) = (tcbs K)(t := f (tcbs K t))"
  "state_items (set_tcb t f K) s = state_items K s"
  "event_items (set_tcb t f K) e = event_items K e"
  "pxCurrentTCB (set_tcb t f K) = pxCurrentTCB K"
  "pxDelayedTaskList (set_tcb t f K) = pxDelayedTaskList K"
  "uxTopReadyPriority (set_tcb t f K) = uxTopReadyPriority K"
  "xTickCount (set_tcb t f K) = xTickCount K"
  "xNumOfOverflows (set_tcb t f K) = xNumOfOverflows K"
  "xNextTaskUnblockTime (set_tcb t f K) = xNextTaskUnblockTime K"
  "uxSchedulerSuspended (set_tcb t f K) = uxSchedulerSuspended K"
  "uxPendedTicks (set_tcb t f K) = uxPendedTicks K"
  "xYieldPending (set_tcb t f K) = xYieldPending K"
  "yield_requested (set_tcb t f K) = yield_requested K"
  "xSchedulerRunning (set_tcb t f K) = xSchedulerRunning K"
  "uxCurrentNumberOfTasks (set_tcb t f K) = uxCurrentNumberOfTasks K"
  by (cases s; cases e; simp add: set_tcb_def)+

lemma detach_simps [kernel_simps]:
  "tcbs (detach t K) = (tcbs K)(t := (tcbs K t)\<lparr>xStateContainer := None\<rparr>)"
  "event_items (detach t K) e = event_items K e"
  "pxCurrentTCB (detach t K) = pxCurrentTCB K"
  "pxDelayedTaskList (detach t K) = pxDelayedTaskList K"
  "uxTopReadyPriority (detach t K) = uxTopReadyPriority K"
  "xTickCount (detach t K) = xTickCount K"
  "xNumOfOverflows (detach t K) = xNumOfOverflows K"
  "xNextTaskUnblockTime (detach t K) = xNextTaskUnblockTime K"
  "uxSchedulerSuspended (detach t K) = uxSchedulerSuspended K"
  "uxPendedTicks (detach t K) = uxPendedTicks K"
  "xYieldPending (detach t K) = xYieldPending K"
  "yield_requested (detach t K) = yield_requested K"
  "xSchedulerRunning (detach t K) = xSchedulerRunning K"
  "uxCurrentNumberOfTasks (detach t K) = uxCurrentNumberOfTasks K"
  by (cases "xStateContainer (tcbs K t)"; cases "the (xStateContainer (tcbs K t))"; cases e;
      simp add: detach_def set_tcb_def fun_eq_iff)+

lemma detach_event_simps [kernel_simps]:
  "tcbs (detach_event t K) = (tcbs K)(t := (tcbs K t)\<lparr>xEventContainer := None\<rparr>)"
  "state_items (detach_event t K) s = state_items K s"
  "pxCurrentTCB (detach_event t K) = pxCurrentTCB K"
  "pxDelayedTaskList (detach_event t K) = pxDelayedTaskList K"
  "uxTopReadyPriority (detach_event t K) = uxTopReadyPriority K"
  "xTickCount (detach_event t K) = xTickCount K"
  "xNumOfOverflows (detach_event t K) = xNumOfOverflows K"
  "xNextTaskUnblockTime (detach_event t K) = xNextTaskUnblockTime K"
  "uxSchedulerSuspended (detach_event t K) = uxSchedulerSuspended K"
  "uxPendedTicks (detach_event t K) = uxPendedTicks K"
  "xYieldPending (detach_event t K) = xYieldPending K"
  "yield_requested (detach_event t K) = yield_requested K"
  "xSchedulerRunning (detach_event t K) = xSchedulerRunning K"
  "uxCurrentNumberOfTasks (detach_event t K) = uxCurrentNumberOfTasks K"
  by (cases "xEventContainer (tcbs K t)"; cases "the (xEventContainer (tcbs K t))"; cases s;
      simp add: detach_event_def set_tcb_def fun_eq_iff)+

lemma insert_state_end_simps [kernel_simps]:
  "tcbs (insert_state_end s t K) = (tcbs K)(t := (tcbs K t)\<lparr>xStateContainer := Some s\<rparr>)"
  "event_items (insert_state_end s t K) e = event_items K e"
  "pxCurrentTCB (insert_state_end s t K) = pxCurrentTCB K"
  "pxDelayedTaskList (insert_state_end s t K) = pxDelayedTaskList K"
  "uxTopReadyPriority (insert_state_end s t K) = uxTopReadyPriority K"
  "xTickCount (insert_state_end s t K) = xTickCount K"
  "xNumOfOverflows (insert_state_end s t K) = xNumOfOverflows K"
  "xNextTaskUnblockTime (insert_state_end s t K) = xNextTaskUnblockTime K"
  "uxSchedulerSuspended (insert_state_end s t K) = uxSchedulerSuspended K"
  "uxPendedTicks (insert_state_end s t K) = uxPendedTicks K"
  "xYieldPending (insert_state_end s t K) = xYieldPending K"
  "yield_requested (insert_state_end s t K) = yield_requested K"
  "xSchedulerRunning (insert_state_end s t K) = xSchedulerRunning K"
  "uxCurrentNumberOfTasks (insert_state_end s t K) = uxCurrentNumberOfTasks K"
  by (cases s; cases e; simp add: set_tcb_def)+

lemma insert_event_end_simps [kernel_simps]:
  "tcbs (insert_event_end e t K) = (tcbs K)(t := (tcbs K t)\<lparr>xEventContainer := Some e\<rparr>)"
  "state_items (insert_event_end e t K) s = state_items K s"
  "pxCurrentTCB (insert_event_end e t K) = pxCurrentTCB K"
  "pxDelayedTaskList (insert_event_end e t K) = pxDelayedTaskList K"
  "uxTopReadyPriority (insert_event_end e t K) = uxTopReadyPriority K"
  "xTickCount (insert_event_end e t K) = xTickCount K"
  "xNumOfOverflows (insert_event_end e t K) = xNumOfOverflows K"
  "xNextTaskUnblockTime (insert_event_end e t K) = xNextTaskUnblockTime K"
  "uxSchedulerSuspended (insert_event_end e t K) = uxSchedulerSuspended K"
  "uxPendedTicks (insert_event_end e t K) = uxPendedTicks K"
  "xYieldPending (insert_event_end e t K) = xYieldPending K"
  "yield_requested (insert_event_end e t K) = yield_requested K"
  "xSchedulerRunning (insert_event_end e t K) = xSchedulerRunning K"
  "uxCurrentNumberOfTasks (insert_event_end e t K) = uxCurrentNumberOfTasks K"
  by (cases e; cases s; simp add: set_tcb_def)+

lemma insert_delayed_simps [kernel_simps]:
  "tcbs (insert_delayed b t K) = (tcbs K)(t := (tcbs K t)\<lparr>xStateContainer := Some (DelayedList b)\<rparr>)"
  "event_items (insert_delayed b t K) e = event_items K e"
  "pxCurrentTCB (insert_delayed b t K) = pxCurrentTCB K"
  "pxDelayedTaskList (insert_delayed b t K) = pxDelayedTaskList K"
  "uxTopReadyPriority (insert_delayed b t K) = uxTopReadyPriority K"
  "xTickCount (insert_delayed b t K) = xTickCount K"
  "xNumOfOverflows (insert_delayed b t K) = xNumOfOverflows K"
  "xNextTaskUnblockTime (insert_delayed b t K) = xNextTaskUnblockTime K"
  "uxSchedulerSuspended (insert_delayed b t K) = uxSchedulerSuspended K"
  "uxPendedTicks (insert_delayed b t K) = uxPendedTicks K"
  "xYieldPending (insert_delayed b t K) = xYieldPending K"
  "yield_requested (insert_delayed b t K) = yield_requested K"
  "xSchedulerRunning (insert_delayed b t K) = xSchedulerRunning K"
  "uxCurrentNumberOfTasks (insert_delayed b t K) = uxCurrentNumberOfTasks K"
  by (cases e; simp add: insert_delayed_def set_tcb_def)+

lemma insert_event_simps [kernel_simps]:
  "tcbs (insert_event e t K) = (tcbs K)(t := (tcbs K t)\<lparr>xEventContainer := Some (EventList e)\<rparr>)"
  "state_items (insert_event e t K) s = state_items K s"
  "pxCurrentTCB (insert_event e t K) = pxCurrentTCB K"
  "pxDelayedTaskList (insert_event e t K) = pxDelayedTaskList K"
  "uxTopReadyPriority (insert_event e t K) = uxTopReadyPriority K"
  "xTickCount (insert_event e t K) = xTickCount K"
  "xNumOfOverflows (insert_event e t K) = xNumOfOverflows K"
  "xNextTaskUnblockTime (insert_event e t K) = xNextTaskUnblockTime K"
  "uxSchedulerSuspended (insert_event e t K) = uxSchedulerSuspended K"
  "uxPendedTicks (insert_event e t K) = uxPendedTicks K"
  "xYieldPending (insert_event e t K) = xYieldPending K"
  "yield_requested (insert_event e t K) = yield_requested K"
  "xSchedulerRunning (insert_event e t K) = xSchedulerRunning K"
  "uxCurrentNumberOfTasks (insert_event e t K) = uxCurrentNumberOfTasks K"
  by (cases s; simp add: insert_event_def set_tcb_def)+

lemma items_scalar [kernel_simps]:
  "state_items (K\<lparr>xTickCount := v\<rparr>) s = state_items K s"
  "state_items (K\<lparr>xNumOfOverflows := v\<rparr>) s = state_items K s"
  "state_items (K\<lparr>xNextTaskUnblockTime := v\<rparr>) s = state_items K s"
  "state_items (K\<lparr>uxTopReadyPriority := v\<rparr>) s = state_items K s"
  "state_items (K\<lparr>uxSchedulerSuspended := v\<rparr>) s = state_items K s"
  "state_items (K\<lparr>uxPendedTicks := v\<rparr>) s = state_items K s"
  "state_items (K\<lparr>uxCurrentNumberOfTasks := v\<rparr>) s = state_items K s"
  "state_items (K\<lparr>xYieldPending := b\<rparr>) s = state_items K s"
  "state_items (K\<lparr>yield_requested := b\<rparr>) s = state_items K s"
  "state_items (K\<lparr>pxDelayedTaskList := b\<rparr>) s = state_items K s"
  "state_items (K\<lparr>pxCurrentTCB := t\<rparr>) s = state_items K s"
  "event_items (K\<lparr>xTickCount := v\<rparr>) e = event_items K e"
  "event_items (K\<lparr>xNumOfOverflows := v\<rparr>) e = event_items K e"
  "event_items (K\<lparr>xNextTaskUnblockTime := v\<rparr>) e = event_items K e"
  "event_items (K\<lparr>uxTopReadyPriority := v\<rparr>) e = event_items K e"
  "event_items (K\<lparr>uxSchedulerSuspended := v\<rparr>) e = event_items K e"
  "event_items (K\<lparr>uxPendedTicks := v\<rparr>) e = event_items K e"
  "event_items (K\<lparr>uxCurrentNumberOfTasks := v\<rparr>) e = event_items K e"
  "event_items (K\<lparr>xYieldPending := b\<rparr>) e = event_items K e"
  "event_items (K\<lparr>yield_requested := b\<rparr>) e = event_items K e"
  "event_items (K\<lparr>pxDelayedTaskList := b\<rparr>) e = event_items K e"
  "event_items (K\<lparr>pxCurrentTCB := t\<rparr>) e = event_items K e"
  by (cases s; simp)+ (cases e; simp)+

section \<open>The lists and the containers agree\<close>

text \<open>
  A task's item is in the list its container pointer names, once, and in no other list.
\<close>

definition lists_ok :: "kernel \<Rightarrow> bool" where
  "lists_ok K \<longleftrightarrow>
     (\<forall>s. distinct (state_items K s)) \<and> (\<forall>s t. t \<in> set (state_items K s) \<longleftrightarrow> xStateContainer (tcbs K t) = Some s) \<and>
     (\<forall>e. distinct (event_items K e)) \<and> (\<forall>e t. t \<in> set (event_items K e) \<longleftrightarrow> xEventContainer (tcbs K t) = Some e)"

lemma lists_okD:
  assumes "lists_ok K"
  shows "distinct (state_items K s)" "t \<in> set (state_items K s) \<longleftrightarrow> xStateContainer (tcbs K t) = Some s"
    "distinct (event_items K e)" "t \<in> set (event_items K e) \<longleftrightarrow> xEventContainer (tcbs K t) = Some e"
  using assms by (auto simp: lists_ok_def)

lemma take_state_items:
  assumes "distinct (state_items K s)"
  shows "set (state_items (take_state s t K) s') = (if s' = s then set (state_items K s) - {t} else set (state_items K s'))"
    and "distinct (state_items K s') \<Longrightarrow> distinct (state_items (take_state s t K) s')"
  using assms by (cases s; cases s'; auto simp: distinct_remove)+

lemma take_event_items:
  assumes "distinct (event_items K s)"
  shows "set (event_items (take_event s t K) s') = (if s' = s then set (event_items K s) - {t} else set (event_items K s'))"
    and "distinct (event_items K s') \<Longrightarrow> distinct (event_items (take_event s t K) s')"
  using assms by (cases s; cases s'; auto)+

lemma lists_ok_detach:
  assumes "lists_ok K" shows "lists_ok (detach t K)"
proof (cases "xStateContainer (tcbs K t)")
  case None
  then show ?thesis using assms by (simp add: detach_def)
next
  case (Some s)
  have d: "detach t K = take_state s t (set_tcb t (\<lambda>c. c\<lparr>xStateContainer := None\<rparr>) K)"
    using Some by (simp add: detach_def)
  note L = lists_okD [OF assms]
  have s: "set (state_items (detach t K) s') = (if s' = s then set (state_items K s) - {t} else set (state_items K s'))"
    "distinct (state_items (detach t K) s')" for s'
    using take_state_items [where K = "set_tcb t (\<lambda>c. c\<lparr>xStateContainer := None\<rparr>) K" and s = s and t = t and s' = s'] L(1)
    unfolding d by (simp_all add: kernel_simps)
  show ?thesis unfolding lists_ok_def
    using L Some by (auto simp: s kernel_simps)
qed

lemma lists_ok_detach_event:
  assumes "lists_ok K" shows "lists_ok (detach_event t K)"
proof (cases "xEventContainer (tcbs K t)")
  case None
  then show ?thesis using assms by (simp add: detach_event_def)
next
  case (Some s)
  have d: "detach_event t K = take_event s t (set_tcb t (\<lambda>c. c\<lparr>xEventContainer := None\<rparr>) K)"
    using Some by (simp add: detach_event_def)
  note L = lists_okD [OF assms]
  have s: "set (event_items (detach_event t K) s') = (if s' = s then set (event_items K s) - {t} else set (event_items K s'))"
    "distinct (event_items (detach_event t K) s')" for s'
    using take_event_items [where K = "set_tcb t (\<lambda>c. c\<lparr>xEventContainer := None\<rparr>) K" and s = s and t = t and s' = s'] L(3)
    unfolding d by (simp_all add: kernel_simps)
  show ?thesis unfolding lists_ok_def
    using L Some by (auto simp: s kernel_simps)
qed

lemma insert_sorted_parts:
  obtains as bs where "xs = as @ bs" "insert_sorted w t xs = as @ t # bs"
  by (rule that [of "takeWhile (\<lambda>y. w y \<le> w t) xs" "dropWhile (\<lambda>y. w y \<le> w t) xs"]) (simp_all add: insert_sorted_def)

lemma set_insert_sorted [simp]: "set (insert_sorted w t xs) = insert t (set xs)"
  by (rule insert_sorted_parts [of xs w t]) auto

lemma distinct_insert_sorted: "distinct xs \<Longrightarrow> t \<notin> set xs \<Longrightarrow> distinct (insert_sorted w t xs)"
  by (rule insert_sorted_parts [of xs w t]) auto

lemma insert_state_items:
  shows "set (state_items (insert_state_end s t K) s') =
      (if s' = s then insert t (set (state_items K s)) else set (state_items K s'))"
    and "distinct (state_items K s') \<Longrightarrow> t \<notin> set (state_items K s) \<Longrightarrow> distinct (state_items (insert_state_end s t K) s')"
  by (cases s; cases s'; auto simp: set_tcb_def distinct_insert_end)+

lemma insert_event_items:
  shows "set (event_items (insert_event_end s t K) s') =
      (if s' = s then insert t (set (event_items K s)) else set (event_items K s'))"
    and "distinct (event_items K s') \<Longrightarrow> t \<notin> set (event_items K s) \<Longrightarrow> distinct (event_items (insert_event_end s t K) s')"
  by (cases s; cases s'; auto simp: set_tcb_def)+

lemma insert_sorted_items:
  shows "set (state_items (insert_delayed b t K) s') =
      (if s' = DelayedList b then insert t (set (state_items K s')) else set (state_items K s'))"
    and "distinct (state_items K s') \<Longrightarrow> t \<notin> set (state_items K (DelayedList b)) \<Longrightarrow>
      distinct (state_items (insert_delayed b t K) s')"
    and "set (event_items (insert_event e t K) e') =
      (if e' = EventList e then insert t (set (event_items K e')) else set (event_items K e'))"
    and "distinct (event_items K e') \<Longrightarrow> t \<notin> set (event_items K (EventList e)) \<Longrightarrow>
      distinct (event_items (insert_event e t K) e')"
  by (cases s'; cases e'; auto simp: insert_delayed_def insert_event_def set_tcb_def distinct_insert_sorted)+

lemma lists_ok_insert:
  assumes ok: "lists_ok K"
  shows "xStateContainer (tcbs K t) = None \<Longrightarrow> lists_ok (insert_state_end s t K)"
    and "xStateContainer (tcbs K t) = None \<Longrightarrow> lists_ok (insert_delayed b t K)"
    and "xEventContainer (tcbs K t) = None \<Longrightarrow> lists_ok (insert_event_end e t K)"
    and "xEventContainer (tcbs K t) = None \<Longrightarrow> lists_ok (insert_event i t K)"
  using lists_okD [OF ok] unfolding lists_ok_def
  by (simp_all add: insert_state_items insert_event_items insert_sorted_items kernel_simps del: state_items.simps event_items.simps
      insert_state_end.simps insert_event_end.simps)

lemma lists_ok_set_tcb:
  assumes "lists_ok K" "xStateContainer (f (tcbs K t)) = xStateContainer (tcbs K t)"
    "xEventContainer (f (tcbs K t)) = xEventContainer (tcbs K t)"
  shows "lists_ok (set_tcb t f K)"
  using assms by (auto simp: lists_ok_def kernel_simps)

lemma lists_ok_scalar [simp]:
  "lists_ok (K\<lparr>xTickCount := v\<rparr>) = lists_ok K"
  "lists_ok (K\<lparr>xNumOfOverflows := v\<rparr>) = lists_ok K"
  "lists_ok (K\<lparr>xNextTaskUnblockTime := v\<rparr>) = lists_ok K"
  "lists_ok (K\<lparr>uxTopReadyPriority := v\<rparr>) = lists_ok K"
  "lists_ok (K\<lparr>uxSchedulerSuspended := v\<rparr>) = lists_ok K"
  "lists_ok (K\<lparr>uxPendedTicks := v\<rparr>) = lists_ok K"
  "lists_ok (K\<lparr>uxCurrentNumberOfTasks := v\<rparr>) = lists_ok K"
  "lists_ok (K\<lparr>xYieldPending := b\<rparr>) = lists_ok K"
  "lists_ok (K\<lparr>yield_requested := b\<rparr>) = lists_ok K"
  "lists_ok (K\<lparr>pxDelayedTaskList := b\<rparr>) = lists_ok K"
  "lists_ok (K\<lparr>pxCurrentTCB := t\<rparr>) = lists_ok K"
  by (simp_all add: lists_ok_def kernel_simps)

end
