(* ===== verification/RTOS_Invariant.thy ===== *)
theory RTOS_Invariant
  imports RTOS_Tasks
begin

text \<open>
  The invariant of the scheduler and that every operation of \<open>RTOS_Tasks\<close> keeps it: the lists and
  the containers agree, the bitmap is exact, the delayed lists are sorted and on the right side of
  the tick counter. With each operation comes what it does, as an equation or a contract.
\<close>

unbundle bit_operations_syntax

section \<open>The invariant of the scheduler\<close>

abbreviation st :: "kernel \<Rightarrow> tid \<Rightarrow> state_list option" where "st K t \<equiv> xStateContainer (tcbs K t)"
abbreviation ev :: "kernel \<Rightarrow> tid \<Rightarrow> event_list option" where "ev K t \<equiv> xEventContainer (tcbs K t)"
abbreviation wake :: "kernel \<Rightarrow> tid \<Rightarrow> u32" where "wake K t \<equiv> xStateValue (tcbs K t)"

text \<open>Priorities index the ready lists, and a task's handle is an address other than \<open>NULL\<close>.\<close>

definition tasks_ok :: "kernel \<Rightarrow> bool" where
  "tasks_ok K \<longleftrightarrow>
     (\<forall>t. prio K t < configMAX_PRIORITIES \<and> uxBasePriority (tcbs K t) < configMAX_PRIORITIES) \<and>
     (\<forall>t. st K t \<noteq> None \<or> ev K t \<noteq> None \<longrightarrow> t \<noteq> NULL \<and> t < 2 ^ 32) \<and>
     (\<forall>t p. st K t = Some (Ready p) \<longrightarrow> p = prio K t)"

text \<open>The bitmap has exactly the bits of the priorities at which a task is ready.\<close>

definition bitmap_ok :: "kernel \<Rightarrow> bool" where
  "bitmap_ok K \<longleftrightarrow> (\<forall>i. bit (uxTopReadyPriority K) i \<longleftrightarrow> i < 8 \<and> (\<exists>t. st K t = Some (Ready (of_nat i))))"

text \<open>
  Both delayed lists are sorted. The current one holds wake times still to come before the counter
  wraps, the other one those after it, and the next unblock time is not after the first wake time.
\<close>

definition sorted_ok :: "kernel \<Rightarrow> bool" where
  "sorted_ok K \<longleftrightarrow> (\<forall>b. sorted (map (wake K) (delayed K b)))"

definition time_ok :: "kernel \<Rightarrow> bool" where
  "time_ok K \<longleftrightarrow>
     (\<forall>t. st K t = Some (DelayedList (pxDelayedTaskList K)) \<longrightarrow> xTickCount K < wake K t \<and> xNextTaskUnblockTime K \<le> wake K t) \<and>
     (\<forall>t. st K t = Some (DelayedList (\<not> pxDelayedTaskList K)) \<longrightarrow> wake K t < xTickCount K)"

text \<open>
  A task whose event item is in a list is in a state list too and is not waiting for a
  notification; when it waits for an event it is not ready. Only a suspended scheduler leaves
  tasks pending.
\<close>

definition events_ok :: "kernel \<Rightarrow> bool" where
  "events_ok K \<longleftrightarrow>
     (\<forall>t. ev K t \<noteq> None \<longrightarrow> st K t \<noteq> None \<and> ucNotifyState (tcbs K t) \<noteq> Waiting) \<and>
     (\<forall>t i p. ev K t = Some (EventList i) \<longrightarrow> st K t \<noteq> Some (Ready p))"

definition pending_ok :: "kernel \<Rightarrow> bool" where
  "pending_ok K \<longleftrightarrow> (uxSchedulerSuspended K = 0 \<longrightarrow> (\<forall>t. ev K t \<noteq> Some PendingReadyList))"

definition core_ok :: "kernel \<Rightarrow> bool" where
  "core_ok K \<longleftrightarrow> lists_ok K \<and> tasks_ok K \<and> bitmap_ok K \<and> sorted_ok K"

definition kernel_ok :: "kernel \<Rightarrow> bool" where
  "kernel_ok K \<longleftrightarrow> core_ok K \<and> events_ok K \<and> pending_ok K \<and> time_ok K"

lemma core_okD:
  assumes "core_ok K"
  shows "lists_ok K" "tasks_ok K" "bitmap_ok K" "sorted_ok K"
  using assms by (simp_all add: core_ok_def)

lemma kernel_okD:
  assumes "kernel_ok K"
  shows "core_ok K" "events_ok K" "pending_ok K" "time_ok K"
  using assms by (simp_all add: kernel_ok_def)

lemma tasks_okD:
  assumes "tasks_ok K"
  shows "prio K t < 8" "uxBasePriority (tcbs K t) < 8" "st K t = Some s \<Longrightarrow> t \<noteq> NULL \<and> t < 2 ^ 32"
    "ev K t = Some e \<Longrightarrow> t \<noteq> NULL \<and> t < 2 ^ 32" "st K t = Some (Ready p) \<Longrightarrow> p = prio K t"
  using assms by (auto simp: tasks_ok_def)

lemma sorted_okD: "sorted_ok K \<Longrightarrow> sorted (map (wake K) (delayed K b))"
  by (simp add: sorted_ok_def)

text \<open>No list is longer than a word can count, so the count \<open>uxListRemove\<close> returns is exact.\<close>

lemma few_items:
  assumes "distinct (xs :: tid list)" "\<And>t. t \<in> set xs \<Longrightarrow> t < 2 ^ 32 \<and> t \<noteq> 0"
  shows "length xs < 2 ^ 32"
proof -
  have "length xs = card (set xs)" using assms(1) by (simp add: distinct_card)
  also have "\<dots> \<le> card {0 <..< 2 ^ 32 :: nat}" using assms(2) by (intro card_mono) auto
  finally show ?thesis by simp
qed

lemma count_is_exact:
  assumes "lists_ok K" "tasks_ok K"
  shows "(of_nat (length (state_items K s)) = (0 :: u32)) = (state_items K s = [])"
    and "unat (of_nat (length (state_items K s)) :: u32) = length (state_items K s)"
proof -
  have "length (state_items K s) < 2 ^ 32"
    by (rule few_items) (use lists_okD [OF assms(1)] tasks_okD [OF assms(2)] in auto)
  then show "unat (of_nat (length (state_items K s)) :: u32) = length (state_items K s)"
    by (simp add: unat_of_nat take_bit_nat_eq_self)
  then show "(of_nat (length (state_items K s)) = (0 :: u32)) = (state_items K s = [])"
    by (simp add: unat_eq_zero [symmetric])
qed

lemma ready_items_empty:
  assumes "lists_ok K"
  shows "items (ready K p) = [] \<longleftrightarrow> (\<forall>t. st K t \<noteq> Some (Ready p))"
proof -
  have "items (ready K p) = [] \<longleftrightarrow> (\<forall>t. t \<notin> set (state_items K (Ready p)))" by (cases "items (ready K p)") auto
  then show ?thesis unfolding lists_okD(2) [OF assms] .
qed

lemma small_priority:
  assumes "i < 8" "(p :: u32) < 8"
  shows "of_nat i = p \<longleftrightarrow> i = unat p"
  using assms by (auto simp: word_less_nat_alt unat_of_nat take_bit_nat_eq_self)

section \<open>Each move keeps it\<close>

lemma delayed_simps [kernel_simps]:
  "delayed (set_tcb t f K) b = delayed K b"
  "delayed (detach t K) b = (if st K t = Some (DelayedList b) then remove1 t (delayed K b) else delayed K b)"
  "delayed (detach_event t K) b = delayed K b"
  "delayed (insert_state_end s t K) b = (if s = DelayedList b then delayed K b @ [t] else delayed K b)"
  "delayed (insert_event_end e t K) b = delayed K b"
  "delayed (insert_event i t K) b = delayed K b"
  "delayed (insert_delayed b' t K) b = (if b = b' then insert_sorted (wake K) t (delayed K b) else delayed K b)"
proof -
  show "delayed (detach t K) b = (if st K t = Some (DelayedList b) then remove1 t (delayed K b) else delayed K b)"
    by (cases "st K t"; cases "the (st K t)") (auto simp: set_tcb_def detach_def)
  show "delayed (detach_event t K) b = delayed K b"
    by (cases "ev K t"; cases "the (ev K t)") (auto simp: set_tcb_def detach_event_def)
  show "delayed (insert_state_end s t K) b = (if s = DelayedList b then delayed K b @ [t] else delayed K b)"
    by (cases s) (auto simp: set_tcb_def)
  show "delayed (insert_event_end e t K) b = delayed K b" by (cases e) (auto simp: set_tcb_def)
qed (simp_all add: set_tcb_def insert_event_def insert_delayed_def)

lemma sorted_upd:
  assumes "sorted (map f xs)" "t \<notin> set xs \<or> f t = v"
  shows "sorted (map (f(t := v)) xs)"
proof -
  have "map (f(t := v)) xs = map f xs" using assms(2) by (intro map_cong) auto
  then show ?thesis using assms(1) by (rule ssubst)
qed

lemma wake_upd [simp]:
  "xStateValue v = xStateValue (f t) \<Longrightarrow> (\<lambda>u. xStateValue ((f(t := v)) u)) = (\<lambda>u. xStateValue (f u))"
  by auto

lemma core_set_tcb:
  assumes ok: "core_ok K"
    and c: "xStateContainer (f (tcbs K t)) = st K t" "xEventContainer (f (tcbs K t)) = ev K t"
    and p: "uxPriority (f (tcbs K t)) < 8" "uxBasePriority (f (tcbs K t)) < 8"
    and r: "uxPriority (f (tcbs K t)) = prio K t \<or> (\<forall>p. st K t \<noteq> Some (Ready p))"
    and w: "xStateValue (f (tcbs K t)) = wake K t \<or> (\<forall>b. st K t \<noteq> Some (DelayedList b))"
  shows "core_ok (set_tcb t f K)"
proof -
  note o = core_okD [OF ok]
  have "lists_ok (set_tcb t f K)" by (rule lists_ok_set_tcb) (simp_all add: o c)
  moreover have "tasks_ok (set_tcb t f K)"
    using o(2) c p r by (auto simp: tasks_ok_def kernel_simps)
  moreover have "bitmap_ok (set_tcb t f K)"
    using o(3) c by (simp add: bitmap_ok_def kernel_simps if_distrib [of "xStateContainer"] cong: if_cong) (metis c(1))
  moreover have "sorted (map (wake (set_tcb t f K)) (delayed K b))" for b
  proof -
    have "wake (set_tcb t f K) = (wake K)(t := xStateValue (f (tcbs K t)))"
      by (auto simp: kernel_simps)
    moreover have "t \<notin> set (delayed K b) \<or> wake K t = xStateValue (f (tcbs K t))"
      using w lists_okD(2) [OF o(1), of t "DelayedList b"] by auto
    ultimately show ?thesis using sorted_upd [OF sorted_okD [OF o(4)]] by simp
  qed
  then have "sorted_ok (set_tcb t f K)" by (simp add: sorted_ok_def delayed_simps)
  ultimately show ?thesis by (simp add: core_ok_def)
qed

lemma core_tcb_events:
  assumes ok: "core_ok K" and l: "lists_ok K'"
    and t: "tcbs K' = (tcbs K)(t := (tcbs K t)\<lparr>xEventContainer := e\<rparr>)" "e \<noteq> None \<longrightarrow> t \<noteq> NULL \<and> t < 2 ^ 32"
    and same: "uxTopReadyPriority K' = uxTopReadyPriority K" "delayed K' = delayed K"
  shows "core_ok K'"
proof -
  note o = core_okD [OF ok]
  have st: "st K' = st K" and w: "wake K' = wake K" by (auto simp: t)
  have "tasks_ok K'" using o(2) t by (auto simp: tasks_ok_def)
  moreover have "bitmap_ok K'" using o(3) fun_cong [OF st] by (simp add: bitmap_ok_def same del: fun_upd_apply)
  moreover have "sorted_ok K'" using o(4) w by (simp add: sorted_ok_def same)
  ultimately show ?thesis using l by (simp add: core_ok_def)
qed

lemma core_detach_event: "core_ok K \<Longrightarrow> core_ok (detach_event t K)"
  by (rule core_tcb_events [of K _ t None]) (auto simp: kernel_simps core_ok_def lists_ok_detach_event)

lemma core_insert_event:
  assumes "core_ok K" "ev K t = None" "t \<noteq> NULL" "t < 2 ^ 32"
  shows "core_ok (insert_event_end e t K)" "core_ok (insert_event i t K)"
  by (rule core_tcb_events [of K _ t "Some e"]; use assms in \<open>auto simp: kernel_simps core_ok_def lists_ok_insert simp del: insert_event_end.simps\<close>)
     (rule core_tcb_events [of K _ t "Some (EventList i)"]; use assms in \<open>auto simp: kernel_simps core_ok_def lists_ok_insert\<close>)

lemma core_scalar [simp]:
  "core_ok (K\<lparr>xTickCount := v\<rparr>) = core_ok K"
  "core_ok (K\<lparr>xNumOfOverflows := v\<rparr>) = core_ok K"
  "core_ok (K\<lparr>xNextTaskUnblockTime := v\<rparr>) = core_ok K"
  "core_ok (K\<lparr>pxDelayedTaskList := b\<rparr>) = core_ok K"
  "core_ok (K\<lparr>uxSchedulerSuspended := v\<rparr>) = core_ok K"
  "core_ok (K\<lparr>uxPendedTicks := v\<rparr>) = core_ok K"
  "core_ok (K\<lparr>uxCurrentNumberOfTasks := v\<rparr>) = core_ok K"
  "core_ok (K\<lparr>xYieldPending := b\<rparr>) = core_ok K"
  "core_ok (K\<lparr>yield_requested := b\<rparr>) = core_ok K"
  "core_ok (K\<lparr>pxCurrentTCB := t\<rparr>) = core_ok K"
  by (simp_all add: core_ok_def tasks_ok_def bitmap_ok_def sorted_ok_def)

lemma taskYIELD_ok [simp]: "core_ok (taskYIELD K) = core_ok K" "tcbs (taskYIELD K) = tcbs K"
  by (simp_all add: taskYIELD_def)

lemma sorted_detach:
  assumes "sorted_ok K" shows "sorted_ok (detach t K)"
proof -
  have "wake (detach t K) = wake K" by (auto simp: kernel_simps)
  then show ?thesis using sorted_okD [OF assms] by (simp add: sorted_ok_def kernel_simps sorted_map_remove1)
qed

lemma tasks_detach: "tasks_ok K \<Longrightarrow> tasks_ok (detach t K)"
  by (auto simp: tasks_ok_def kernel_simps)

lemma sorted_insert_end:
  assumes "sorted_ok K" "\<And>b. s \<noteq> DelayedList b"
  shows "sorted_ok (insert_state_end s t K)"
proof -
  have "wake (insert_state_end s t K) = wake K" by (auto simp: kernel_simps simp del: insert_state_end.simps)
  then show ?thesis using assms by (simp add: sorted_ok_def kernel_simps del: insert_state_end.simps)
qed

lemma tasks_insert_end:
  assumes "tasks_ok K" "t \<noteq> NULL" "t < 2 ^ 32" "\<And>p. s = Ready p \<Longrightarrow> p = prio K t"
  shows "tasks_ok (insert_state_end s t K)"
  using assms by (auto simp: tasks_ok_def kernel_simps simp del: insert_state_end.simps)

lemma portRESET_simps [kernel_simps]:
  "tcbs (portRESET_READY_PRIORITY p K) = tcbs K"
  "ready (portRESET_READY_PRIORITY p K) = ready K"
  "portRESET_READY_PRIORITY p (set_tcb t f K) = set_tcb t f (portRESET_READY_PRIORITY p K)"
  "pxCurrentTCB (portRESET_READY_PRIORITY p K) = pxCurrentTCB K"
  "xTickCount (portRESET_READY_PRIORITY p K) = xTickCount K"
  "pxDelayedTaskList (portRESET_READY_PRIORITY p K) = pxDelayedTaskList K"
  "xNextTaskUnblockTime (portRESET_READY_PRIORITY p K) = xNextTaskUnblockTime K"
  "uxSchedulerSuspended (portRESET_READY_PRIORITY p K) = uxSchedulerSuspended K"
  by (simp_all add: portRESET_READY_PRIORITY_def set_tcb_def)

lemma bit_reset: "bit (m AND NOT (2 ^ k) :: u32) i \<longleftrightarrow> bit m i \<and> i \<noteq> k"
  by (auto simp: bit_and_iff bit_not_iff bit_exp_iff dest: bit_imp_le_length)

lemma bit_record: "bit (m OR 2 ^ k :: u32) i \<longleftrightarrow> bit m i \<or> i = k \<and> k < 32"
  by (auto simp: bit_or_iff bit_exp_iff)

text \<open>Taking a task out of its list, with its priority's bit reset when no other task is ready there.\<close>

lemma core_detach:
  assumes ok: "core_ok K" and r: "(\<forall>p. st K t \<noteq> Some (Ready p)) \<or> items (ready (detach t K) (prio K t)) \<noteq> []"
  shows "core_ok (detach t K)"
proof -
  note o = core_okD [OF ok]
  have l: "lists_ok (detach t K)" by (rule lists_ok_detach [OF o(1)])
  have "(\<exists>u. st (detach t K) u = Some (Ready p)) = (\<exists>u. st K u = Some (Ready p))" for p
  proof (cases "st K t = Some (Ready p)")
    case True
    then show ?thesis using r tasks_okD(5) [OF o(2) True] ready_items_empty [OF l, of p] by auto
  qed (auto simp: kernel_simps)
  then have "bitmap_ok (detach t K)"
    using o(3) by (simp add: bitmap_ok_def detach_simps(5))
  then show ?thesis using l o sorted_detach tasks_detach by (simp add: core_ok_def)
qed

lemma core_detach_reset:
  assumes ok: "core_ok K" and e: "items (ready (detach t K) (prio K t)) = []"
  shows "core_ok (portRESET_READY_PRIORITY (prio K t) (detach t K))"
proof -
  note o = core_okD [OF ok]
  have l: "lists_ok (detach t K)" by (rule lists_ok_detach [OF o(1)])
  have ne: "st (detach t K) u \<noteq> Some (Ready (prio K t))" for u
    using e ready_items_empty [OF l] by blast
  have "bit (uxTopReadyPriority K) i \<and> i \<noteq> unat (prio K t) \<longleftrightarrow> i < 8 \<and> (\<exists>u. st (detach t K) u = Some (Ready (of_nat i)))" for i
  proof (cases "i < 8")
    case True
    then have eq: "of_nat i = prio K t \<longleftrightarrow> i = unat (prio K t)" by (rule small_priority) (rule tasks_okD(1) [OF o(2)])
    show ?thesis
    proof (cases "i = unat (prio K t)")
      case True
      then show ?thesis using eq ne by auto
    next
      case False
      then have "st K t \<noteq> Some (Ready (of_nat i))" using eq tasks_okD(5) [OF o(2)] by metis
      then have "(\<exists>u. st (detach t K) u = Some (Ready (of_nat i))) = (\<exists>u. st K u = Some (Ready (of_nat i)))"
        by (auto simp: kernel_simps)
      then show ?thesis using False True o(3) unfolding bitmap_ok_def by blast
    qed
  qed (use o(3) in \<open>simp add: bitmap_ok_def\<close>)
  then have "bitmap_ok (portRESET_READY_PRIORITY (prio K t) (detach t K))"
    unfolding bitmap_ok_def by (simp add: portRESET_READY_PRIORITY_def bit_reset detach_simps(5))
  moreover have "tasks_ok (portRESET_READY_PRIORITY p (detach t K))" "sorted_ok (portRESET_READY_PRIORITY p (detach t K))"
    "lists_ok (portRESET_READY_PRIORITY p (detach t K))" for p
    using l sorted_detach [OF o(4), of t] tasks_detach [OF o(2), of t]
    by (simp_all add: portRESET_READY_PRIORITY_def tasks_ok_def sorted_ok_def)
  ultimately show ?thesis by (simp add: core_ok_def)
qed

text \<open>Putting a task that is in no list into one.\<close>

lemma add_ready_def':
  "prvAddTaskToReadyList t K =
     insert_state_end (Ready (prio K t)) t (K\<lparr>uxTopReadyPriority := uxTopReadyPriority K OR 2 ^ unat (prio K t)\<rparr>)"
  by (simp add: prvAddTaskToReadyList_def portRECORD_READY_PRIORITY_def Let_def)

lemma add_ready_simps [kernel_simps]:
  "tcbs (prvAddTaskToReadyList t K) = (tcbs K)(t := (tcbs K t)\<lparr>xStateContainer := Some (Ready (prio K t))\<rparr>)"
  "event_items (prvAddTaskToReadyList t K) e = event_items K e"
  "pxCurrentTCB (prvAddTaskToReadyList t K) = pxCurrentTCB K"
  "pxDelayedTaskList (prvAddTaskToReadyList t K) = pxDelayedTaskList K"
  "delayed (prvAddTaskToReadyList t K) = delayed K"
  "uxTopReadyPriority (prvAddTaskToReadyList t K) = uxTopReadyPriority K OR 2 ^ unat (prio K t)"
  "xTickCount (prvAddTaskToReadyList t K) = xTickCount K"
  "xNumOfOverflows (prvAddTaskToReadyList t K) = xNumOfOverflows K"
  "xNextTaskUnblockTime (prvAddTaskToReadyList t K) = xNextTaskUnblockTime K"
  "uxSchedulerSuspended (prvAddTaskToReadyList t K) = uxSchedulerSuspended K"
  "uxPendedTicks (prvAddTaskToReadyList t K) = uxPendedTicks K"
  "xYieldPending (prvAddTaskToReadyList t K) = xYieldPending K"
  "yield_requested (prvAddTaskToReadyList t K) = yield_requested K"
  "xSchedulerRunning (prvAddTaskToReadyList t K) = xSchedulerRunning K"
  "uxCurrentNumberOfTasks (prvAddTaskToReadyList t K) = uxCurrentNumberOfTasks K"
  unfolding add_ready_def' by (simp_all add: kernel_simps fun_eq_iff del: insert_state_end.simps)

lemma core_add_ready_weak:
  assumes ok: "lists_ok K" "tasks_ok K" "sorted_ok K"
    and b: "\<And>i. i \<noteq> unat (prio K t) \<Longrightarrow> bit (uxTopReadyPriority K) i \<longleftrightarrow> i < 8 \<and> (\<exists>u. st K u = Some (Ready (of_nat i)))"
    and t: "st K t = None" "t \<noteq> NULL" "t < 2 ^ 32"
  shows "core_ok (prvAddTaskToReadyList t K)"
proof -
  let ?K = "K\<lparr>uxTopReadyPriority := uxTopReadyPriority K OR 2 ^ unat (prio K t)\<rparr>"
  have o: "lists_ok ?K" "tasks_ok ?K" "sorted_ok ?K" using ok by (simp_all add: tasks_ok_def sorted_ok_def)
  have "lists_ok (prvAddTaskToReadyList t K)"
    unfolding add_ready_def' by (rule lists_ok_insert(1) [OF o(1)]) (simp add: t)
  moreover have "tasks_ok (prvAddTaskToReadyList t K)"
    unfolding add_ready_def' by (rule tasks_insert_end [OF o(2) t(2,3)]) auto
  moreover have "sorted_ok (prvAddTaskToReadyList t K)"
    unfolding add_ready_def' by (rule sorted_insert_end [OF o(3)]) auto
  moreover have "bitmap_ok (prvAddTaskToReadyList t K)"
    unfolding bitmap_ok_def
  proof
    fix i
    have p: "prio K t < 8" by (rule tasks_okD(1) [OF ok(2)])
    then have p8: "unat (prio K t) < 8" by (simp add: word_less_nat_alt)
    have own: "unat (prio K t) < 8 \<and> (\<exists>u. st (prvAddTaskToReadyList t K) u = Some (Ready (of_nat (unat (prio K t)))))"
      using p8 by (auto simp: kernel_simps intro!: exI [of _ t])
    show "bit (uxTopReadyPriority (prvAddTaskToReadyList t K)) i \<longleftrightarrow>
        i < 8 \<and> (\<exists>u. st (prvAddTaskToReadyList t K) u = Some (Ready (of_nat i)))"
    proof (cases "i = unat (prio K t)")
      case True
      then show ?thesis using own p8 by (simp add: add_ready_simps(6) bit_record)
    next
      case False
      have "(\<exists>u. st (prvAddTaskToReadyList t K) u = Some (Ready (of_nat i))) = (\<exists>u. st K u = Some (Ready (of_nat i)))" if "i < 8"
        using small_priority [OF that p] False t(1) by (auto simp: kernel_simps) (metis option.distinct(1))
      then show ?thesis using False b [OF False] by (auto simp: add_ready_simps(6) bit_record)
    qed
  qed
  ultimately show ?thesis by (simp add: core_ok_def)
qed

lemma core_add_ready:
  assumes "core_ok K" "st K t = None" "t \<noteq> NULL" "t < 2 ^ 32"
  shows "core_ok (prvAddTaskToReadyList t K)"
  using core_okD [OF assms(1)] assms(2-) by (intro core_add_ready_weak) (auto simp: bitmap_ok_def)

text \<open>A task made ready, from whatever list it was in.\<close>

definition make_ready :: "tid \<Rightarrow> kernel \<Rightarrow> kernel" where
  "make_ready t K = prvAddTaskToReadyList t (detach t K)"

lemma core_make_ready:
  assumes ok: "core_ok K" and s: "st K t = Some s"
  shows "core_ok (make_ready t K)"
  unfolding make_ready_def
proof (rule core_add_ready_weak)
  note o = core_okD [OF ok]
  show "lists_ok (detach t K)" "tasks_ok (detach t K)" "sorted_ok (detach t K)"
    using o lists_ok_detach tasks_detach sorted_detach by auto
  show "t \<noteq> NULL" "t < 2 ^ 32" using tasks_okD(3) [OF o(2) s] by auto
  show "st (detach t K) t = None" by (simp add: kernel_simps)
  fix i assume i: "i \<noteq> unat (prio (detach t K) t)"
  have p: "prio K t < 8" by (rule tasks_okD(1) [OF o(2)])
  have "(\<exists>u. st (detach t K) u = Some (Ready (of_nat i))) = (\<exists>u. st K u = Some (Ready (of_nat i)))" if "i < 8"
  proof -
    have "st K t \<noteq> Some (Ready (of_nat i))"
      using tasks_okD(5) [OF o(2)] small_priority [OF that p] i by (auto simp: kernel_simps)
    then show ?thesis by (auto simp: kernel_simps)
  qed
  then show "bit (uxTopReadyPriority (detach t K)) i \<longleftrightarrow> i < 8 \<and> (\<exists>u. st (detach t K) u = Some (Ready (of_nat i)))"
    using o(3) unfolding bitmap_ok_def detach_simps(5) by blast
qed

lemma core_insert_suspended:
  assumes ok: "core_ok K" and t: "st K t = None" "t \<noteq> NULL" "t < 2 ^ 32"
  shows "core_ok (insert_state_end SuspendedList t K)"
proof -
  note o = core_okD [OF ok]
  have "lists_ok (insert_state_end SuspendedList t K)" by (rule lists_ok_insert(1) [OF o(1) t(1)])
  moreover have "tasks_ok (insert_state_end SuspendedList t K)" by (rule tasks_insert_end) (use o t in auto)
  moreover have "sorted_ok (insert_state_end SuspendedList t K)" by (rule sorted_insert_end) (use o t in auto)
  moreover have "bitmap_ok (insert_state_end SuspendedList t K)"
  proof -
    have "st (insert_state_end SuspendedList t K) u = Some (Ready p) \<longleftrightarrow> st K u = Some (Ready p)" for u p
      using t by (auto simp: kernel_simps simp del: insert_state_end.simps)
    then show ?thesis using o(3) by (simp add: bitmap_ok_def insert_state_end_simps(5) del: insert_state_end.simps)
  qed
  ultimately show ?thesis by (simp add: core_ok_def)
qed

lemma sorted_insert_sorted: "sorted (map w xs) \<Longrightarrow> sorted (map w (insert_sorted w t xs))"
  using insert_sorted_stable [of w xs t] by blast

lemma core_insert_delayed:
  assumes ok: "core_ok K" and t: "st K t = None" "t \<noteq> NULL" "t < 2 ^ 32"
  shows "core_ok (insert_delayed b t K)"
proof -
  note o = core_okD [OF ok]
  have "lists_ok (insert_delayed b t K)" by (rule lists_ok_insert(2) [OF o(1) t(1)])
  moreover have "tasks_ok (insert_delayed b t K)" using o(2) t by (auto simp: tasks_ok_def kernel_simps)
  moreover have "bitmap_ok (insert_delayed b t K)"
  proof -
    have "st (insert_delayed b t K) u = Some (Ready p) \<longleftrightarrow> st K u = Some (Ready p)" for u p
      using t by (auto simp: kernel_simps)
    then show ?thesis using o(3) by (simp add: bitmap_ok_def insert_delayed_simps(5))
  qed
  moreover have "sorted_ok (insert_delayed b t K)"
  proof -
    have "wake (insert_delayed b t K) = wake K" by (auto simp: kernel_simps)
    then show ?thesis using sorted_okD [OF o(4)] sorted_insert_sorted by (simp add: sorted_ok_def kernel_simps)
  qed
  ultimately show ?thesis by (simp add: core_ok_def)
qed

lemma detach_set_tcb:
  assumes "xStateContainer (f (tcbs K t)) = st K t"
    "f ((tcbs K t)\<lparr>xStateContainer := None\<rparr>) = (f (tcbs K t))\<lparr>xStateContainer := None\<rparr>"
  shows "detach t (set_tcb t f K) = set_tcb t f (detach t K)"
  using assms by (cases "st K t"; cases "the (st K t)") (simp_all add: detach_def set_tcb_def)

lemma containers_commute:
  "c\<lparr>xEventContainer := b, xStateContainer := a\<rparr> = c\<lparr>xStateContainer := a, xEventContainer := b\<rparr>"
  by simp

lemma detach_event_detach: "detach_event t (detach t K) = detach t (detach_event t K)"
  by (cases "st K t"; cases "the (st K t)"; cases "ev K t"; cases "the (ev K t)")
     (auto intro!: kernel.equality simp: detach_def detach_event_def set_tcb_def containers_commute)

lemma remove_state_ok:
  assumes "core_ok K" "st K t = Some s"
  shows "\<exists>n. remove_state t K = Some (n, detach t K) \<and> (n = 0 \<longleftrightarrow> state_items (detach t K) s = [])"
proof -
  note o = core_okD [OF assms(1)]
  show ?thesis
    using remove_state_eq [OF assms(2)] count_is_exact(1) [of "detach t K" s] lists_ok_detach [OF o(1), of t] tasks_detach [OF o(2), of t]
    by simp
qed

section \<open>Each operation keeps it\<close>

text \<open>\<open>returns m P\<close>: \<open>m\<close> is defined, and \<open>P\<close> holds of its result.\<close>

definition returns :: "'a option \<Rightarrow> ('a \<Rightarrow> bool) \<Rightarrow> bool" where
  "returns m P \<longleftrightarrow> (\<exists>x. m = Some x \<and> P x)"

lemma returns_simps [simp]:
  "returns (Some x) P = P x" "returns None P = False"
  "returns (if c then m1 else m2) P = (if c then returns m1 P else returns m2 P)"
  "returns (m \<bind> f) P = returns m (\<lambda>x. returns (f x) P)"
  "returns (map_option g m) P = returns m (\<lambda>x. P (g x))"
  by (auto simp: returns_def bind_eq_Some_conv)

lemma returns_mono: "returns m P \<Longrightarrow> (\<And>x. P x \<Longrightarrow> Q x) \<Longrightarrow> returns m Q"
  by (auto simp: returns_def)

lemma returnsE:
  assumes "returns m P" obtains x where "m = Some x" "P x"
  using assms by (auto simp: returns_def)

abbreviation keeps :: "('a \<times> kernel) option \<Rightarrow> bool" where "keeps m \<equiv> returns m (\<lambda>(_, K). kernel_ok K)"

lemma kernel_scalar [simp]:
  "kernel_ok (K\<lparr>uxPendedTicks := v\<rparr>) = kernel_ok K"
  "kernel_ok (K\<lparr>uxCurrentNumberOfTasks := v\<rparr>) = kernel_ok K"
  "kernel_ok (K\<lparr>xYieldPending := b\<rparr>) = kernel_ok K"
  "kernel_ok (K\<lparr>yield_requested := b\<rparr>) = kernel_ok K"
  "kernel_ok (K\<lparr>pxCurrentTCB := t\<rparr>) = kernel_ok K"
  "kernel_ok (taskYIELD K) = kernel_ok K"
  by (simp_all add: kernel_ok_def events_ok_def pending_ok_def time_ok_def taskYIELD_def)

lemma kernel_set_tcb:
  assumes ok: "kernel_ok K"
    and c: "xStateContainer (f (tcbs K t)) = st K t" "xEventContainer (f (tcbs K t)) = ev K t"
    and p: "uxPriority (f (tcbs K t)) = prio K t" "uxBasePriority (f (tcbs K t)) = uxBasePriority (tcbs K t)"
    and w: "xStateValue (f (tcbs K t)) = wake K t"
    and n: "ucNotifyState (f (tcbs K t)) = Waiting \<longrightarrow> ev K t = None"
  shows "kernel_ok (set_tcb t f K)"
proof -
  have "core_ok (set_tcb t f K)"
    using kernel_okD(1) [OF ok] tasks_okD(1,2) [OF core_okD(2)] by (intro core_set_tcb) (auto simp: c p w)
  moreover have "events_ok (set_tcb t f K)" using kernel_okD(2) [OF ok] c n by (auto simp: events_ok_def kernel_simps)
  moreover have "pending_ok (set_tcb t f K)" using kernel_okD(3) [OF ok] c by (auto simp: pending_ok_def kernel_simps)
  moreover have "time_ok (set_tcb t f K)" using kernel_okD(4) [OF ok] c w by (auto simp: time_ok_def kernel_simps)
  ultimately show ?thesis by (simp add: kernel_ok_def)
qed

lemma kernel_detach_event: "kernel_ok K \<Longrightarrow> kernel_ok (detach_event t K)"
  unfolding kernel_ok_def by (auto simp: events_ok_def pending_ok_def time_ok_def kernel_simps intro: core_detach_event)

lemma make_ready_simps [kernel_simps]:
  "tcbs (make_ready t K) = (tcbs K)(t := (tcbs K t)\<lparr>xStateContainer := Some (Ready (prio K t))\<rparr>)"
  "event_items (make_ready t K) e = event_items K e"
  "pxCurrentTCB (make_ready t K) = pxCurrentTCB K"
  "pxDelayedTaskList (make_ready t K) = pxDelayedTaskList K"
  "xTickCount (make_ready t K) = xTickCount K"
  "xNumOfOverflows (make_ready t K) = xNumOfOverflows K"
  "xNextTaskUnblockTime (make_ready t K) = xNextTaskUnblockTime K"
  "uxSchedulerSuspended (make_ready t K) = uxSchedulerSuspended K"
  "uxPendedTicks (make_ready t K) = uxPendedTicks K"
  "xYieldPending (make_ready t K) = xYieldPending K"
  "yield_requested (make_ready t K) = yield_requested K"
  "xSchedulerRunning (make_ready t K) = xSchedulerRunning K"
  "uxCurrentNumberOfTasks (make_ready t K) = uxCurrentNumberOfTasks K"
  by (simp_all add: make_ready_def kernel_simps)

lemma kernel_make_ready:
  assumes "kernel_ok K" "st K t = Some s" "ev K t = None"
  shows "kernel_ok (make_ready t K)"
  using core_make_ready [OF kernel_okD(1) [OF assms(1)] assms(2)] kernel_okD(2-) [OF assms(1)] assms(3)
  by (auto simp: kernel_ok_def events_ok_def pending_ok_def time_ok_def kernel_simps)

lemma vTaskResume_ok:
  assumes "kernel_ok K"
  shows "returns (vTaskResume t K) kernel_ok"
proof (cases "prvTaskIsTaskSuspended t K")
  case True
  then have s: "st K t = Some SuspendedList" and e: "ev K t = None" by (auto simp: prvTaskIsTaskSuspended_def)
  show ?thesis using kernel_make_ready [OF assms s e] assms
    by (simp add: vTaskResume_def remove_state_eq [OF s] Let_def flip: make_ready_def)
qed (simp add: vTaskResume_def assms)

lemma pend_ready:
  assumes ok: "kernel_ok K" and s: "st K t = Some s" and e: "ev K t = None" "ucNotifyState (tcbs K t) \<noteq> Waiting"
    and p: "uxSchedulerSuspended K \<noteq> 0"
  shows "kernel_ok (insert_event_end PendingReadyList t K)"
proof -
  note c = kernel_okD(1) [OF ok]
  have "core_ok (insert_event_end PendingReadyList t K)"
    using tasks_okD(3) [OF core_okD(2) [OF c] s] e by (intro core_insert_event [OF c]) auto
  moreover have "events_ok (insert_event_end PendingReadyList t K)"
    using kernel_okD(2) [OF ok] s e by (auto simp: events_ok_def kernel_simps simp del: insert_event_end.simps)
  moreover have "pending_ok (insert_event_end PendingReadyList t K)"
    using p by (simp add: pending_ok_def kernel_simps del: insert_event_end.simps)
  moreover have "time_ok (insert_event_end PendingReadyList t K)"
    using kernel_okD(4) [OF ok] by (auto simp: time_ok_def kernel_simps simp del: insert_event_end.simps)
  ultimately show ?thesis by (simp add: kernel_ok_def)
qed

lemma xTaskResumeFromISR_ok:
  assumes ok: "kernel_ok K" and w: "ucNotifyState (tcbs K t) \<noteq> Waiting"
  shows "keeps (xTaskResumeFromISR t K)"
proof (cases "prvTaskIsTaskSuspended t K")
  case True
  then have s: "st K t = Some SuspendedList" and e: "ev K t = None" by (auto simp: prvTaskIsTaskSuspended_def)
  show ?thesis using kernel_make_ready [OF ok s e] pend_ready [OF ok s e w]
    by (simp add: xTaskResumeFromISR_def remove_state_eq [OF s] True del: insert_event_end.simps flip: make_ready_def)
qed (simp add: xTaskResumeFromISR_def ok)

text \<open>Waking the first task of an event list.\<close>

lemma event_head:
  assumes ok: "kernel_ok K" and l: "events K e = t # ts"
  shows "ev K t = Some (EventList e)" and "\<exists>s. st K t = Some s" and "ucNotifyState (tcbs K t) \<noteq> Waiting"
proof -
  show e: "ev K t = Some (EventList e)"
    using lists_okD(4) [OF core_okD(1) [OF kernel_okD(1) [OF ok]], of t "EventList e"] l by simp
  show "\<exists>s. st K t = Some s" "ucNotifyState (tcbs K t) \<noteq> Waiting"
    using kernel_okD(2) [OF ok] e by (auto simp: events_ok_def)
qed

text \<open>The task is made ready, or pending when the scheduler is suspended.\<close>

definition wake_task :: "tid \<Rightarrow> kernel \<Rightarrow> kernel" where
  "wake_task t K = (if uxSchedulerSuspended K = 0 then make_ready t K else insert_event_end PendingReadyList t K)"

lemma wake_task_simps [kernel_simps]:
  "prio (wake_task t K) u = prio K u" "pxCurrentTCB (wake_task t K) = pxCurrentTCB K"
  by (simp_all add: wake_task_def kernel_simps del: insert_event_end.simps)

lemma wake_task_eq:
  assumes "st K t = Some s"
  shows "(if uxSchedulerSuspended K = 0 then do { (_, K) \<leftarrow> remove_state t K; Some (prvAddTaskToReadyList t K) }
      else Some (insert_event_end PendingReadyList t K)) = Some (wake_task t K)"
  by (simp add: wake_task_def remove_state_eq [OF assms] make_ready_def del: insert_event_end.simps)

lemma wake_task_ok:
  assumes ok: "kernel_ok K" and s: "st K t = Some s" and e: "ev K t = None" "ucNotifyState (tcbs K t) \<noteq> Waiting"
  shows "kernel_ok (wake_task t K)"
  using kernel_make_ready [OF ok s e(1)] pend_ready [OF ok s e]
  by (auto simp add: wake_task_def simp del: insert_event_end.simps)

lemma xTaskRemoveFromEventList_eq:
  assumes ok: "kernel_ok K" and l: "events K e = t # ts"
  shows "xTaskRemoveFromEventList e K =
    (let K' = wake_task t (detach_event t K)
     in Some (if prio K (pxCurrentTCB K) < prio K t then (True, K'\<lparr>xYieldPending := True\<rparr>) else (False, K')))"
proof -
  note e = event_head(1) [OF assms]
  obtain s where s: "st K t = Some s" using event_head(2) [OF assms] by auto
  have s': "st (detach_event t K) t = Some s" using s by (simp add: kernel_simps)
  have "xTaskRemoveFromEventList e K = do {
     K \<leftarrow> (if uxSchedulerSuspended (detach_event t K) = 0
       then do { (_, K) \<leftarrow> remove_state t (detach_event t K); Some (prvAddTaskToReadyList t K) }
       else Some (insert_event_end PendingReadyList t (detach_event t K)));
     Some (if prio K (pxCurrentTCB K) < prio K t then (True, K\<lparr>xYieldPending := True\<rparr>) else (False, K)) }"
    unfolding xTaskRemoveFromEventList_def l list.case remove_event_eq [OF e] bind.bind_lunit prod.case ..
  then show ?thesis unfolding wake_task_eq [OF s'] by (simp add: kernel_simps Let_def)
qed

lemma wake_event_ok:
  assumes ok: "kernel_ok K" and l: "events K e = t # ts"
  shows "kernel_ok (wake_task t (detach_event t K))"
  using event_head(2-3) [OF assms] kernel_detach_event [OF ok, of t]
  by (auto intro!: wake_task_ok simp: kernel_simps)

lemma xTaskRemoveFromEventList_ok:
  assumes ok: "kernel_ok K" and l: "events K e \<noteq> []"
  shows "keeps (xTaskRemoveFromEventList e K)"
proof -
  obtain t ts where l: "events K e = t # ts" using l by (cases "events K e") auto
  show ?thesis using wake_event_ok [OF ok l] by (simp add: xTaskRemoveFromEventList_eq [OF ok l] Let_def)
qed

lemma vTaskRemoveFromUnorderedEventList_ok:
  assumes ok: "kernel_ok K" and e: "ev K t = Some e"
  shows "returns (vTaskRemoveFromUnorderedEventList t v K) kernel_ok"
proof -
  let ?K = "set_tcb t (\<lambda>c. c\<lparr>xEventValue := v OR taskEVENT_LIST_ITEM_VALUE_IN_USE\<rparr>) K"
  have n: "ucNotifyState (tcbs K t) \<noteq> Waiting" "st K t \<noteq> None" using kernel_okD(2) [OF ok] e by (auto simp: events_ok_def)
  then obtain s where s: "st K t = Some s" by auto
  have e': "ev ?K t = Some e" and s': "st (detach_event t ?K) t = Some s" using e s by (simp_all add: kernel_simps)
  have "kernel_ok ?K" by (rule kernel_set_tcb [OF ok]) (use n in auto)
  then have "kernel_ok (make_ready t (detach_event t ?K))"
    by (intro kernel_make_ready [of _ _ s] kernel_detach_event s') (simp_all add: kernel_simps)
  then show ?thesis
    by (simp add: vTaskRemoveFromUnorderedEventList_def remove_event_eq [OF e'] remove_state_eq [OF s'] Let_def flip: make_ready_def)
qed

text \<open>Notifications.\<close>

lemma waiting_no_event: "kernel_ok K \<Longrightarrow> ucNotifyState (tcbs K t) = Waiting \<Longrightarrow> ev K t = None"
  unfolding kernel_ok_def events_ok_def by auto

lemma notified_ok:
  assumes "kernel_ok K"
  shows "kernel_ok (set_tcb t (\<lambda>c. c\<lparr>ucNotifyState := Received, ulNotifiedValue := v\<rparr>) K)"
  by (rule kernel_set_tcb [OF assms]) auto

lemma xTaskGenericNotify_ok:
  assumes ok: "kernel_ok K" and s: "ucNotifyState (tcbs K t) = Waiting \<Longrightarrow> st K t \<noteq> None"
  shows "returns (xTaskGenericNotify t v a K) (\<lambda>(_, _, K). kernel_ok K)"
proof -
  obtain r w where v: "notify_value a v (tcbs K t) = (r, w)" by fastforce
  let ?K = "set_tcb t (\<lambda>c. c\<lparr>ucNotifyState := Received, ulNotifiedValue := w\<rparr>) K"
  have ok': "kernel_ok ?K" by (rule notified_ok [OF ok])
  show ?thesis
  proof (cases "ucNotifyState (tcbs K t) = Waiting")
    case True
    then obtain s where s: "st ?K t = Some s" using s by (auto simp: kernel_simps)
    have "ev ?K t = None" using waiting_no_event [OF ok True] by (simp add: kernel_simps)
    from kernel_make_ready [OF ok' s this] show ?thesis
      by (simp add: xTaskGenericNotify_def v True remove_state_eq [OF s] Let_def flip: make_ready_def)
  next
    case False
    then show ?thesis using ok' by (simp add: xTaskGenericNotify_def v Let_def)
  qed
qed

lemma notify_wake_ok:
  assumes ok: "kernel_ok K" and s: "st K t = Some s" and e: "ev K t = None" "ucNotifyState (tcbs K t) \<noteq> Waiting"
  shows "keeps (notify_wake_from_isr t K)"
  unfolding notify_wake_from_isr_def wake_task_eq [OF s] using wake_task_ok [OF assms] by simp

lemma isr_wake_ok:
  assumes ok: "kernel_ok K" and s: "ucNotifyState (tcbs K t) = Waiting \<Longrightarrow> st K t \<noteq> None"
    and w: "ucNotifyState (tcbs K t) = Waiting"
  shows "keeps (notify_wake_from_isr t (set_tcb t (\<lambda>c. c\<lparr>ucNotifyState := Received, ulNotifiedValue := v\<rparr>) K))"
proof -
  let ?K = "set_tcb t (\<lambda>c. c\<lparr>ucNotifyState := Received, ulNotifiedValue := v\<rparr>) K"
  obtain s where s: "st ?K t = Some s" using s w by (auto simp: kernel_simps)
  have e: "ev ?K t = None" using waiting_no_event [OF ok w] by (simp add: kernel_simps)
  show ?thesis by (rule notify_wake_ok [OF notified_ok [OF ok] s e]) (simp add: kernel_simps)
qed

lemma xTaskGenericNotifyFromISR_ok:
  assumes ok: "kernel_ok K" and s: "ucNotifyState (tcbs K t) = Waiting \<Longrightarrow> st K t \<noteq> None"
  shows "returns (xTaskGenericNotifyFromISR t v a K) (\<lambda>(_, _, _, K). kernel_ok K)"
proof -
  obtain r u where v: "notify_value a v (tcbs K t) = (r, u)" by fastforce
  show ?thesis using isr_wake_ok [OF ok s] notified_ok [OF ok]
    by (auto simp: xTaskGenericNotifyFromISR_def v Let_def case_prod_beta')
qed

lemma vTaskNotifyGiveFromISR_ok:
  assumes ok: "kernel_ok K" and s: "ucNotifyState (tcbs K t) = Waiting \<Longrightarrow> st K t \<noteq> None"
  shows "keeps (vTaskNotifyGiveFromISR t K)"
proof -
  have "set_tcb t (\<lambda>c. c\<lparr>ucNotifyState := Received, ulNotifiedValue := ulNotifiedValue c + 1\<rparr>) K =
      set_tcb t (\<lambda>c. c\<lparr>ucNotifyState := Received, ulNotifiedValue := ulNotifiedValue (tcbs K t) + 1\<rparr>) K"
    by (simp add: set_tcb_def)
  then show ?thesis using isr_wake_ok [OF ok s] notified_ok [OF ok]
    by (simp add: vTaskNotifyGiveFromISR_def Let_def)
qed

section \<open>Task selection\<close>

lemma find_last_bit:
  assumes "bit m i" "i < n" "\<And>j. i < j \<Longrightarrow> \<not> bit (m :: u32) j"
  shows "find (bit m) (rev [0..<n]) = Some i"
  using assms(2)
proof (induction n)
  case (Suc n)
  then show ?case using assms by (cases "i = n") auto
qed simp

lemma highest_ready:
  assumes ok: "core_ok K" and r: "st K t = Some (Ready p)"
  shows "\<exists>i. portGET_HIGHEST_PRIORITY (uxTopReadyPriority K) = Some i \<and> i < 8 \<and> (\<exists>u. st K u = Some (Ready (of_nat i))) \<and>
    (\<forall>u q. st K u = Some (Ready q) \<longrightarrow> q \<le> of_nat i)"
proof -
  note o = core_okD [OF ok]
  let ?m = "uxTopReadyPriority K"
  have bit: "bit ?m (unat q)" if "st K u = Some (Ready q)" for u q
  proof -
    have "q < 8" using tasks_okD(1,5) [OF o(2)] that by metis
    then show ?thesis using o(3) that by (auto simp: bitmap_ok_def word_less_nat_alt)
  qed
  define i where "i = Max {i. bit ?m i}"
  have fin: "finite {i. bit ?m i}" by (rule finite_subset [of _ "{..<8}"]) (use o(3) in \<open>auto simp: bitmap_ok_def\<close>)
  then have i: "bit ?m i" unfolding i_def using Max_in [of "{i. bit ?m i}"] bit [OF r] by auto
  have max: "bit ?m j \<Longrightarrow> j \<le> i" for j unfolding i_def using fin by (auto intro: Max_ge)
  have i8: "i < 8" and u: "\<exists>u. st K u = Some (Ready (of_nat i))" using i o(3) by (auto simp: bitmap_ok_def)
  have "portGET_HIGHEST_PRIORITY ?m = Some i"
    unfolding portGET_HIGHEST_PRIORITY_def
    by (rule find_last_bit) (use i i8 max in \<open>auto dest: leD\<close>)
  moreover have "q \<le> of_nat i" if "st K u = Some (Ready q)" for u q
    using max [OF bit [OF that]] i8 by (simp add: word_le_nat_alt unat_of_nat take_bit_nat_eq_self)
  ultimately show ?thesis using i8 u by blast
qed

text \<open>What a switch selects, and that it only moves the cursor of one ready list.\<close>

lemma select_eq:
  assumes ok: "core_ok K" and r: "st K t = Some (Ready p)"
  shows "\<exists>u q r. taskSELECT_HIGHEST_PRIORITY_TASK K = Some (K\<lparr>ready := (ready K)(q := r), pxCurrentTCB := u\<rparr>) \<and>
    rl_next (ready K q) = Some (u, r) \<and> items r = items (ready K q) \<and> st K u = Some (Ready q) \<and>
    (\<forall>v q'. st K v = Some (Ready q') \<longrightarrow> q' \<le> q)"
proof -
  obtain i where i: "portGET_HIGHEST_PRIORITY (uxTopReadyPriority K) = Some i" "\<exists>u. st K u = Some (Ready (of_nat i))"
    "\<forall>u q. st K u = Some (Ready q) \<longrightarrow> q \<le> of_nat i"
    using highest_ready [OF assms] by blast
  have "items (ready K (of_nat i)) \<noteq> []" using i(2) ready_items_empty [OF core_okD(1) [OF ok]] by blast
  then obtain u r where u: "rl_next (ready K (of_nat i)) = Some (u, r)" "u \<in> set (items (ready K (of_nat i)))"
    "items r = items (ready K (of_nat i))" using rl_next_ok by blast
  have "st K u = Some (Ready (of_nat i))"
    using lists_okD(2) [OF core_okD(1) [OF ok], of u "Ready (of_nat i)"] u(2) by simp
  then show ?thesis using i u by (auto simp: taskSELECT_HIGHEST_PRIORITY_TASK_def)
qed

lemma state_items_cursor:
  assumes "items r = items (ready K q)"
  shows "state_items (K\<lparr>ready := (ready K)(q := r), pxCurrentTCB := u\<rparr>) s = state_items K s"
    "event_items (K\<lparr>ready := (ready K)(q := r), pxCurrentTCB := u\<rparr>) e = event_items K e"
  using assms by (cases s; cases e; simp)+

lemma kernel_cursor:
  assumes "kernel_ok K" "items r = items (ready K q)"
  shows "kernel_ok (K\<lparr>ready := (ready K)(q := r), pxCurrentTCB := u\<rparr>)"
  using assms(1) unfolding kernel_ok_def core_ok_def lists_ok_def state_items_cursor [OF assms(2)]
  by (simp add: tasks_ok_def bitmap_ok_def sorted_ok_def events_ok_def pending_ok_def time_ok_def)

lemma vTaskSwitchContext_ok:
  assumes ok: "kernel_ok K" and r: "st K t = Some (Ready p)"
  shows "returns (vTaskSwitchContext K) kernel_ok"
proof (cases "uxSchedulerSuspended K = 0")
  case True
  have ok': "kernel_ok (K\<lparr>xYieldPending := False\<rparr>)" using ok by simp
  obtain u q r where "taskSELECT_HIGHEST_PRIORITY_TASK (K\<lparr>xYieldPending := False\<rparr>) =
      Some (K\<lparr>xYieldPending := False, ready := (ready K)(q := r), pxCurrentTCB := u\<rparr>)" "items r = items (ready K q)"
    using select_eq [OF kernel_okD(1) [OF ok'], of t p] r by auto
  then show ?thesis using True kernel_cursor [OF ok', of r q u] by (simp add: vTaskSwitchContext_def)
qed (use ok in \<open>simp add: vTaskSwitchContext_def\<close>)

section \<open>The tick\<close>

lemma time_okD:
  assumes "time_ok K"
  shows "st K t = Some (DelayedList (pxDelayedTaskList K)) \<Longrightarrow> xTickCount K < wake K t"
    "st K t = Some (DelayedList (pxDelayedTaskList K)) \<Longrightarrow> xNextTaskUnblockTime K \<le> wake K t"
    "st K t = Some (DelayedList (\<not> pxDelayedTaskList K)) \<Longrightarrow> wake K t < xTickCount K"
  using assms by (auto simp: time_ok_def)

definition unblock :: "tid \<Rightarrow> kernel \<Rightarrow> kernel" where
  "unblock t K = make_ready t (detach_event t K)"

lemma unblock_simps [kernel_simps]:
  "tcbs (unblock t K) = (tcbs K)(t := (tcbs K t)\<lparr>xStateContainer := Some (Ready (prio K t)), xEventContainer := None\<rparr>)"
  "pxCurrentTCB (unblock t K) = pxCurrentTCB K"
  "pxDelayedTaskList (unblock t K) = pxDelayedTaskList K"
  "xTickCount (unblock t K) = xTickCount K"
  "xNumOfOverflows (unblock t K) = xNumOfOverflows K"
  "xNextTaskUnblockTime (unblock t K) = xNextTaskUnblockTime K"
  "uxSchedulerSuspended (unblock t K) = uxSchedulerSuspended K"
  "uxPendedTicks (unblock t K) = uxPendedTicks K"
  "xYieldPending (unblock t K) = xYieldPending K"
  "yield_requested (unblock t K) = yield_requested K"
  "xSchedulerRunning (unblock t K) = xSchedulerRunning K"
  "uxCurrentNumberOfTasks (unblock t K) = uxCurrentNumberOfTasks K"
  "delayed (unblock t K) b = (if st K t = Some (DelayedList b) then remove1 t (delayed K b) else delayed K b)"
  by (simp_all add: unblock_def kernel_simps containers_commute) (simp_all add: make_ready_def kernel_simps)

text \<open>One round of the loop: the head of the list is unblocked.\<close>

lemma unblock_round:
  assumes s: "st K t = Some s"
  shows "do { (_, K) \<leftarrow> remove_state t K;
      K \<leftarrow> (if ev K t \<noteq> None then map_option snd (remove_event t K) else Some K);
      f (prvAddTaskToReadyList t K) } = f (unblock t K)"
proof -
  have "do { (_, K) \<leftarrow> remove_state t K;
      K \<leftarrow> (if ev K t \<noteq> None then map_option snd (remove_event t K) else Some K);
      f (prvAddTaskToReadyList t K) } = f (prvAddTaskToReadyList t (detach_event t (detach t K)))"
    unfolding remove_state_eq [OF s] bind.bind_lunit prod.case maybe_remove_event ..
  then show ?thesis by (simp add: unblock_def make_ready_def detach_event_detach)
qed

fun unblock_all :: "tid list \<Rightarrow> kernel \<Rightarrow> kernel" where
  "unblock_all [] K = K"
| "unblock_all (t # ts) K = unblock_all ts (unblock t K)"

lemma unblock_all_simps [kernel_simps]:
  "tcbs (unblock_all ts K) = (\<lambda>t. if t \<in> set ts
     then (tcbs K t)\<lparr>xStateContainer := Some (Ready (prio K t)), xEventContainer := None\<rparr> else tcbs K t)"
  "pxCurrentTCB (unblock_all ts K) = pxCurrentTCB K"
  "pxDelayedTaskList (unblock_all ts K) = pxDelayedTaskList K"
  "xTickCount (unblock_all ts K) = xTickCount K"
  "xNumOfOverflows (unblock_all ts K) = xNumOfOverflows K"
  "uxSchedulerSuspended (unblock_all ts K) = uxSchedulerSuspended K"
  "uxPendedTicks (unblock_all ts K) = uxPendedTicks K"
  "xYieldPending (unblock_all ts K) = xYieldPending K"
  "yield_requested (unblock_all ts K) = yield_requested K"
  "xSchedulerRunning (unblock_all ts K) = xSchedulerRunning K"
  "uxCurrentNumberOfTasks (unblock_all ts K) = uxCurrentNumberOfTasks K"
  by (induction ts arbitrary: K) (auto simp: kernel_simps fun_eq_iff)

lemma core_unblock: "core_ok K \<Longrightarrow> st K t = Some s \<Longrightarrow> core_ok (unblock t K)"
  unfolding unblock_def by (rule core_make_ready [of _ _ s]) (auto simp: kernel_simps intro: core_detach_event)

lemma core_unblock_all: "core_ok K \<Longrightarrow> (\<And>t. t \<in> set ts \<Longrightarrow> st K t \<noteq> None) \<Longrightarrow> core_ok (unblock_all ts K)"
proof (induction ts arbitrary: K)
  case (Cons t ts)
  obtain s where "st K t = Some s" using Cons.prems(2) [of t] by auto
  then have "core_ok (unblock t K)" using Cons.prems(1) core_unblock by blast
  moreover have "st (unblock t K) u \<noteq> None" if "u \<in> set ts" for u using Cons.prems(2) [of u] that by (simp add: kernel_simps)
  ultimately show ?case using Cons.IH by simp
qed simp

text \<open>The loop unblocks the tasks at the front of the list whose time has come: it terminates.\<close>

lemma unblock_loop_eq:
  assumes "core_ok K" "delayed K (pxDelayedTaskList K) = xs"
  shows "unblock_loop now sw K = (let ts = takeWhile (\<lambda>t. wake K t \<le> now) xs in
     Some (sw \<or> (\<exists>t \<in> set ts. prio K (pxCurrentTCB K) \<le> prio K t),
       (unblock_all ts K)\<lparr>xNextTaskUnblockTime := (case dropWhile (\<lambda>t. wake K t \<le> now) xs of
          [] \<Rightarrow> portMAX_DELAY | t # _ \<Rightarrow> wake K t)\<rparr>))"
  using assms
proof (induction xs arbitrary: K sw)
  case Nil
  then show ?case by (subst unblock_loop.simps) simp
next
  case (Cons t ts)
  show ?case
  proof (cases "now < wake K t")
    case True
    then have "\<not> wake K t \<le> now" by simp
    then show ?thesis using True Cons.prems by (subst unblock_loop.simps) simp
  next
    case False
    have s: "st K t = Some (DelayedList (pxDelayedTaskList K))"
      using lists_okD(2) [OF core_okD(1) [OF Cons.prems(1)], of t "DelayedList (pxDelayedTaskList K)"] Cons.prems(2) by simp
    let ?K = "unblock t K"
    have d: "delayed ?K (pxDelayedTaskList ?K) = ts" using s Cons.prems(2) by (simp add: kernel_simps)
    have same: "wake ?K u = wake K u" "prio ?K u = prio K u" "pxCurrentTCB ?K = pxCurrentTCB K" for u by (auto simp: kernel_simps)
    have "unblock_loop now sw K = unblock_loop now (sw \<or> prio ?K (pxCurrentTCB ?K) \<le> prio ?K t) ?K"
      using False Cons.prems(2) unblock_round [OF s, of "\<lambda>K. unblock_loop now (sw \<or> prio K (pxCurrentTCB K) \<le> prio K t) K"]
      by (subst unblock_loop.simps) (simp add: Let_def)
    then show ?thesis
      using False unfolding Cons.IH [OF core_unblock [OF Cons.prems(1) s] d] same
      by (auto simp: Let_def not_less)
  qed
qed

text \<open>The part of the kernel that waking tasks leaves alone.\<close>

definition ctl :: "kernel \<Rightarrow> tid \<times> bool \<times> u32 \<times> u32 \<times> u32 \<times> u32 \<times> bool \<times> bool \<times> bool \<times> u32" where
  "ctl K = (pxCurrentTCB K, pxDelayedTaskList K, xTickCount K, uxSchedulerSuspended K, uxPendedTicks K,
     uxCurrentNumberOfTasks K, xYieldPending K, yield_requested K, xSchedulerRunning K, xNumOfOverflows K)"

definition woken :: "tcb \<Rightarrow> tcb" where
  "woken c = c\<lparr>xStateContainer := Some (Ready (uxPriority c)), xEventContainer := None\<rparr>"

lemma woken_simps [simp]:
  "xStateContainer (woken c) = Some (Ready (uxPriority c))" "xEventContainer (woken c) = None"
  "uxPriority (woken c) = uxPriority c" "xStateValue (woken c) = xStateValue c" "ucNotifyState (woken c) = ucNotifyState c"
  by (simp_all add: woken_def)

lemma sorted_takeWhile:
  assumes "sorted (map f xs)"
  shows "x \<in> set (takeWhile (\<lambda>y. f y \<le> v) xs) \<longleftrightarrow> x \<in> set xs \<and> f x \<le> v"
    and "x \<in> set xs \<Longrightarrow> v < f x \<Longrightarrow> dropWhile (\<lambda>y. f y \<le> v) xs = y # ys \<Longrightarrow> f y \<le> f x"
proof -
  show "x \<in> set (takeWhile (\<lambda>y. f y \<le> v) xs) \<longleftrightarrow> x \<in> set xs \<and> f x \<le> v"
    using assms by (induction xs) (auto dest: order_trans)
  show "x \<in> set xs \<Longrightarrow> v < f x \<Longrightarrow> dropWhile (\<lambda>y. f y \<le> v) xs = y # ys \<Longrightarrow> f y \<le> f x"
    using assms by (induction xs) (auto split: if_splits)
qed

lemma tick_unblocks:
  assumes ok: "core_ok K"
    and cur: "\<And>t. st K t = Some (DelayedList (pxDelayedTaskList K)) \<Longrightarrow> xTickCount K \<le> wake K t \<and> xNextTaskUnblockTime K \<le> wake K t"
    and other: "\<And>t. st K t = Some (DelayedList (\<not> pxDelayedTaskList K)) \<Longrightarrow> wake K t < xTickCount K"
  defines "W \<equiv> \<lambda>t. st K t = Some (DelayedList (pxDelayedTaskList K)) \<and> wake K t = xTickCount K"
  shows "returns (if xNextTaskUnblockTime K \<le> xTickCount K then unblock_loop (xTickCount K) False K else Some (False, K))
    (\<lambda>(sw, K'). core_ok K' \<and> time_ok K' \<and> ctl K' = ctl K \<and> tcbs K' = (\<lambda>t. if W t then woken (tcbs K t) else tcbs K t) \<and>
       (sw \<longleftrightarrow> (\<exists>t. W t \<and> prio K (pxCurrentTCB K) \<le> prio K t)))"
proof (cases "xNextTaskUnblockTime K \<le> xTickCount K")
  case False
  then have "\<not> W t" for t using cur [of t] by (auto simp: W_def)
  moreover have "time_ok K" using False cur other by (fastforce simp: time_ok_def)
  ultimately show ?thesis using False ok by simp
next
  case True
  let ?now = "xTickCount K" and ?xs = "delayed K (pxDelayedTaskList K)"
  let ?ts = "takeWhile (\<lambda>t. wake K t \<le> ?now) ?xs"
  note l = core_okD(1) [OF ok] and so = sorted_okD [OF core_okD(4) [OF ok], of "pxDelayedTaskList K"]
  have xs: "t \<in> set ?xs \<longleftrightarrow> st K t = Some (DelayedList (pxDelayedTaskList K))" for t
    using lists_okD(2) [OF l, of t "DelayedList (pxDelayedTaskList K)"] by simp
  have ts: "t \<in> set ?ts \<longleftrightarrow> W t" for t
    unfolding sorted_takeWhile(1) [OF so] xs W_def using cur [of t] by auto
  let ?K = "(unblock_all ?ts K)\<lparr>xNextTaskUnblockTime := (case dropWhile (\<lambda>t. wake K t \<le> ?now) ?xs of
          [] \<Rightarrow> portMAX_DELAY | t # _ \<Rightarrow> wake K t)\<rparr>"
  have "core_ok ?K" using core_unblock_all [OF ok, of ?ts] by (simp add: ts W_def)
  moreover have t: "tcbs ?K = (\<lambda>t. if W t then woken (tcbs K t) else tcbs K t)"
    by (simp add: kernel_simps ts woken_def fun_eq_iff)
  moreover have "time_ok ?K"
  proof -
    have "(case dropWhile (\<lambda>t. wake K t \<le> ?now) ?xs of [] \<Rightarrow> portMAX_DELAY | t # _ \<Rightarrow> wake K t) \<le> wake K t"
      if "st K t = Some (DelayedList (pxDelayedTaskList K))" "\<not> W t" for t
    proof -
      have "t \<in> set ?xs" "?now < wake K t" using that cur [of t] xs [of t] by (auto simp: W_def)
      then show ?thesis using sorted_takeWhile(2) [OF so, of t ?now]
        by (cases "dropWhile (\<lambda>t. wake K t \<le> ?now) ?xs") (auto simp: dropWhile_eq_Nil_conv)
    qed
    then show ?thesis unfolding time_ok_def t using cur other
      by (auto simp: kernel_simps W_def order_less_le split: if_splits)
  qed
  moreover have "ctl ?K = ctl K" by (simp add: ctl_def kernel_simps)
  moreover have "(\<exists>t \<in> set ?ts. P t) \<longleftrightarrow> (\<exists>t. W t \<and> P t)" for P using ts by blast
  ultimately show ?thesis using True by (simp add: unblock_loop_eq [OF ok refl] Let_def)
qed

lemma reset_simps [kernel_simps]:
  "tcbs (prvResetNextTaskUnblockTime K) = tcbs K" "ctl (prvResetNextTaskUnblockTime K) = ctl K"
  "pxDelayedTaskList (prvResetNextTaskUnblockTime K) = pxDelayedTaskList K" "xTickCount (prvResetNextTaskUnblockTime K) = xTickCount K"
  "core_ok (prvResetNextTaskUnblockTime K) = core_ok K" "uxSchedulerSuspended (prvResetNextTaskUnblockTime K) = uxSchedulerSuspended K"
  "pxCurrentTCB (prvResetNextTaskUnblockTime K) = pxCurrentTCB K"
  by (simp_all add: prvResetNextTaskUnblockTime_def ctl_def)

lemma next_is_first:
  assumes ok: "core_ok K" and t: "st K t = Some (DelayedList (pxDelayedTaskList K))"
  shows "xNextTaskUnblockTime (prvResetNextTaskUnblockTime K) \<le> wake K t"
proof -
  have "t \<in> set (delayed K (pxDelayedTaskList K))"
    using lists_okD(2) [OF core_okD(1) [OF ok], of t "DelayedList (pxDelayedTaskList K)"] t by simp
  then show ?thesis using sorted_okD [OF core_okD(4) [OF ok], of "pxDelayedTaskList K"]
    by (cases "delayed K (pxDelayedTaskList K)") (auto simp: prvResetNextTaskUnblockTime_def)
qed

lemma time_reset: "core_ok K \<Longrightarrow> time_ok K \<Longrightarrow> time_ok (prvResetNextTaskUnblockTime K)"
  using next_is_first by (auto simp: time_ok_def kernel_simps)

lemma kernel_reset: "kernel_ok K \<Longrightarrow> kernel_ok (prvResetNextTaskUnblockTime K)"
  using time_reset by (auto simp: kernel_ok_def events_ok_def pending_ok_def kernel_simps)

text \<open>The ticks a delayed task still has to wait, whatever the counter does.\<close>

definition remaining :: "kernel \<Rightarrow> tid \<Rightarrow> nat option" where
  "remaining K t = (case st K t of Some (DelayedList _) \<Rightarrow> Some (unat (wake K t - xTickCount K)) | _ \<Rightarrow> None)"

lemma remaining_eq: "remaining K t = Some n \<longleftrightarrow> (\<exists>b. st K t = Some (DelayedList b)) \<and> n = unat (wake K t - xTickCount K)"
  by (auto simp: remaining_def split: option.splits state_list.splits)

lemma remaining_None: "remaining K t = None \<longleftrightarrow> (\<forall>b. st K t \<noteq> Some (DelayedList b))"
  by (auto simp: remaining_def split: option.splits state_list.splits)

lemma delayed_either: "(\<exists>b. x = Some (DelayedList b)) \<longleftrightarrow> x = Some (DelayedList c) \<or> x = Some (DelayedList (\<not> c))"
  by (cases c) (auto simp: ex_bool_eq)

lemma remaining_pos: "time_ok K \<Longrightarrow> remaining K t = Some n \<Longrightarrow> 0 < n"
  unfolding remaining_eq delayed_either [of _ "pxDelayedTaskList K"]
  using time_okD(1,3) [of K t] by (auto simp: unat_gt_0)

lemma due_next:
  assumes "time_ok K"
  defines "K1 \<equiv> let K' = K\<lparr>xTickCount := xTickCount K + 1\<rparr> in if xTickCount K + 1 = 0 then taskSWITCH_DELAYED_LISTS K' else K'"
  shows "st K t = Some (DelayedList (pxDelayedTaskList K1)) \<and> wake K t = xTickCount K1 \<longleftrightarrow> remaining K t = Some 1"
proof -
  have one: "1 = unat (wake K t - xTickCount K) \<longleftrightarrow> wake K t = xTickCount K + 1"
  proof -
    have "1 = unat (wake K t - xTickCount K) \<longleftrightarrow> wake K t - xTickCount K = 1" by (metis unat_1 word_unat_eq_iff)
    then show ?thesis by (simp add: diff_eq_eq add.commute)
  qed
  have K1: "pxDelayedTaskList K1 = (if xTickCount K + 1 = 0 then \<not> pxDelayedTaskList K else pxDelayedTaskList K)"
    "xTickCount K1 = xTickCount K + 1"
    by (simp_all add: K1_def taskSWITCH_DELAYED_LISTS_def kernel_simps Let_def)
  have "xTickCount K + 1 \<noteq> 0" if "st K t = Some (DelayedList (pxDelayedTaskList K))" "wake K t = xTickCount K + 1"
    using time_okD(1) [OF assms(1) that(1)] that(2) by auto
  moreover have "xTickCount K + 1 = 0" if "st K t = Some (DelayedList (\<not> pxDelayedTaskList K))" "wake K t = xTickCount K + 1"
    using time_okD(3) [OF assms(1) that(1)] unfolding that(2) by uint_arith
  ultimately show ?thesis
    unfolding remaining_eq one delayed_either [of _ "pxDelayedTaskList K1"] K1 by (auto split: if_splits)
qed

lemma tick_prepared:
  assumes ok: "kernel_ok K"
  defines "K1 \<equiv> let K' = K\<lparr>xTickCount := xTickCount K + 1\<rparr> in if xTickCount K + 1 = 0 then taskSWITCH_DELAYED_LISTS K' else K'"
  shows "core_ok K1"
    "st K t = Some (DelayedList (pxDelayedTaskList K1)) \<Longrightarrow> xTickCount K1 \<le> wake K t \<and> xNextTaskUnblockTime K1 \<le> wake K t"
    "st K t = Some (DelayedList (\<not> pxDelayedTaskList K1)) \<Longrightarrow> wake K t < xTickCount K1"
proof -
  note time = time_okD [OF kernel_okD(4) [OF ok]]
  have "core_ok K1 \<and> (st K t = Some (DelayedList (pxDelayedTaskList K1)) \<longrightarrow> xTickCount K1 \<le> wake K t \<and> xNextTaskUnblockTime K1 \<le> wake K t) \<and>
    (st K t = Some (DelayedList (\<not> pxDelayedTaskList K1)) \<longrightarrow> wake K t < xTickCount K1)"
  proof (cases "xTickCount K + 1 = 0")
    case False
    have "xTickCount K + 1 \<le> wake K t" if "xTickCount K < wake K t" using that False by uint_arith
    moreover have "wake K t < xTickCount K + 1" if "wake K t < xTickCount K" using that False by uint_arith
    ultimately show ?thesis using False time [of t] kernel_okD(1) [OF ok] by (auto simp: K1_def Let_def)
  next
    case True
    let ?S = "K\<lparr>xTickCount := 0, pxDelayedTaskList := \<not> pxDelayedTaskList K, xNumOfOverflows := xNumOfOverflows K + 1\<rparr>"
    have K1: "K1 = prvResetNextTaskUnblockTime ?S" using True by (simp add: K1_def taskSWITCH_DELAYED_LISTS_def)
    have max: "\<not> xTickCount K < w" for w using True by uint_arith
    have c: "core_ok ?S" using kernel_okD(1) [OF ok] by simp
    have "st K t \<noteq> Some (DelayedList (pxDelayedTaskList K))" using time(1) [of t] True max [of "wake K t"] by auto
    then show ?thesis unfolding K1 using c next_is_first [OF c, of t] by (simp add: kernel_simps)
  qed
  then show "core_ok K1"
    "st K t = Some (DelayedList (pxDelayedTaskList K1)) \<Longrightarrow> xTickCount K1 \<le> wake K t \<and> xNextTaskUnblockTime K1 \<le> wake K t"
    "st K t = Some (DelayedList (\<not> pxDelayedTaskList K1)) \<Longrightarrow> wake K t < xTickCount K1"
    by blast+
qed

lemma woken_events_ok:
  assumes "events_ok K" "tcbs K' = (\<lambda>t. if W t then woken (tcbs K t) else tcbs K t)"
  shows "events_ok K'"
  using assms by (auto simp: events_ok_def)

lemma woken_pending_ok:
  assumes "pending_ok K" "tcbs K' = (\<lambda>t. if W t then woken (tcbs K t) else tcbs K t)" "uxSchedulerSuspended K' = uxSchedulerSuspended K"
  shows "pending_ok K'"
  using assms by (auto simp: pending_ok_def)

lemma remaining_tick:
  assumes t: "time_ok K" and k: "tcbs K' = (\<lambda>t. if remaining K t = Some 1 then woken (tcbs K t) else tcbs K t)"
    "xTickCount K' = xTickCount K + 1"
  shows "remaining K' t = (case remaining K t of Some (Suc (Suc n)) \<Rightarrow> Some (Suc n) | _ \<Rightarrow> None)"
proof (cases "remaining K t")
  case None
  then have "remaining K' t = None" unfolding remaining_None using k None by (simp add: remaining_None)
  then show ?thesis using None by simp
next
  case (Some n)
  then obtain b where b: "st K t = Some (DelayedList b)" and n: "n = unat (wake K t - xTickCount K)" by (auto simp: remaining_eq)
  have "0 < n" by (rule remaining_pos [OF t Some])
  then have "unat (wake K t - xTickCount K - 1) = n - 1" unfolding n by (intro unat_minus_one) auto
  then have m: "unat (wake K t - (xTickCount K + 1)) = n - 1" by (simp add: algebra_simps)
  show ?thesis
  proof (cases "n = 1")
    case True
    then show ?thesis using Some k by (simp add: remaining_None)
  next
    case False
    then obtain m' where "n = Suc (Suc m')" using \<open>0 < n\<close> by (metis One_nat_def Suc_pred neq0_conv)
    then show ?thesis using Some k b m by (simp add: remaining_def)
  qed
qed

definition clock_step :: "kernel \<Rightarrow> kernel \<Rightarrow> bool" where
  "clock_step K K' \<longleftrightarrow> xTickCount K' = xTickCount K + 1 \<and>
     tcbs K' = (\<lambda>t. if remaining K t = Some 1 then woken (tcbs K t) else tcbs K t) \<and>
     (\<forall>t. remaining K' t = (case remaining K t of Some (Suc (Suc n)) \<Rightarrow> Some (Suc n) | _ \<Rightarrow> None)) \<and>
     pxCurrentTCB K' = pxCurrentTCB K \<and> uxSchedulerSuspended K' = uxSchedulerSuspended K \<and> uxPendedTicks K' = uxPendedTicks K \<and>
     uxCurrentNumberOfTasks K' = uxCurrentNumberOfTasks K \<and> xSchedulerRunning K' = xSchedulerRunning K \<and>
     xYieldPending K' = xYieldPending K \<and> yield_requested K' = yield_requested K \<and>
     xNumOfOverflows K' = xNumOfOverflows K + (if xTickCount K + 1 = 0 then 1 else 0)"

lemma tick_ok:
  assumes ok: "kernel_ok K" and u: "uxSchedulerSuspended K = 0"
  shows "returns (xTaskIncrementTick K) (\<lambda>(sw, K'). kernel_ok K' \<and> clock_step K K' \<and>
    (sw \<longleftrightarrow> xYieldPending K \<or> (\<exists>t. remaining K t = Some 1 \<and> prio K (pxCurrentTCB K) \<le> prio K t) \<or>
      1 < length (items (ready K' (prio K (pxCurrentTCB K))))))"
proof -
  define K1 where "K1 = (let K' = K\<lparr>xTickCount := xTickCount K + 1\<rparr> in if xTickCount K + 1 = 0 then taskSWITCH_DELAYED_LISTS K' else K')"
  note p = tick_prepared [OF ok, folded K1_def] and d = due_next [OF kernel_okD(4) [OF ok], folded K1_def]
  have c: "tcbs K1 = tcbs K" "ctl K1 = ctl (K\<lparr>xTickCount := xTickCount K + 1, pxDelayedTaskList := pxDelayedTaskList K1,
      xNumOfOverflows := xNumOfOverflows K + (if xTickCount K + 1 = 0 then 1 else 0)\<rparr>)"
    by (simp_all add: K1_def Let_def taskSWITCH_DELAYED_LISTS_def prvResetNextTaskUnblockTime_def ctl_def)
  have tick: "xTickCount K1 = xTickCount K + 1" using c(2) by (simp add: ctl_def)
  obtain sw K' where r: "(if xNextTaskUnblockTime K1 \<le> xTickCount K1 then unblock_loop (xTickCount K1) False K1 else Some (False, K1)) = Some (sw, K')"
    and K': "core_ok K'" "time_ok K'" "ctl K' = ctl K1" "tcbs K' = (\<lambda>t. if remaining K t = Some 1 then woken (tcbs K t) else tcbs K t)"
    "sw \<longleftrightarrow> (\<exists>t. remaining K t = Some 1 \<and> prio K (pxCurrentTCB K) \<le> prio K t)"
    using tick_unblocks [OF p(1)] p(2,3) c unfolding returns_def d c(1) by (auto simp: ctl_def)
  have e: "xTaskIncrementTick K = Some (sw \<or> 1 < length (items (ready K' (prio K' (pxCurrentTCB K')))) \<or> xYieldPending K', K')"
  proof -
    have "xTaskIncrementTick K = do {
        (sw, K) \<leftarrow> (if xNextTaskUnblockTime K1 \<le> xTickCount K + 1 then unblock_loop (xTickCount K + 1) False K1 else Some (False, K1));
        Some (sw \<or> 1 < length (items (ready K (prio K (pxCurrentTCB K)))), K) } \<bind> (\<lambda>(sw, K). Some (sw \<or> xYieldPending K, K))"
      by (simp only: xTaskIncrementTick_def Let_def u if_True simp_thms K1_def)
    then show ?thesis unfolding r [unfolded tick] by simp
  qed
  have "kernel_ok K'"
    using K' woken_events_ok [OF kernel_okD(2) [OF ok] K'(4)] woken_pending_ok [OF kernel_okD(3) [OF ok] K'(4)] c(2)
    by (simp add: kernel_ok_def ctl_def)
  moreover have "clock_step K K'"
    using K' c(2) remaining_tick [OF kernel_okD(4) [OF ok] K'(4)] by (simp add: clock_step_def ctl_def)
  moreover have "prio K' (pxCurrentTCB K') = prio K (pxCurrentTCB K)" "xYieldPending K' = xYieldPending K"
    using K'(3,4) c(2) by (simp_all add: ctl_def)
  ultimately show ?thesis unfolding e K'(5) by auto
qed

section \<open>Blocking\<close>

text \<open>A ready task out of its list, with the bitmap brought up to date.\<close>

definition unready :: "tid \<Rightarrow> kernel \<Rightarrow> kernel" where
  "unready t K = (if items (ready (detach t K) (prio K t)) = [] then portRESET_READY_PRIORITY (prio K t) (detach t K) else detach t K)"

lemma unready_simps [kernel_simps]:
  "tcbs (unready t K) = (tcbs K)(t := (tcbs K t)\<lparr>xStateContainer := None\<rparr>)"
  "ctl (unready t K) = ctl K" "delayed (unready t K) = delayed (detach t K)"
  "xNextTaskUnblockTime (unready t K) = xNextTaskUnblockTime K" "xNumOfOverflows (unready t K) = xNumOfOverflows K"
  "event_items (unready t K) e = event_items K e"
  by (simp_all add: unready_def kernel_simps ctl_def) (simp_all add: portRESET_READY_PRIORITY_def kernel_simps)

lemma ctl_fields:
  assumes "ctl K' = ctl K"
  shows "pxCurrentTCB K' = pxCurrentTCB K" "pxDelayedTaskList K' = pxDelayedTaskList K" "xTickCount K' = xTickCount K"
    "uxSchedulerSuspended K' = uxSchedulerSuspended K" "uxPendedTicks K' = uxPendedTicks K"
    "uxCurrentNumberOfTasks K' = uxCurrentNumberOfTasks K" "xYieldPending K' = xYieldPending K"
    "yield_requested K' = yield_requested K" "xSchedulerRunning K' = xSchedulerRunning K"
    "xNumOfOverflows K' = xNumOfOverflows K"
  using assms by (simp_all add: ctl_def)

lemmas unready_ctl [kernel_simps] = ctl_fields [OF unready_simps(2)]

lemma core_unready: "core_ok K \<Longrightarrow> core_ok (unready t K)"
  unfolding unready_def using core_detach core_detach_reset by auto

lemma time_unready: "time_ok K \<Longrightarrow> time_ok (unready t K)"
  by (auto simp: time_ok_def kernel_simps)

lemma remove_ready:
  assumes ok: "core_ok K" and r: "st K t = Some (Ready p)"
  shows "\<exists>n. remove_state t K = Some (n, detach t K) \<and>
    (if n = 0 then portRESET_READY_PRIORITY (prio K t) (detach t K) else detach t K) = unready t K \<and>
    (if n = 0 then taskRESET_READY_PRIORITY (prio K t) (detach t K) else detach t K) = unready t K"
  using remove_state_ok [OF ok r] tasks_okD(5) [OF core_okD(2) [OF ok] r]
  by (auto simp: unready_def taskRESET_READY_PRIORITY_def)

text \<open>What the wait does to the task's control block.\<close>

definition asleep :: "u32 \<Rightarrow> bool \<Rightarrow> kernel \<Rightarrow> tcb \<Rightarrow> tcb" where
  "asleep n indefinitely K c =
     (if n = portMAX_DELAY \<and> indefinitely then c\<lparr>xStateContainer := Some SuspendedList\<rparr>
      else c\<lparr>xStateValue := xTickCount K + n,
        xStateContainer := Some (DelayedList (if xTickCount K + n < xTickCount K then \<not> pxDelayedTaskList K else pxDelayedTaskList K))\<rparr>)"

lemma asleep_simps [simp]:
  "uxPriority (asleep n i K c) = uxPriority c" "uxBasePriority (asleep n i K c) = uxBasePriority c"
  "xEventContainer (asleep n i K c) = xEventContainer c" "ucNotifyState (asleep n i K c) = ucNotifyState c"
  "xStateContainer (asleep n i K c) \<noteq> None" "xStateContainer (asleep n i K c) \<noteq> Some (Ready p)"
  by (simp_all add: asleep_def)

lemma block_current:
  assumes ok: "core_ok K" "time_ok K" and r: "st K (pxCurrentTCB K) = Some (Ready p)" and n: "0 < n"
  shows "returns (prvAddCurrentTaskToDelayedList n ind K) (\<lambda>K'. core_ok K' \<and> time_ok K' \<and> ctl K' = ctl K \<and>
    tcbs K' = (tcbs K)(pxCurrentTCB K := asleep n ind K (tcbs K (pxCurrentTCB K))) \<and> xNumOfOverflows K' = xNumOfOverflows K)"
proof -
  let ?t = "pxCurrentTCB K"
  have t: "?t \<noteq> NULL" "?t < 2 ^ 32" using tasks_okD(3) [OF core_okD(2) [OF ok(1)] r] by auto
  obtain k where k: "remove_state ?t K = Some (k, detach ?t K)"
    "(if k = 0 then portRESET_READY_PRIORITY (prio K ?t) (detach ?t K) else detach ?t K) = unready ?t K"
    using remove_ready [OF ok(1) r] by blast
  let ?U = "unready ?t K"
  have cU: "core_ok ?U" "time_ok ?U" using core_unready time_unready ok by blast+
  have f: "pxCurrentTCB (detach ?t K) = ?t" "prio (detach ?t K) ?t = prio K ?t" by (simp_all add: kernel_simps)
  let ?w = "xTickCount K + n"
  let ?W = "set_tcb ?t (\<lambda>c. c\<lparr>xStateValue := ?w\<rparr>) ?U"
  have e: "prvAddCurrentTaskToDelayedList n ind K = Some (if n = portMAX_DELAY \<and> ind then insert_state_end SuspendedList ?t ?U
     else if ?w < xTickCount K then insert_delayed (\<not> pxDelayedTaskList K) ?t ?W
     else (let K' = insert_delayed (pxDelayedTaskList K) ?t ?W
           in if ?w < xNextTaskUnblockTime K then K'\<lparr>xNextTaskUnblockTime := ?w\<rparr> else K'))"
    unfolding prvAddCurrentTaskToDelayedList_def k(1) Let_def bind.bind_lunit prod.case f k(2)
    by (simp add: kernel_simps Let_def)
  have cW: "core_ok ?W"
    using cU(1) tasks_okD(1,2) [OF core_okD(2) [OF cU(1)], of ?t] by (intro core_set_tcb) (auto simp: kernel_simps)
  show ?thesis
  proof (cases "n = portMAX_DELAY \<and> ind")
    case True
    have "core_ok (insert_state_end SuspendedList ?t ?U)" by (rule core_insert_suspended) (use cU t in \<open>simp_all add: kernel_simps\<close>)
    moreover have "time_ok (insert_state_end SuspendedList ?t ?U)"
      using ok(2) by (auto simp: time_ok_def kernel_simps simp del: insert_state_end.simps)
    ultimately show ?thesis using True unfolding e
      by (simp add: kernel_simps asleep_def ctl_def del: insert_state_end.simps)
  next
    case False
    let ?b = "if ?w < xTickCount K then \<not> pxDelayedTaskList K else pxDelayedTaskList K"
    define I where "I = insert_delayed ?b ?t ?W"
    have cI: "core_ok I" unfolding I_def by (rule core_insert_delayed [OF cW]) (use t in \<open>simp_all add: kernel_simps\<close>)
    have I: "tcbs I = (tcbs K)(?t := asleep n ind K (tcbs K ?t))" "ctl I = ctl K"
      "xNextTaskUnblockTime I = xNextTaskUnblockTime K" "xNumOfOverflows I = xNumOfOverflows K"
      using False by (auto simp: I_def kernel_simps asleep_def ctl_def)
    have e': "prvAddCurrentTaskToDelayedList n ind K = Some (if \<not> ?w < xTickCount K \<and> ?w < xNextTaskUnblockTime K
       then I\<lparr>xNextTaskUnblockTime := ?w\<rparr> else I)"
      unfolding e if_not_P [OF False] I_def by (simp add: Let_def kernel_simps)
    have late: "xTickCount K < ?w" if "\<not> ?w < xTickCount K" using that n by (metis add_cancel_left_right less_irrefl not_less_iff_gr_or_eq)
    have "time_ok (if \<not> ?w < xTickCount K \<and> ?w < xNextTaskUnblockTime K then I\<lparr>xNextTaskUnblockTime := ?w\<rparr> else I)"
      using ok(2) late False unfolding time_ok_def
      by (auto simp: I ctl_fields [OF I(2)] asleep_def split: if_splits intro: order_trans dest: less_imp_le)
    then show ?thesis using cI I unfolding e' by (simp add: ctl_def)
  qed
qed

section \<open>Resuming the scheduler\<close>

lemma event_items_detach [kernel_simps]:
  "event_items (detach_event t K) e = (if ev K t = Some e then remove1 t (event_items K e) else event_items K e)"
  by (cases "ev K t"; cases "the (ev K t)"; cases e) (auto simp: detach_event_def set_tcb_def)

lemma event_items_unblock [kernel_simps]:
  "event_items (unblock t K) e = (if ev K t = Some e then remove1 t (event_items K e) else event_items K e)"
  by (simp add: unblock_def kernel_simps)

lemma woken_time_ok:
  assumes "time_ok K" "tcbs K' = (\<lambda>t. if W t then woken (tcbs K t) else tcbs K t)" "ctl K' = ctl K"
    "xNextTaskUnblockTime K' = xNextTaskUnblockTime K"
  shows "time_ok K'"
  using assms(1,2,4) ctl_fields [OF assms(3)] by (auto simp: time_ok_def)

lemma pending_round:
  assumes e: "ev K t = Some e" and s: "st K t = Some s"
  shows "do { (_, K) \<leftarrow> remove_event t K; (_, K) \<leftarrow> remove_state t K; f (prvAddTaskToReadyList t K) } = f (unblock t K)"
proof -
  have s': "st (detach_event t K) t = Some s" using s by (simp add: kernel_simps)
  show ?thesis unfolding remove_event_eq [OF e] bind.bind_lunit prod.case remove_state_eq [OF s'] unblock_def make_ready_def ..
qed

lemma pending_loop_ok:
  assumes "core_ok K" "events_ok K" "xPendingReadyList K = xs"
  shows "returns (pending_loop any K) (\<lambda>(any', K'). any' = (any \<or> xs \<noteq> []) \<and> core_ok K' \<and>
    tcbs K' = (\<lambda>t. if t \<in> set xs then woken (tcbs K t) else tcbs K t) \<and> xNextTaskUnblockTime K' = xNextTaskUnblockTime K \<and>
    ctl K' = ctl (K\<lparr>xYieldPending := xYieldPending K \<or> (\<exists>t \<in> set xs. prio K (pxCurrentTCB K) \<le> prio K t)\<rparr>))"
  using assms
proof (induction xs arbitrary: K any)
  case Nil
  then show ?case by (subst pending_loop.simps) (simp add: ctl_def)
next
  case (Cons t ts)
  have e: "ev K t = Some PendingReadyList"
    using lists_okD(4) [OF core_okD(1) [OF Cons.prems(1)], of t PendingReadyList] Cons.prems(3) by simp
  obtain s where s: "st K t = Some s" using Cons.prems(2) e by (auto simp: events_ok_def)
  define K1 where "K1 = (let K = unblock t K in if prio K (pxCurrentTCB K) \<le> prio K t then K\<lparr>xYieldPending := True\<rparr> else K)"
  have step: "pending_loop any K = pending_loop True K1"
    using Cons.prems(3) pending_round [OF e s, of "\<lambda>K. pending_loop True (if prio K (pxCurrentTCB K) \<le> prio K t then K\<lparr>xYieldPending := True\<rparr> else K)"]
    by (subst pending_loop.simps) (simp add: K1_def Let_def)
  have t1: "tcbs K1 = (tcbs K)(t := woken (tcbs K t))" by (simp add: K1_def Let_def unblock_simps woken_def)
  have c1: "ctl K1 = ctl (K\<lparr>xYieldPending := xYieldPending K \<or> prio K (pxCurrentTCB K) \<le> prio K t\<rparr>)"
    by (simp add: K1_def Let_def ctl_def kernel_simps)
  have x1: "xNextTaskUnblockTime K1 = xNextTaskUnblockTime K" by (simp add: K1_def Let_def kernel_simps)
  have p1: "xPendingReadyList K1 = ts"
    using event_items_unblock [of t K PendingReadyList] e Cons.prems(3) by (simp add: K1_def Let_def)
  have ok1: "core_ok K1" using core_unblock [OF Cons.prems(1) s] by (simp add: K1_def Let_def)
  have e1: "events_ok K1" by (rule woken_events_ok [OF Cons.prems(2), of _ "\<lambda>u. u = t"]) (auto simp: t1)
  have P: "prio K1 u = prio K u" "pxCurrentTCB K1 = pxCurrentTCB K" for u using c1 by (simp_all add: t1 ctl_def)
  have d: "distinct (t # ts)"
    using lists_okD(3) [OF core_okD(1) [OF Cons.prems(1)], of PendingReadyList] Cons.prems(3) by simp
  have T: "(\<lambda>u. if u \<in> set ts then woken (tcbs K1 u) else tcbs K1 u) = (\<lambda>u. if u \<in> set (t # ts) then woken (tcbs K u) else tcbs K u)"
    using d by (auto simp: t1 fun_eq_iff)
  from Cons.IH [OF ok1 e1 p1, of True] c1 show ?case
    unfolding step P T x1 by (elim returns_mono) (auto simp: ctl_def)
qed

lemma kernel_pending:
  assumes ok: "core_ok K" "events_ok K" "time_ok K" and u: "xPendingReadyList K = xs"
    and k: "core_ok K'" "tcbs K' = (\<lambda>t. if t \<in> set xs then woken (tcbs K t) else tcbs K t)"
      "xNextTaskUnblockTime K' = xNextTaskUnblockTime K" "ctl K' = ctl (K\<lparr>xYieldPending := y\<rparr>)"
  shows "kernel_ok K'"
proof -
  have "t \<in> set xs \<longleftrightarrow> ev K t = Some PendingReadyList" for t
    using lists_okD(4) [OF core_okD(1) [OF ok(1)], of t PendingReadyList] u by simp
  then have "pending_ok K'" by (auto simp: pending_ok_def k(2))
  moreover have "events_ok K'" by (rule woken_events_ok [OF ok(2) k(2)])
  moreover have "time_ok K'" by (rule woken_time_ok [OF _ _ k(4), of "\<lambda>t. t \<in> set xs"]) (use ok(3) k in \<open>auto simp: time_ok_def fun_eq_iff\<close>)
  ultimately show ?thesis using k(1) by (simp add: kernel_ok_def)
qed

text \<open>The ticks counted while the scheduler was suspended, made up for one by one.\<close>

definition due_within :: "nat \<Rightarrow> kernel \<Rightarrow> tid \<Rightarrow> bool" where
  "due_within n K t \<longleftrightarrow> (\<exists>k \<le> n. remaining K t = Some k)"

lemma due_within_tick:
  assumes "clock_step K K1" "time_ok K"
  shows "due_within (Suc n) K t \<longleftrightarrow> remaining K t = Some 1 \<or> due_within n K1 t"
proof (cases "remaining K t")
  case None
  then show ?thesis using assms(1) by (simp add: due_within_def clock_step_def)
next
  case (Some k)
  then have "0 < k" by (rule remaining_pos [OF assms(2)])
  then obtain j where k: "k = Suc j" by (cases k) auto
  show ?thesis using assms(1) Some unfolding k by (cases j) (auto simp: due_within_def clock_step_def)
qed

lemma pended_ticks_ok:
  assumes "kernel_ok K" "uxSchedulerSuspended K = 0"
  shows "returns (pended_ticks n K) (\<lambda>K'. kernel_ok K' \<and> xTickCount K' = xTickCount K + of_nat n \<and>
    tcbs K' = (\<lambda>t. if due_within n K t then woken (tcbs K t) else tcbs K t) \<and>
    pxCurrentTCB K' = pxCurrentTCB K \<and> uxSchedulerSuspended K' = 0 \<and> uxCurrentNumberOfTasks K' = uxCurrentNumberOfTasks K \<and>
    xSchedulerRunning K' = xSchedulerRunning K \<and> yield_requested K' = yield_requested K)"
  using assms
proof (induction n arbitrary: K)
  case 0
  have "\<not> due_within 0 K t" for t using remaining_pos [OF kernel_okD(4) [OF 0(1)], of t] by (auto simp: due_within_def)
  then show ?case using 0 by simp
next
  case (Suc n)
  obtain sw K1 where t: "xTaskIncrementTick K = Some (sw, K1)" and k1: "kernel_ok K1" "clock_step K K1"
    using tick_ok [OF Suc.prems] by (auto simp: returns_def)
  let ?K = "if sw then K1\<lparr>xYieldPending := True\<rparr> else K1"
  have c: "xTickCount K1 = xTickCount K + 1" "tcbs K1 = (\<lambda>t. if remaining K t = Some 1 then woken (tcbs K t) else tcbs K t)"
    "pxCurrentTCB K1 = pxCurrentTCB K" "uxSchedulerSuspended K1 = uxSchedulerSuspended K"
    "uxCurrentNumberOfTasks K1 = uxCurrentNumberOfTasks K" "xSchedulerRunning K1 = xSchedulerRunning K" "yield_requested K1 = yield_requested K"
    using k1(2) by (simp_all add: clock_step_def)
  have r: "remaining ?K t = remaining K1 t" for t by (simp add: remaining_def split: option.splits state_list.splits)
  have d: "due_within (Suc n) K t \<longleftrightarrow> remaining K t = Some 1 \<or> due_within n K1 t" for t
    by (rule due_within_tick [OF k1(2) kernel_okD(4) [OF Suc.prems(1)]])
  have not1: "\<not> due_within n K1 t" if "remaining K t = Some 1" for t
    using k1(2) that by (simp add: clock_step_def due_within_def)
  have T: "(\<lambda>t. if due_within n ?K t then woken (tcbs ?K t) else tcbs ?K t) =
      (\<lambda>t. if due_within (Suc n) K t then woken (tcbs K t) else tcbs K t)"
    unfolding d using not1 by (auto simp: due_within_def r c fun_eq_iff)
  have "returns (pended_ticks n ?K) (\<lambda>K'. kernel_ok K' \<and> xTickCount K' = xTickCount ?K + of_nat n \<and>
    tcbs K' = (\<lambda>t. if due_within n ?K t then woken (tcbs ?K t) else tcbs ?K t) \<and>
    pxCurrentTCB K' = pxCurrentTCB ?K \<and> uxSchedulerSuspended K' = 0 \<and> uxCurrentNumberOfTasks K' = uxCurrentNumberOfTasks ?K \<and>
    xSchedulerRunning K' = xSchedulerRunning ?K \<and> yield_requested K' = yield_requested ?K)"
    by (rule Suc.IH) (use k1(1) c(4) Suc.prems(2) in auto)
  then show ?case unfolding T by (cases sw) (simp_all add: t c add.assoc)
qed

text \<open>
  \<open>xTaskResumeAll\<close> of the outermost suspension: the pending tasks and the tasks whose time came
  are ready, the counter has caught up, and nothing else has changed.
\<close>

lemma resume_outermost:
  assumes ok: "kernel_ok K" and n: "uxSchedulerSuspended K = 1" "uxCurrentNumberOfTasks K > 0"
  shows "returns (xTaskResumeAll K) (\<lambda>(y, K'). kernel_ok K' \<and> uxSchedulerSuspended K' = 0 \<and> pxCurrentTCB K' = pxCurrentTCB K \<and>
    xTickCount K' = xTickCount K + uxPendedTicks K \<and> xPendingReadyList K' = [] \<and>
    xSchedulerRunning K' = xSchedulerRunning K \<and> uxCurrentNumberOfTasks K' = uxCurrentNumberOfTasks K \<and>
    (y \<longleftrightarrow> xYieldPending K') \<and> (yield_requested K' \<longleftrightarrow> yield_requested K \<or> y) \<and>
    tcbs K' = (\<lambda>t. if ev K t = Some PendingReadyList \<or> due_within (unat (uxPendedTicks K)) K t then woken (tcbs K t) else tcbs K t))"
proof -
  let ?K = "K\<lparr>uxSchedulerSuspended := 0\<rparr>" and ?xs = "xPendingReadyList K" and ?n = "unat (uxPendedTicks K)"
  have okK: "core_ok ?K" "events_ok ?K" "time_ok ?K"
    using ok by (simp_all add: kernel_ok_def events_ok_def time_ok_def)
  have xs: "t \<in> set ?xs \<longleftrightarrow> ev K t = Some PendingReadyList" for t
    using lists_okD(4) [OF core_okD(1) [OF kernel_okD(1) [OF ok]], of t PendingReadyList] by simp
  obtain K1 y where p: "pending_loop False ?K = Some (?xs \<noteq> [], K1)" and k1: "core_ok K1"
    "tcbs K1 = (\<lambda>t. if t \<in> set ?xs then woken (tcbs K t) else tcbs K t)" "xNextTaskUnblockTime K1 = xNextTaskUnblockTime K"
    "ctl K1 = ctl (?K\<lparr>xYieldPending := y\<rparr>)"
    using pending_loop_ok [OF okK(1,2), of ?xs False] by (auto simp: returns_def cong: if_cong)
  have ok1: "kernel_ok K1" by (rule kernel_pending [OF okK _ k1(1) _ _ k1(4), of ?xs]) (simp_all add: k1 cong: if_cong)
  define K2 where "K2 = (if ?xs \<noteq> [] then prvResetNextTaskUnblockTime K1 else K1)"
  have ok2: "kernel_ok K2" and k2: "tcbs K2 = tcbs K1" "ctl K2 = ctl (?K\<lparr>xYieldPending := y\<rparr>)"
    using kernel_reset [OF ok1] ok1 k1(4) by (simp_all add: K2_def kernel_simps)
  note c = ctl_fields [OF k2(2), simplified]
  have due: "due_within ?n K2 t \<longleftrightarrow> ev K t \<noteq> Some PendingReadyList \<and> due_within ?n K t" for t
    by (auto simp: due_within_def remaining_def k2(1) k1(2) c xs split: option.splits state_list.splits)
  define F where "F = (\<lambda>t. if ev K t = Some PendingReadyList \<or> due_within ?n K t then woken (tcbs K t) else tcbs K t)"
  have "returns (if uxPendedTicks K2 > 0
             then map_option (\<lambda>K. K\<lparr>uxPendedTicks := 0\<rparr>) (pended_ticks (unat (uxPendedTicks K2)) K2) else Some K2)
    (\<lambda>K'. kernel_ok K' \<and> uxSchedulerSuspended K' = 0 \<and> pxCurrentTCB K' = pxCurrentTCB K \<and>
      xTickCount K' = xTickCount K + uxPendedTicks K \<and> tcbs K' = F \<and> xSchedulerRunning K' = xSchedulerRunning K \<and>
      uxCurrentNumberOfTasks K' = uxCurrentNumberOfTasks K \<and> yield_requested K' = yield_requested K)"
  proof (cases "uxPendedTicks K = 0")
    case True
    have "\<not> due_within ?n K t" for t
      using remaining_pos [OF kernel_okD(4) [OF ok], of t] True by (auto simp: due_within_def)
    then have "tcbs K2 = F" by (simp add: k2(1) k1(2) xs F_def)
    then show ?thesis using True ok2 by (simp add: c)
  next
    case False
    have F: "(\<lambda>t. if due_within ?n K2 t then woken (tcbs K2 t) else tcbs K2 t) = F"
      unfolding due by (auto simp: F_def k2(1) k1(2) xs fun_eq_iff)
    have "0 < uxPendedTicks K" using False by (simp add: word_neq_0_conv)
    then show ?thesis using pended_ticks_ok [OF ok2, of ?n] unfolding F by (simp add: c conj_ac)
  qed
  then obtain K3 where k3: "(if uxPendedTicks K2 > 0
             then map_option (\<lambda>K. K\<lparr>uxPendedTicks := 0\<rparr>) (pended_ticks (unat (uxPendedTicks K2)) K2) else Some K2) = Some K3"
    "kernel_ok K3" "uxSchedulerSuspended K3 = 0" "pxCurrentTCB K3 = pxCurrentTCB K"
    "xTickCount K3 = xTickCount K + uxPendedTicks K" "tcbs K3 = F" "xSchedulerRunning K3 = xSchedulerRunning K"
    "uxCurrentNumberOfTasks K3 = uxCurrentNumberOfTasks K" "yield_requested K3 = yield_requested K"
    by (rule returnsE) blast
  have pend: "xPendingReadyList K3 = []"
  proof -
    have "t \<notin> set (xPendingReadyList K3)" for t
      using lists_okD(4) [OF core_okD(1) [OF kernel_okD(1) [OF k3(2)]], of t PendingReadyList] kernel_okD(3) [OF k3(2)] k3(3)
      by (simp add: pending_ok_def)
    then show ?thesis by (cases "xPendingReadyList K3") auto
  qed
  have "xTaskResumeAll K = Some (if xYieldPending K3 then (True, taskYIELD K3) else (False, K3))"
  proof -
    have "uxSchedulerSuspended K - 1 = 0" using n(1) by simp
    then have "xTaskResumeAll K = (if uxPendedTicks K2 > 0
             then map_option (\<lambda>K. K\<lparr>uxPendedTicks := 0\<rparr>) (pended_ticks (unat (uxPendedTicks K2)) K2) else Some K2) \<bind>
        (\<lambda>K. Some (if xYieldPending K then (True, taskYIELD K) else (False, K)))"
      using n(2) p by (simp add: xTaskResumeAll_def Let_def K2_def)
    then show ?thesis unfolding k3(1) bind.bind_lunit .
  qed
  then show ?thesis using k3 pend by (simp add: F_def taskYIELD_def)
qed

lemma xTaskResumeAll_ok:
  assumes ok: "kernel_ok K" and n: "uxSchedulerSuspended K \<noteq> 0" "uxCurrentNumberOfTasks K > 0"
  shows "keeps (xTaskResumeAll K)"
proof (cases "uxSchedulerSuspended K = 1")
  case True
  from resume_outermost [OF ok True n(2)] show ?thesis by (elim returns_mono) auto
next
  case False
  then have "uxSchedulerSuspended K - 1 \<noteq> 0" by simp
  then show ?thesis using ok
    by (simp add: xTaskResumeAll_def Let_def kernel_ok_def events_ok_def pending_ok_def time_ok_def)
qed

lemma vTaskSuspendAll_ok: "kernel_ok K \<Longrightarrow> uxSchedulerSuspended K + 1 \<noteq> 0 \<Longrightarrow> kernel_ok (vTaskSuspendAll K)"
  by (simp add: vTaskSuspendAll_def kernel_ok_def events_ok_def pending_ok_def time_ok_def)

section \<open>The running task\<close>

text \<open>A task runs when it is in a ready list; blocking calls need the scheduler to be active.\<close>

definition running :: "kernel \<Rightarrow> bool" where
  "running K \<longleftrightarrow> st K (pxCurrentTCB K) = Some (Ready (prio K (pxCurrentTCB K))) \<and> uxSchedulerSuspended K = 0 \<and>
     0 < uxCurrentNumberOfTasks K"

lemma running_no_event:
  assumes "kernel_ok K" "running K" shows "ev K (pxCurrentTCB K) = None"
proof (rule ccontr)
  assume "ev K (pxCurrentTCB K) \<noteq> None"
  then obtain e where "ev K (pxCurrentTCB K) = Some e" by auto
  then show False using kernel_okD(2,3) [OF assms(1)] assms(2)
    by (cases e) (auto simp: events_ok_def pending_ok_def running_def)
qed

text \<open>What a blocking call leaves behind.\<close>

definition put_to_sleep :: "u32 \<Rightarrow> bool \<Rightarrow> kernel \<Rightarrow> kernel \<Rightarrow> bool" where
  "put_to_sleep n indefinitely K K' \<longleftrightarrow> kernel_ok K' \<and> ctl K' = ctl K \<and> xNumOfOverflows K' = xNumOfOverflows K \<and>
     tcbs K' = (tcbs K)(pxCurrentTCB K := asleep n indefinitely K (tcbs K (pxCurrentTCB K)))"

lemma kernel_block:
  assumes ok: "core_ok K" "time_ok K" "pending_ok K" and r: "st K (pxCurrentTCB K) = Some (Ready p)" and n: "0 < n"
    and e: "events_ok (set_tcb (pxCurrentTCB K) (asleep n ind K) K)"
  shows "returns (prvAddCurrentTaskToDelayedList n ind K) (put_to_sleep n ind K)"
  using block_current [OF ok(1,2) r n, of ind]
proof (elim returns_mono)
  fix K'
  assume k: "core_ok K' \<and> time_ok K' \<and> ctl K' = ctl K \<and>
    tcbs K' = (tcbs K)(pxCurrentTCB K := asleep n ind K (tcbs K (pxCurrentTCB K))) \<and> xNumOfOverflows K' = xNumOfOverflows K"
  then have t: "tcbs K' = tcbs (set_tcb (pxCurrentTCB K) (asleep n ind K) K)" and s: "uxSchedulerSuspended K' = uxSchedulerSuspended K"
    using ctl_fields(4) [of K' K] by (simp_all add: kernel_simps)
  have "events_ok K'" using e unfolding events_ok_def t .
  moreover have "pending_ok K'" using ok(3) unfolding pending_ok_def s t by (auto simp: kernel_simps)
  ultimately show "put_to_sleep n ind K K'" using k by (simp add: put_to_sleep_def kernel_ok_def)
qed

lemma asleep_listed [simp]: "\<exists>s. xStateContainer (asleep n i K c) = Some s"
  by (simp add: asleep_def)

lemma sleep_events:
  assumes "events_ok K" "ev K (pxCurrentTCB K) = None"
  shows "events_ok (set_tcb (pxCurrentTCB K) (asleep n ind K) K)"
  using assms by (auto simp: events_ok_def kernel_simps)

lemma prvAdd_ok:
  assumes "kernel_ok K" "running K" "0 < n"
  shows "returns (prvAddCurrentTaskToDelayedList n ind K) (put_to_sleep n ind K)"
  using kernel_okD [OF assms(1)] assms(2,3) sleep_events [OF _ running_no_event [OF assms(1,2)]]
  by (intro kernel_block) (auto simp: running_def)

text \<open>
  Waiting on an event list. The caller may have suspended the scheduler, as long as no interrupt has
  moved the task to the pending ready list.
\<close>

definition able :: "kernel \<Rightarrow> bool" where
  "able K \<longleftrightarrow> st K (pxCurrentTCB K) = Some (Ready (prio K (pxCurrentTCB K))) \<and> ev K (pxCurrentTCB K) = None"

lemma running_able: "kernel_ok K \<Longrightarrow> running K \<Longrightarrow> able K"
  using running_no_event by (simp add: able_def running_def)

lemma place_on_list:
  assumes ok: "kernel_ok K" and r: "able K" and n: "0 < n" and w: "ucNotifyState (tcbs K (pxCurrentTCB K)) \<noteq> Waiting"
    and i: "lists_ok I" "tcbs I = (tcbs K)(pxCurrentTCB K := (tcbs K (pxCurrentTCB K))\<lparr>xEventContainer := Some (EventList e)\<rparr>)"
      "uxTopReadyPriority I = uxTopReadyPriority K" "delayed I = delayed K" "ctl I = ctl K" "xNextTaskUnblockTime I = xNextTaskUnblockTime K"
  shows "returns (prvAddCurrentTaskToDelayedList n ind I) (put_to_sleep n ind I)"
proof -
  have c: "pxCurrentTCB I = pxCurrentTCB K" "uxSchedulerSuspended I = uxSchedulerSuspended K"
    using ctl_fields [OF i(5)] by simp_all
  have t: "pxCurrentTCB K \<noteq> NULL \<and> pxCurrentTCB K < 2 ^ 32"
    using tasks_okD(3) [OF core_okD(2) [OF kernel_okD(1) [OF ok]]] r by (simp add: able_def)
  show ?thesis
  proof (rule kernel_block)
    show "core_ok I" using t by (intro core_tcb_events [OF kernel_okD(1) [OF ok] i(1) i(2)] i) auto
    show "time_ok I" using kernel_okD(4) [OF ok] ctl_fields [OF i(5)] by (auto simp: time_ok_def i)
    show "pending_ok I" using kernel_okD(3) [OF ok] r by (auto simp: pending_ok_def i c able_def)
    show "st I (pxCurrentTCB I) = Some (Ready (prio K (pxCurrentTCB K)))" using r by (simp add: i c able_def)
    show "events_ok (set_tcb (pxCurrentTCB I) (asleep n ind I) I)"
      using kernel_okD(2) [OF ok] w by (auto simp: events_ok_def kernel_simps i c)
  qed fact
qed

lemma vTaskPlaceOnEventList_ok:
  assumes ok: "kernel_ok K" and r: "able K" and n: "0 < n" and w: "ucNotifyState (tcbs K (pxCurrentTCB K)) \<noteq> Waiting"
  shows "returns (vTaskPlaceOnEventList e n K) (put_to_sleep n True (insert_event e (pxCurrentTCB K) K))"
  unfolding vTaskPlaceOnEventList_def
  by (rule place_on_list [OF assms])
     (use r core_okD(1) [OF kernel_okD(1) [OF ok]] in
       \<open>auto simp: able_def kernel_simps ctl_def fun_eq_iff intro: lists_ok_insert(4)\<close>)

lemma vTaskPlaceOnEventListRestricted_ok:
  assumes ok: "kernel_ok K" and r: "able K" and n: "i \<or> 0 < n" and w: "ucNotifyState (tcbs K (pxCurrentTCB K)) \<noteq> Waiting"
  shows "returns (vTaskPlaceOnEventListRestricted e n i K)
    (put_to_sleep (if i then portMAX_DELAY else n) i (insert_event_end (EventList e) (pxCurrentTCB K) K))"
proof -
  have n': "0 < (if i then portMAX_DELAY else n)" using n by auto
  show ?thesis
    unfolding vTaskPlaceOnEventListRestricted_def Let_def
    by (rule place_on_list [OF ok r n' w])
       (use r core_okD(1) [OF kernel_okD(1) [OF ok]] in
         \<open>auto simp: able_def kernel_simps ctl_def fun_eq_iff simp del: insert_event_end.simps intro: lists_ok_insert(3)\<close>)
qed

lemma event_value_ok:
  assumes "kernel_ok K"
  shows "kernel_ok (set_tcb t (\<lambda>c. c\<lparr>xEventValue := f c\<rparr>) K)"
  by (rule kernel_set_tcb [OF assms]) (auto dest: waiting_no_event [OF assms])

lemma vTaskPlaceOnUnorderedEventList_ok:
  assumes ok: "kernel_ok K" and r: "able K" and n: "0 < n" and w: "ucNotifyState (tcbs K (pxCurrentTCB K)) \<noteq> Waiting"
  shows "returns (vTaskPlaceOnUnorderedEventList e v n K) kernel_ok"
proof -
  let ?t = "pxCurrentTCB K"
  let ?K = "set_tcb ?t (\<lambda>c. c\<lparr>xEventValue := v OR taskEVENT_LIST_ITEM_VALUE_IN_USE\<rparr>) K"
  have ok': "kernel_ok ?K" by (rule event_value_ok [OF ok])
  have r': "able ?K" using r by (simp add: able_def kernel_simps)
  have w': "ucNotifyState (tcbs ?K (pxCurrentTCB ?K)) \<noteq> Waiting" using w by (simp add: kernel_simps)
  have c: "pxCurrentTCB ?K = ?t" by (simp add: kernel_simps)
  have "returns (prvAddCurrentTaskToDelayedList n True (insert_event_end (EventList e) ?t ?K))
      (put_to_sleep n True (insert_event_end (EventList e) ?t ?K))"
    by (rule place_on_list [OF ok' r' n w'])
       (use r' core_okD(1) [OF kernel_okD(1) [OF ok']] in
         \<open>auto simp: able_def kernel_simps ctl_def fun_eq_iff simp del: insert_event_end.simps intro: lists_ok_insert(3)\<close>)
  then show ?thesis unfolding vTaskPlaceOnUnorderedEventList_def Let_def
    by (elim returns_mono) (simp add: put_to_sleep_def)
qed

text \<open>Waiting for a notification.\<close>

lemma notify_wait_ok:
  assumes ok: "kernel_ok K" and r: "running K" and f: "\<And>c. xStateContainer (f c) = xStateContainer c"
    "\<And>c. xEventContainer (f c) = xEventContainer c" "\<And>c. uxPriority (f c) = uxPriority c"
    "\<And>c. uxBasePriority (f c) = uxBasePriority c" "\<And>c. xStateValue (f c) = xStateValue c"
  shows "returns (if 0 < n then map_option taskYIELD (prvAddCurrentTaskToDelayedList n True (set_tcb (pxCurrentTCB K) f K))
    else Some (set_tcb (pxCurrentTCB K) f K)) kernel_ok"
proof -
  let ?K = "set_tcb (pxCurrentTCB K) f K"
  have ok': "kernel_ok ?K" by (rule kernel_set_tcb [OF ok]) (use running_no_event [OF ok r] f in auto)
  have r': "running ?K" using r f by (simp add: running_def kernel_simps)
  show ?thesis
  proof (cases "0 < n")
    case True
    from prvAdd_ok [OF ok' r' True, of True] have "returns (prvAddCurrentTaskToDelayedList n True ?K) kernel_ok"
      by (elim returns_mono) (simp add: put_to_sleep_def)
    then show ?thesis using True by simp
  qed (use ok' in simp)
qed

lemma ulTaskNotifyTake_ok:
  assumes "kernel_ok K" "running K"
  shows "returns (ulTaskNotifyTake_wait n K) kernel_ok"
proof -
  let ?r = "if 0 < n then map_option taskYIELD (prvAddCurrentTaskToDelayedList n True
      (set_tcb (pxCurrentTCB K) (\<lambda>c. c\<lparr>ucNotifyState := Waiting\<rparr>) K))
    else Some (set_tcb (pxCurrentTCB K) (\<lambda>c. c\<lparr>ucNotifyState := Waiting\<rparr>) K)"
  have "returns ?r kernel_ok" by (rule notify_wait_ok [OF assms]) simp_all
  moreover have "ulTaskNotifyTake_wait n K = (if ulNotifiedValue (tcbs K (pxCurrentTCB K)) = 0 then ?r else Some K)"
    by (simp add: ulTaskNotifyTake_wait_def Let_def)
  ultimately show ?thesis using assms(1) by (simp split: if_splits)
qed

lemma xTaskNotifyWait_ok:
  assumes "kernel_ok K" "running K"
  shows "returns (xTaskNotifyWait_wait b n K) kernel_ok"
proof -
  let ?f = "\<lambda>c. c\<lparr>ulNotifiedValue := ulNotifiedValue c AND NOT b, ucNotifyState := Waiting\<rparr>"
  let ?r = "if 0 < n then map_option taskYIELD (prvAddCurrentTaskToDelayedList n True (set_tcb (pxCurrentTCB K) ?f K))
    else Some (set_tcb (pxCurrentTCB K) ?f K)"
  have "returns ?r kernel_ok" by (rule notify_wait_ok [OF assms]) simp_all
  moreover have "xTaskNotifyWait_wait b n K = (if ucNotifyState (tcbs K (pxCurrentTCB K)) \<noteq> Received then ?r else Some K)"
    by (simp add: xTaskNotifyWait_wait_def Let_def)
  ultimately show ?thesis using assms(1) by (simp split: if_splits)
qed

lemma notify_returns_ok:
  assumes "kernel_ok K"
  shows "kernel_ok (snd (ulTaskNotifyTake_return b K))" "kernel_ok (snd (snd (xTaskNotifyWait_return m K)))"
    "kernel_ok (snd (xTaskNotifyStateClear t K))"
proof -
  have v: "kernel_ok (set_tcb t (\<lambda>c. c\<lparr>ulNotifiedValue := v\<rparr>) K)" for t v
    by (rule kernel_set_tcb [OF assms]) (auto dest: waiting_no_event [OF assms])
  have n: "kernel_ok (set_tcb t (\<lambda>c. c\<lparr>ucNotifyState := NotWaiting\<rparr>) K)" if "kernel_ok K" for t K
    by (rule kernel_set_tcb [OF that]) auto
  show "kernel_ok (snd (ulTaskNotifyTake_return b K))" using v n assms
    by (simp add: ulTaskNotifyTake_return_def Let_def)
  show "kernel_ok (snd (snd (xTaskNotifyWait_return m K)))" using v n assms
    by (simp add: xTaskNotifyWait_return_def Let_def)
  show "kernel_ok (snd (xTaskNotifyStateClear t K))" using n assms by (simp add: xTaskNotifyStateClear_def Let_def)
qed

lemma uxTaskResetEventItemValue_ok: "kernel_ok K \<Longrightarrow> kernel_ok (snd (uxTaskResetEventItemValue K))"
  using event_value_ok [of K "pxCurrentTCB K" "\<lambda>c. configMAX_PRIORITIES - uxPriority c"]
  by (simp add: uxTaskResetEventItemValue_def Let_def)

lemma pvTaskIncrementMutexHeldCount_ok:
  assumes "kernel_ok K" shows "kernel_ok (snd (pvTaskIncrementMutexHeldCount K))"
proof -
  have "kernel_ok (set_tcb t (\<lambda>c. c\<lparr>uxMutexesHeld := uxMutexesHeld c + 1\<rparr>) K)" for t
    by (rule kernel_set_tcb [OF assms]) (auto dest: waiting_no_event [OF assms])
  then show ?thesis using assms by (simp add: pvTaskIncrementMutexHeldCount_def Let_def)
qed

section \<open>Delays\<close>

lemma suspended_sleep:
  assumes ok: "kernel_ok K" and r: "running K" and n: "0 < n"
  shows "returns (prvAddCurrentTaskToDelayedList n ind (vTaskSuspendAll K)) (\<lambda>K'. put_to_sleep n ind (vTaskSuspendAll K) K' \<and>
    uxSchedulerSuspended K' = 1 \<and> 0 < uxCurrentNumberOfTasks K' \<and> uxPendedTicks K' = uxPendedTicks K \<and>
    xTickCount K' = xTickCount K \<and> pxCurrentTCB K' = pxCurrentTCB K \<and> ev K' (pxCurrentTCB K) = None \<and>
    tcbs K' = (tcbs K)(pxCurrentTCB K := asleep n ind K (tcbs K (pxCurrentTCB K))))"
proof -
  let ?K = "vTaskSuspendAll K"
  have u: "uxSchedulerSuspended K = 0" and c: "0 < uxCurrentNumberOfTasks K" using r by (simp_all add: running_def)
  have ok': "kernel_ok ?K" by (rule vTaskSuspendAll_ok [OF ok]) (simp add: u)
  have k: "tcbs ?K = tcbs K" "pxCurrentTCB ?K = pxCurrentTCB K" "uxSchedulerSuspended ?K = 1" "uxPendedTicks ?K = uxPendedTicks K"
    "uxCurrentNumberOfTasks ?K = uxCurrentNumberOfTasks K" "xTickCount ?K = xTickCount K"
    "pxDelayedTaskList ?K = pxDelayedTaskList K"
    by (simp_all add: vTaskSuspendAll_def u)
  have e: "ev K (pxCurrentTCB K) = None" by (rule running_no_event [OF ok r])
  have "returns (prvAddCurrentTaskToDelayedList n ind ?K) (put_to_sleep n ind ?K)"
    using kernel_okD [OF ok'] r n sleep_events [of ?K n ind] e by (intro kernel_block) (auto simp: k running_def)
  then show ?thesis
  proof (elim returns_mono)
    fix K' assume p: "put_to_sleep n ind ?K K'"
    then have t: "tcbs K' = (tcbs K)(pxCurrentTCB K := asleep n ind K (tcbs K (pxCurrentTCB K)))" and c': "ctl K' = ctl ?K"
      by (simp_all add: put_to_sleep_def k asleep_def)
    show "put_to_sleep n ind ?K K' \<and>
    uxSchedulerSuspended K' = 1 \<and> 0 < uxCurrentNumberOfTasks K' \<and> uxPendedTicks K' = uxPendedTicks K \<and>
    xTickCount K' = xTickCount K \<and> pxCurrentTCB K' = pxCurrentTCB K \<and> ev K' (pxCurrentTCB K) = None \<and>
    tcbs K' = (tcbs K)(pxCurrentTCB K := asleep n ind K (tcbs K (pxCurrentTCB K)))"
      using p t c e unfolding ctl_fields [OF c'] k by simp
  qed
qed

text \<open>A delay without missed ticks only puts the caller to sleep and asks for a switch.\<close>

lemma vTaskDelay_sleeps:
  assumes ok: "kernel_ok K" and r: "running K" and n: "0 < n"
  shows "returns (vTaskDelay n K) (\<lambda>K'. kernel_ok K' \<and> yield_requested K' \<and> uxSchedulerSuspended K' = 0 \<and>
    (uxPendedTicks K = 0 \<and> xPendingReadyList K = [] \<longrightarrow> xTickCount K' = xTickCount K \<and> pxCurrentTCB K' = pxCurrentTCB K \<and>
      tcbs K' = (tcbs K)(pxCurrentTCB K := asleep n False K (tcbs K (pxCurrentTCB K)))))"
proof -
  obtain K1 where k1: "prvAddCurrentTaskToDelayedList n False (vTaskSuspendAll K) = Some K1" "kernel_ok K1"
    "uxSchedulerSuspended K1 = 1" "0 < uxCurrentNumberOfTasks K1" "uxPendedTicks K1 = uxPendedTicks K" "xTickCount K1 = xTickCount K"
    "pxCurrentTCB K1 = pxCurrentTCB K" "tcbs K1 = (tcbs K)(pxCurrentTCB K := asleep n False K (tcbs K (pxCurrentTCB K)))"
    using suspended_sleep [OF assms, of False] by (auto simp: returns_def put_to_sleep_def)
  obtain y K2 where k2: "xTaskResumeAll K1 = Some (y, K2)" "kernel_ok K2" "uxSchedulerSuspended K2 = 0"
    "pxCurrentTCB K2 = pxCurrentTCB K1" "xTickCount K2 = xTickCount K1 + uxPendedTicks K1"
    "yield_requested K2 \<longleftrightarrow> yield_requested K1 \<or> y"
    "tcbs K2 = (\<lambda>t. if ev K1 t = Some PendingReadyList \<or> due_within (unat (uxPendedTicks K1)) K1 t then woken (tcbs K1 t) else tcbs K1 t)"
    using resume_outermost [OF k1(2-4)] by (auto simp: returns_def)
  have d: "vTaskDelay n K = Some (if y then K2 else taskYIELD K2)"
    using n k1(1) k2(1) by (simp add: vTaskDelay_def)
  have same: "tcbs K2 = tcbs K1" if "uxPendedTicks K = 0" "xPendingReadyList K = []"
  proof -
    have "\<not> due_within 0 K1 t" for t using remaining_pos [OF kernel_okD(4) [OF k1(2)], of t] by (auto simp: due_within_def)
    moreover have "ev K t \<noteq> Some PendingReadyList" for t
      using lists_okD(4) [OF core_okD(1) [OF kernel_okD(1) [OF ok]], of t PendingReadyList] that(2) by simp
    then have "ev K1 t \<noteq> Some PendingReadyList" for t by (simp add: k1(8))
    ultimately show ?thesis by (simp add: k2(7) k1(5) that(1))
  qed
  show ?thesis unfolding d using k1 k2 same by (simp add: taskYIELD_def)
qed

lemma vTaskDelay_ok:
  assumes "kernel_ok K" "running K" shows "returns (vTaskDelay n K) kernel_ok"
proof (cases "0 < n")
  case True
  from vTaskDelay_sleeps [OF assms True] show ?thesis by (elim returns_mono) simp
qed (use assms in \<open>simp add: vTaskDelay_def\<close>)

lemma should_delay_pos: "should_delay now prev w \<Longrightarrow> 0 < w - now"
  by (auto simp: should_delay_def word_neq_0_conv [symmetric] split: if_splits)

lemma vTaskDelayUntil_ok:
  assumes ok: "kernel_ok K" and r: "running K"
  shows "returns (vTaskDelayUntil p n K) (\<lambda>(_, K). kernel_ok K)"
proof -
  let ?S = "vTaskSuspendAll K"
  have u: "uxSchedulerSuspended K = 0" "0 < uxCurrentNumberOfTasks K" using r by (simp_all add: running_def)
  have okS: "kernel_ok ?S" by (rule vTaskSuspendAll_ok [OF ok]) (simp add: u)
  have s: "xTickCount ?S = xTickCount K" "uxSchedulerSuspended ?S = 1" "0 < uxCurrentNumberOfTasks ?S"
    using u by (simp_all add: vTaskSuspendAll_def)
  have "returns (if should_delay (xTickCount K) p (p + n)
       then prvAddCurrentTaskToDelayedList (p + n - xTickCount K) False ?S else Some ?S)
    (\<lambda>K'. kernel_ok K' \<and> uxSchedulerSuspended K' \<noteq> 0 \<and> 0 < uxCurrentNumberOfTasks K')"
  proof (cases "should_delay (xTickCount K) p (p + n)")
    case True
    from suspended_sleep [OF assms should_delay_pos [OF True], of False] True show ?thesis
      by (simp add: put_to_sleep_def) (elim returns_mono; simp)
  qed (use okS s in simp)
  then obtain K1 where k1: "(if should_delay (xTickCount K) p (p + n)
       then prvAddCurrentTaskToDelayedList (p + n - xTickCount K) False ?S else Some ?S) = Some K1"
     "kernel_ok K1" "uxSchedulerSuspended K1 \<noteq> 0" "0 < uxCurrentNumberOfTasks K1" by (rule returnsE) blast
  have "vTaskDelayUntil p n K = do { (y, K) \<leftarrow> xTaskResumeAll K1; Some (p + n, if y then K else taskYIELD K) }"
    unfolding vTaskDelayUntil_def Let_def s(1) k1(1) bind.bind_lunit ..
  moreover have "keeps (xTaskResumeAll K1)" using xTaskResumeAll_ok k1(2-4) by blast
  ultimately show ?thesis by (auto elim!: returns_mono)
qed

lemma suspended_tick:
  "uxSchedulerSuspended K \<noteq> 0 \<Longrightarrow>
    xTaskIncrementTick K = Some (xYieldPending K, K\<lparr>uxPendedTicks := uxPendedTicks K + 1\<rparr>)"
  by (simp add: xTaskIncrementTick_def)

lemma xTaskIncrementTick_ok: "kernel_ok K \<Longrightarrow> keeps (xTaskIncrementTick K)"
  using tick_ok [of K] by (cases "uxSchedulerSuspended K = 0") (auto simp: suspended_tick elim!: returns_mono)

section \<open>Suspending and creating tasks\<close>

lemma events_same: "events_ok K \<Longrightarrow> tcbs K' = tcbs K \<Longrightarrow> events_ok K'"
  by (simp add: events_ok_def)

lemma suspended_events:
  assumes "events_ok K" "tcbs K' = (tcbs K)(t := c)" "xEventContainer c = None"
  shows "events_ok K'"
  using assms by (auto simp: events_ok_def)

lemma vTaskSuspend_ok:
  assumes ok: "kernel_ok K" and r: "xSchedulerRunning K" and t: "st K (prvGetTCBFromHandle h K) \<noteq> None"
  shows "returns (vTaskSuspend h K) kernel_ok"
proof -
  let ?t = "prvGetTCBFromHandle h K"
  obtain s where s: "st K ?t = Some s" using t by auto
  note c = kernel_okD(1) [OF ok]
  have addr: "?t \<noteq> NULL" "?t < 2 ^ 32" using tasks_okD(3) [OF core_okD(2) [OF c] s] by auto
  obtain n where n: "remove_state ?t K = Some (n, detach ?t K)" "n = 0 \<longleftrightarrow> state_items (detach ?t K) s = []"
    using remove_state_ok [OF c s] by auto
  define K1 where "K1 = (if n = 0 then taskRESET_READY_PRIORITY (prio K ?t) (detach ?t K) else detach ?t K)"
  have k1: "core_ok K1 \<and> tcbs K1 = tcbs (detach ?t K) \<and> ctl K1 = ctl K \<and> xNextTaskUnblockTime K1 = xNextTaskUnblockTime K"
  proof (cases "\<exists>p. s = Ready p")
    case True
    then obtain p where p: "st K ?t = Some (Ready p)" using s by auto
    have "K1 = unready ?t K" using remove_ready [OF c p] n(1) by (auto simp: K1_def)
    then show ?thesis using core_unready [OF c] by (simp add: kernel_simps)
  next
    case False
    have d: "core_ok (detach ?t K)" by (rule core_detach [OF c]) (use s False in auto)
    show ?thesis
    proof (cases "n = 0 \<and> items (ready (detach ?t K) (prio K ?t)) = []")
      case True
      have "core_ok (portRESET_READY_PRIORITY (prio K ?t) (detach ?t K))" by (rule core_detach_reset [OF c]) (use True in simp)
      then show ?thesis using True by (simp add: K1_def taskRESET_READY_PRIORITY_def kernel_simps ctl_def)
          (simp add: portRESET_READY_PRIORITY_def kernel_simps)
    next
      case False
      then have "K1 = detach ?t K" by (auto simp: K1_def taskRESET_READY_PRIORITY_def)
      then show ?thesis using d by (simp add: ctl_def kernel_simps)
    qed
  qed
  define K2 where "K2 = insert_state_end SuspendedList ?t (detach_event ?t K1)"
  have "core_ok K2" unfolding K2_def
    by (rule core_insert_suspended) (use k1 addr in \<open>auto simp: kernel_simps intro: core_detach_event\<close>)
  moreover have t2: "tcbs K2 = (tcbs K)(?t := (tcbs K ?t)\<lparr>xStateContainer := Some SuspendedList, xEventContainer := None\<rparr>)"
    unfolding K2_def using k1 by (simp add: kernel_simps containers_commute del: insert_state_end.simps)
  moreover have x2: "ctl K2 = ctl K" "xNextTaskUnblockTime K2 = xNextTaskUnblockTime K"
    unfolding K2_def using k1 by (simp_all add: kernel_simps ctl_def del: insert_state_end.simps)
  moreover have "events_ok K2" by (rule suspended_events [OF kernel_okD(2) [OF ok] t2]) simp
  moreover have "pending_ok K2" using kernel_okD(3) [OF ok] unfolding pending_ok_def t2 ctl_fields [OF x2(1)] by auto
  moreover have "time_ok K2" using kernel_okD(4) [OF ok] unfolding time_ok_def t2 ctl_fields [OF x2(1)] x2(2) by auto
  ultimately have ok2: "kernel_ok K2" by (simp add: kernel_ok_def)
  define K3 where "K3 = (if ucNotifyState (tcbs K2 ?t) = Waiting then set_tcb ?t (\<lambda>c. c\<lparr>ucNotifyState := NotWaiting\<rparr>) K2 else K2)"
  have ok3: "kernel_ok K3" unfolding K3_def using ok2 kernel_set_tcb [OF ok2, of "\<lambda>c. c\<lparr>ucNotifyState := NotWaiting\<rparr>" ?t] by simp
  have r3: "xSchedulerRunning K3" using r ctl_fields(9) [OF x2(1)] by (simp add: K3_def kernel_simps)
  have r4: "xSchedulerRunning (prvResetNextTaskUnblockTime K3)" using r3 by (simp add: prvResetNextTaskUnblockTime_def)
  have p: "prio (detach ?t K) ?t = prio K ?t" by (simp add: kernel_simps)
  have e: "vTaskSuspend h K = (let K4 = (if xSchedulerRunning K3 then prvResetNextTaskUnblockTime K3 else K3) in
     if ?t = pxCurrentTCB K4
     then (if xSchedulerRunning K4 then Some (taskYIELD K4)
       else if of_nat (length (xSuspendedTaskList K4)) = uxCurrentNumberOfTasks K4
       then Some (K4\<lparr>pxCurrentTCB := NULL\<rparr>) else vTaskSwitchContext K4)
     else Some K4)"
    unfolding vTaskSuspend_def Let_def n(1) bind.bind_lunit prod.case p
    unfolding K3_def K2_def K1_def maybe_remove_event bind.bind_lunit ..
  show ?thesis unfolding e Let_def using r3 r4 kernel_reset [OF ok3] by simp
qed

section \<open>Priorities\<close>

lemma kernel_retask:
  assumes ok: "kernel_ok K" and c: "core_ok K'" and t: "tcbs K' = (tcbs K)(t := c)" "ctl K' = ctl K"
    "xNextTaskUnblockTime K' = xNextTaskUnblockTime K"
    and f: "xEventContainer c = ev K t" "ucNotifyState c = ucNotifyState (tcbs K t)" "xStateValue c = wake K t"
    and s: "xStateContainer c = st K t \<or> (\<exists>p q. xStateContainer c = Some (Ready p) \<and> st K t = Some (Ready q))"
  shows "kernel_ok K'"
proof -
  have "events_ok K'" using kernel_okD(2) [OF ok] s by (auto simp: events_ok_def t f) metis
  moreover have "pending_ok K'" using kernel_okD(3) [OF ok] f(1) ctl_fields(4) [OF t(2)] by (auto simp: pending_ok_def t(1))
  moreover have "time_ok K'" using kernel_okD(4) [OF ok] s f(3) unfolding time_ok_def ctl_fields [OF t(2)] t(3)
    by (auto simp: t(1))
  ultimately show ?thesis using c by (simp add: kernel_ok_def)
qed

definition event_priority :: "u32 \<Rightarrow> tcb \<Rightarrow> tcb" where
  "event_priority p c = (if xEventValue c AND taskEVENT_LIST_ITEM_VALUE_IN_USE = 0
     then c\<lparr>xEventValue := configMAX_PRIORITIES - p\<rparr> else c)"

lemma event_priority_simps [simp]:
  "xStateContainer (event_priority p c) = xStateContainer c" "xEventContainer (event_priority p c) = xEventContainer c"
  "uxPriority (event_priority p c) = uxPriority c" "uxBasePriority (event_priority p c) = uxBasePriority c"
  "xStateValue (event_priority p c) = xStateValue c" "ucNotifyState (event_priority p c) = ucNotifyState c"
  "uxMutexesHeld (event_priority p c) = uxMutexesHeld c"
  "event_priority p (c\<lparr>xStateContainer := s\<rparr>) = (event_priority p c)\<lparr>xStateContainer := s\<rparr>"
  by (simp_all add: event_priority_def)

lemma set_event_priority_eq: "set_event_priority t p K = set_tcb t (event_priority p) K"
  by (simp add: set_event_priority_def event_priority_def set_tcb_def)

lemma set_tcb_twice: "set_tcb t f (set_tcb t g K) = set_tcb t (\<lambda>c. f (g c)) K"
  by (simp add: set_tcb_def)

lemma set_tcb_ctl [kernel_simps]: "ctl (set_tcb t f K) = ctl K"
  by (simp add: ctl_def kernel_simps)

text \<open>A ready task whose priority changes: out of its old list, and into the one of its new priority.\<close>

definition reprioritise :: "tid \<Rightarrow> (tcb \<Rightarrow> tcb) \<Rightarrow> kernel \<Rightarrow> kernel" where
  "reprioritise t f K = prvAddTaskToReadyList t (set_tcb t f (unready t K))"

lemma add_ready_ctl [kernel_simps]: "ctl (prvAddTaskToReadyList t K) = ctl K"
  by (simp add: ctl_def kernel_simps)

lemma reprioritise_simps [kernel_simps]:
  assumes "\<And>c s. f (c\<lparr>xStateContainer := s\<rparr>) = (f c)\<lparr>xStateContainer := s\<rparr>"
  shows "tcbs (reprioritise t f K) = (tcbs K)(t := (f (tcbs K t))\<lparr>xStateContainer := Some (Ready (uxPriority (f (tcbs K t))))\<rparr>)"
    "ctl (reprioritise t f K) = ctl K" "xNextTaskUnblockTime (reprioritise t f K) = xNextTaskUnblockTime K"
  by (simp_all add: reprioritise_def kernel_simps assms)

definition keeps_place :: "(tcb \<Rightarrow> tcb) \<Rightarrow> bool" where
  "keeps_place f \<longleftrightarrow> (\<forall>c s. f (c\<lparr>xStateContainer := s\<rparr>) = (f c)\<lparr>xStateContainer := s\<rparr>) \<and>
     (\<forall>c. xStateContainer (f c) = xStateContainer c \<and> xEventContainer (f c) = xEventContainer c \<and>
       xStateValue (f c) = xStateValue c \<and> ucNotifyState (f c) = ucNotifyState c)"

lemma kernel_reprioritise:
  assumes ok: "kernel_ok K" and r: "st K t = Some (Ready p)" and f: "keeps_place f"
    and p: "uxPriority (f (tcbs K t)) < 8" "uxBasePriority (f (tcbs K t)) < 8"
  shows "kernel_ok (reprioritise t f K)"
proof -
  note c = kernel_okD(1) [OF ok]
  have comm: "f (c\<lparr>xStateContainer := s\<rparr>) = (f c)\<lparr>xStateContainer := s\<rparr>" for c s using f by (simp add: keeps_place_def)
  have addr: "t \<noteq> NULL" "t < 2 ^ 32" using tasks_okD(3) [OF core_okD(2) [OF c] r] by auto
  have "core_ok (set_tcb t f (unready t K))"
    using core_unready [OF c] f p by (intro core_set_tcb) (auto simp: kernel_simps keeps_place_def comm)
  then have "core_ok (reprioritise t f K)" unfolding reprioritise_def
    by (rule core_add_ready) (use f addr in \<open>auto simp: kernel_simps keeps_place_def comm\<close>)
  then show ?thesis
    by (rule kernel_retask [OF ok _ reprioritise_simps [OF comm]]) (use f r in \<open>auto simp: keeps_place_def\<close>)
qed

lemma kernel_adjust:
  assumes ok: "kernel_ok K" and f: "keeps_place f" and r: "\<And>p. st K t \<noteq> Some (Ready p)"
    and p: "uxPriority (f (tcbs K t)) < 8" "uxBasePriority (f (tcbs K t)) < 8"
  shows "kernel_ok (set_tcb t f K)"
proof (rule kernel_retask [OF ok _ set_tcb_simps(1) set_tcb_ctl])
  show "core_ok (set_tcb t f K)" using kernel_okD(1) [OF ok] f p r by (intro core_set_tcb) (auto simp: keeps_place_def)
qed (use f in \<open>auto simp: keeps_place_def kernel_simps\<close>)

text \<open>Also when the code changes the control block first.\<close>

lemma unready_set_first:
  assumes c: "core_ok K" and r: "st K t = Some (Ready p)" and f: "keeps_place f"
  shows "\<exists>n. remove_state t (set_tcb t f K) = Some (n, set_tcb t f (detach t K)) \<and> (n = 0 \<longleftrightarrow> items (ready (detach t K) (prio K t)) = []) \<and>
    (if n = 0 then portRESET_READY_PRIORITY (prio K t) (set_tcb t f (detach t K)) else set_tcb t f (detach t K)) =
      set_tcb t f (unready t K)"
proof -
  have d: "detach t (set_tcb t f K) = set_tcb t f (detach t K)" by (rule detach_set_tcb) (use f in \<open>auto simp: keeps_place_def\<close>)
  have p: "p = prio K t" by (rule tasks_okD(5) [OF core_okD(2) [OF c] r])
  obtain n where n: "remove_state t K = Some (n, detach t K)" "n = 0 \<longleftrightarrow> items (ready (detach t K) (prio K t)) = []"
    using remove_state_ok [OF c r] by (auto simp: p)
  have "remove_state t (set_tcb t f K) = Some (n, set_tcb t f (detach t K))"
    using remove_state_eq [OF r] remove_state_eq [of "set_tcb t f K" t "Ready p"] n(1) r f
    by (simp add: d kernel_simps keeps_place_def del: state_items.simps)
  moreover have "(if n = 0 then portRESET_READY_PRIORITY (prio K t) (set_tcb t f (detach t K)) else set_tcb t f (detach t K)) =
      set_tcb t f (unready t K)"
    using n(2) by (simp add: portRESET_simps(3) unready_def)
  ultimately show ?thesis using n(2) by blast
qed

lemma vTaskPrioritySet_ok:
  assumes ok: "kernel_ok K"
  shows "returns (vTaskPrioritySet h new K) kernel_ok"
proof -
  define p where "p = (if configMAX_PRIORITIES \<le> new then configMAX_PRIORITIES - 1 else new)"
  have p8: "p < 8" by (auto simp: p_def not_le)
  let ?t = "prvGetTCBFromHandle h K"
  let ?f = "\<lambda>c. event_priority p ((if uxBasePriority c = uxPriority c then c\<lparr>uxPriority := p\<rparr> else c)\<lparr>uxBasePriority := p\<rparr>)"
  note c = kernel_okD(1) [OF ok] and t8 = tasks_okD(1,2) [OF core_okD(2) [OF kernel_okD(1) [OF ok]], of ?t]
  have f: "keeps_place ?f" by (simp add: keeps_place_def event_priority_def)
  have fp: "uxPriority (?f (tcbs K ?t)) < 8" "uxBasePriority (?f (tcbs K ?t)) < 8" using p8 t8 by auto
  let ?K = "set_tcb ?t ?f K"
  have "returns (if st ?K ?t = Some (Ready (prio K ?t))
             then do {
               (n, K') \<leftarrow> remove_state ?t ?K;
               let K' = (if n = 0 then portRESET_READY_PRIORITY (prio K ?t) K' else K');
               Some (prvAddTaskToReadyList ?t K') }
             else Some ?K) kernel_ok" (is "returns ?m _")
  proof (cases "st K ?t = Some (Ready (prio K ?t))")
    case True
    obtain n where "remove_state ?t ?K = Some (n, set_tcb ?t ?f (detach ?t K))"
      "(if n = 0 then portRESET_READY_PRIORITY (prio K ?t) (set_tcb ?t ?f (detach ?t K)) else set_tcb ?t ?f (detach ?t K)) =
        set_tcb ?t ?f (unready ?t K)"
      using unready_set_first [OF c True f] by blast
    then have "?m = Some (reprioritise ?t ?f K)" using True unfolding reprioritise_def Let_def
      by (simp add: kernel_simps del: split_paired_All)
    then show ?thesis using kernel_reprioritise [OF ok True f fp] by simp
  next
    case False
    then have "st K ?t \<noteq> Some (Ready q)" for q using tasks_okD(5) [OF core_okD(2) [OF c]] by metis
    then show ?thesis using kernel_adjust [OF ok f _ fp] False by (simp add: kernel_simps)
  qed
  then obtain K' where K': "?m = Some K'" "kernel_ok K'" by (rule returnsE)
  have "vTaskPrioritySet h new K = (if uxBasePriority (tcbs K ?t) \<noteq> p then
      ?m \<bind> (\<lambda>K'. Some (if (if p > uxBasePriority (tcbs K ?t) then ?t \<noteq> pxCurrentTCB K \<and> prio K (pxCurrentTCB K) \<le> p
        else ?t = pxCurrentTCB K) then taskYIELD K' else K')) else Some K)"
    unfolding vTaskPrioritySet_def p_def [symmetric] Let_def set_event_priority_eq set_tcb_twice ..
  then show ?thesis unfolding K'(1) using K'(2) ok by simp
qed

lemma keeps_place_simps [simp]:
  "keeps_place (event_priority p)" "keeps_place (\<lambda>c. c\<lparr>uxPriority := q\<rparr>)"
  by (simp_all add: keeps_place_def)

text \<open>Inheriting a waiting task's priority.\<close>

lemma xTaskPriorityInherit_eq:
  assumes ok: "kernel_ok K" and r: "st K h = Some (Ready p)" and h: "h \<noteq> NULL" "prio K h < prio K (pxCurrentTCB K)"
  shows "xTaskPriorityInherit h K = Some (True, reprioritise h (\<lambda>c. c\<lparr>uxPriority := prio K (pxCurrentTCB K)\<rparr>)
    (set_tcb h (event_priority (prio K (pxCurrentTCB K))) K))"
proof -
  let ?c = "prio K (pxCurrentTCB K)"
  let ?E = "set_tcb h (event_priority ?c) K"
  have p: "p = prio K h" by (rule tasks_okD(5) [OF core_okD(2) [OF kernel_okD(1) [OF ok]] r])
  have okE: "kernel_ok ?E" using tasks_okD(1,2) [OF core_okD(2) [OF kernel_okD(1) [OF ok]]]
    by (intro kernel_set_tcb [OF ok]) (auto dest: waiting_no_event [OF ok])
  have rE: "st ?E h = Some (Ready (prio ?E h))" using r p by (simp add: kernel_simps)
  obtain n where n: "remove_state h ?E = Some (n, detach h ?E)"
    "(if n = 0 then taskRESET_READY_PRIORITY (prio ?E h) (detach h ?E) else detach h ?E) = unready h ?E"
    using remove_ready [OF kernel_okD(1) [OF okE] rE] by blast
  have d: "prio (detach h ?E) h = prio ?E h" "prio ?E h = prio K h" by (simp_all add: kernel_simps)
  have "xTaskPriorityInherit h K = do { K' \<leftarrow> (if st ?E h = Some (Ready (prio ?E h))
      then do {
        (n, K') \<leftarrow> remove_state h ?E;
        let K' = (if n = 0 then taskRESET_READY_PRIORITY (prio K' h) K' else K');
        let K' = set_tcb h (\<lambda>b. b\<lparr>uxPriority := ?c\<rparr>) K';
        Some (prvAddTaskToReadyList h K') }
      else Some (set_tcb h (\<lambda>b. b\<lparr>uxPriority := ?c\<rparr>) ?E)); Some (True, K') }"
    using h by (simp only: xTaskPriorityInherit_def Let_def set_event_priority_eq if_True if_False)
  also have "\<dots> = Some (True, reprioritise h (\<lambda>c. c\<lparr>uxPriority := ?c\<rparr>) ?E)"
    unfolding if_P [OF rE] n(1) Let_def bind.bind_lunit prod.case d(1) n(2) reprioritise_def ..
  finally show ?thesis .
qed

lemma xTaskPriorityInherit_ok:
  assumes ok: "kernel_ok K"
  shows "keeps (xTaskPriorityInherit h K)"
proof (cases "h \<noteq> NULL \<and> prio K h < prio K (pxCurrentTCB K)")
  case True
  let ?c = "prio K (pxCurrentTCB K)"
  let ?E = "set_tcb h (event_priority ?c) K"
  note t8 = tasks_okD(1,2) [OF core_okD(2) [OF kernel_okD(1) [OF ok]]]
  have okE: "kernel_ok ?E" using t8 by (intro kernel_set_tcb [OF ok]) (auto dest: waiting_no_event [OF ok])
  show ?thesis
  proof (cases "\<exists>p. st K h = Some (Ready p)")
    case r: True
    then obtain p where r: "st K h = Some (Ready p)" by blast
    have "kernel_ok (reprioritise h (\<lambda>c. c\<lparr>uxPriority := ?c\<rparr>) ?E)"
      by (rule kernel_reprioritise [OF okE, of _ p]) (use t8 r in \<open>simp_all add: kernel_simps\<close>)
    then show ?thesis using xTaskPriorityInherit_eq [OF ok r] True by simp
  next
    case False
    have "kernel_ok (set_tcb h (\<lambda>c. c\<lparr>uxPriority := ?c\<rparr>) ?E)"
      by (rule kernel_adjust [OF okE]) (use t8 False in \<open>simp_all add: kernel_simps\<close>)
    then show ?thesis using True False
      by (simp add: xTaskPriorityInherit_def Let_def set_event_priority_eq kernel_simps)
  qed
qed (use ok in \<open>auto simp: xTaskPriorityInherit_def Let_def\<close>)

text \<open>Giving it back.\<close>

definition disinherited :: "tcb \<Rightarrow> tcb" where
  "disinherited c = c\<lparr>uxPriority := uxBasePriority c, xEventValue := configMAX_PRIORITIES - uxBasePriority c\<rparr>"

lemma keeps_place_disinherited [simp]: "keeps_place disinherited"
  by (simp add: keeps_place_def disinherited_def)

lemma xTaskPriorityDisinherit_eq:
  assumes ok: "kernel_ok K" and r: "st K h = Some (Ready p)" and h: "h \<noteq> NULL"
  shows "xTaskPriorityDisinherit h K = (let K' = set_tcb h (\<lambda>c. c\<lparr>uxMutexesHeld := uxMutexesHeld c - 1\<rparr>) K in
    Some (if prio K h \<noteq> uxBasePriority (tcbs K h) \<and> uxMutexesHeld (tcbs K h) = 1 then (True, reprioritise h disinherited K')
      else (False, K')))"
proof -
  let ?E = "set_tcb h (\<lambda>c. c\<lparr>uxMutexesHeld := uxMutexesHeld c - 1\<rparr>) K"
  have okE: "kernel_ok ?E" by (rule kernel_set_tcb [OF ok]) (auto dest: waiting_no_event [OF ok])
  have rE: "st ?E h = Some (Ready p)" using r by (simp add: kernel_simps)
  obtain n where n: "remove_state h ?E = Some (n, detach h ?E)"
    "(if n = 0 then taskRESET_READY_PRIORITY (prio ?E h) (detach h ?E) else detach h ?E) = unready h ?E"
    using remove_ready [OF kernel_okD(1) [OF okE] rE] by blast
  have d: "prio (detach h ?E) h = prio ?E h" "prio ?E h = prio K h" "uxBasePriority (tcbs ?E h) = uxBasePriority (tcbs K h)"
    "uxMutexesHeld (tcbs ?E h) = 0 \<longleftrightarrow> uxMutexesHeld (tcbs K h) = 1" by (simp_all add: kernel_simps)
  have s: "set_tcb h (\<lambda>c. c\<lparr>xEventValue := configMAX_PRIORITIES - uxPriority c\<rparr>) (set_tcb h (\<lambda>c. c\<lparr>uxPriority := uxBasePriority c\<rparr>) U) =
      set_tcb h disinherited U" for U by (simp add: set_tcb_twice disinherited_def [abs_def])
  show ?thesis
    unfolding xTaskPriorityDisinherit_def if_not_P [OF h] Let_def n(1) bind.bind_lunit prod.case
    unfolding d(1) n(2) s unfolding d reprioritise_def by (simp only: if_distrib [of Some])
qed

lemma xTaskPriorityDisinherit_ok:
  assumes ok: "kernel_ok K" and r: "h \<noteq> NULL \<Longrightarrow> \<exists>p. st K h = Some (Ready p)"
  shows "keeps (xTaskPriorityDisinherit h K)"
proof (cases "h = NULL")
  case False
  then obtain p where r: "st K h = Some (Ready p)" using r by blast
  let ?E = "set_tcb h (\<lambda>c. c\<lparr>uxMutexesHeld := uxMutexesHeld c - 1\<rparr>) K"
  have okE: "kernel_ok ?E" by (rule kernel_set_tcb [OF ok]) (auto dest: waiting_no_event [OF ok])
  have "kernel_ok (reprioritise h disinherited ?E)"
    by (rule kernel_reprioritise [OF okE, of _ p])
       (use tasks_okD(1,2) [OF core_okD(2) [OF kernel_okD(1) [OF ok]]] r in \<open>simp_all add: kernel_simps disinherited_def\<close>)
  then show ?thesis using okE by (simp add: xTaskPriorityDisinherit_eq [OF ok r False] Let_def)
qed (simp add: xTaskPriorityDisinherit_def ok)

text \<open>After a timeout. The bitmap stays exact when another task is ready at the holder's old priority.\<close>

lemma disinherit_timeout_eq:
  assumes ok: "kernel_ok K" and r: "st K h = Some (Ready p)"
    and h: "h \<noteq> NULL" "prio K h \<noteq> max (uxBasePriority (tcbs K h)) w" "uxMutexesHeld (tcbs K h) = 1"
  defines "q \<equiv> max (uxBasePriority (tcbs K h)) w"
  defines "U \<equiv> set_tcb h (\<lambda>c. event_priority q (c\<lparr>uxPriority := q\<rparr>)) (detach h K)"
  shows "vTaskPriorityDisinheritAfterTimeout h w K = Some (prvAddTaskToReadyList h
    (if items (ready (detach h K) (prio K h)) = [] then taskRESET_READY_PRIORITY q U else U))"
proof -
  let ?f = "\<lambda>c. event_priority q (c\<lparr>uxPriority := q\<rparr>)"
  let ?K = "set_tcb h ?f K"
  have f: "keeps_place ?f" by (simp add: keeps_place_def event_priority_def)
  have p: "p = prio K h" by (rule tasks_okD(5) [OF core_okD(2) [OF kernel_okD(1) [OF ok]] r])
  obtain n where n: "remove_state h ?K = Some (n, U)" "n = 0 \<longleftrightarrow> items (ready (detach h K) (prio K h)) = []"
    using unready_set_first [OF kernel_okD(1) [OF ok] r f] unfolding U_def by blast
  have s: "st ?K h = Some (Ready (prio K h))" and q: "prio U h = q" using r p by (simp_all add: kernel_simps U_def)
  have "vTaskPriorityDisinheritAfterTimeout h w K = (if st ?K h = Some (Ready (prio K h))
           then do {
             (n, K) \<leftarrow> remove_state h ?K;
             let K = (if n = 0 then taskRESET_READY_PRIORITY (prio K h) K else K);
             Some (prvAddTaskToReadyList h K) }
           else Some ?K)"
    using h by (simp only: vTaskPriorityDisinheritAfterTimeout_def Let_def set_event_priority_eq set_tcb_twice q_def if_True simp_thms)
  then show ?thesis unfolding if_P [OF s] n(1) bind.bind_lunit prod.case Let_def q n(2) .
qed

lemma vTaskPriorityDisinheritAfterTimeout_ok:
  assumes ok: "kernel_ok K" and w: "w < configMAX_PRIORITIES"
    and o: "\<And>p. st K h = Some (Ready p) \<Longrightarrow> \<exists>u. u \<noteq> h \<and> st K u = Some (Ready p)"
  shows "returns (vTaskPriorityDisinheritAfterTimeout h w K) kernel_ok"
proof -
  let ?q = "max (uxBasePriority (tcbs K h)) w"
  let ?f = "\<lambda>c. event_priority ?q (c\<lparr>uxPriority := ?q\<rparr>)"
  have f: "keeps_place ?f" by (simp add: keeps_place_def event_priority_def)
  note c = kernel_okD(1) [OF ok] and t8 = tasks_okD(1,2) [OF core_okD(2) [OF kernel_okD(1) [OF ok]], of h]
  have q8: "uxPriority (?f (tcbs K h)) < 8" "uxBasePriority (?f (tcbs K h)) < 8" using w t8 by (auto simp: max_def)
  show ?thesis
  proof (cases "h \<noteq> NULL \<and> prio K h \<noteq> ?q \<and> uxMutexesHeld (tcbs K h) = 1")
    case False
    then show ?thesis using ok unfolding vTaskPriorityDisinheritAfterTimeout_def Let_def by auto
  next
    case go: True
    show ?thesis
    proof (cases "\<exists>p. st K h = Some (Ready p)")
      case True
      then obtain p where r: "st K h = Some (Ready p)" by blast
      then obtain u where u: "u \<noteq> h" "st K u = Some (Ready p)" using o by blast
      have "p = prio K h" by (rule tasks_okD(5) [OF core_okD(2) [OF c] r])
      moreover have "st (detach h K) u = Some (Ready p)" using u by (simp add: kernel_simps)
      ultimately have ne: "items (ready (detach h K) (prio K h)) \<noteq> []"
        using ready_items_empty [OF lists_ok_detach [OF core_okD(1) [OF c], of h], of p] by auto
      then have "unready h K = detach h K" by (simp add: unready_def)
      then show ?thesis using kernel_reprioritise [OF ok r f q8] disinherit_timeout_eq [OF ok r, of w] go ne
        by (simp add: reprioritise_def)
    next
      case False
      then have "kernel_ok (set_tcb h ?f K)" using kernel_adjust [OF ok f _ q8] by blast
      then show ?thesis using go False
        by (simp add: vTaskPriorityDisinheritAfterTimeout_def Let_def set_event_priority_eq set_tcb_twice kernel_simps)
    qed
  qed
qed

section \<open>Starting up\<close>

definition start_scheduler :: "kernel \<Rightarrow> kernel" where
  "start_scheduler K = K\<lparr>xNextTaskUnblockTime := portMAX_DELAY, xSchedulerRunning := True, xTickCount := 0\<rparr>"

lemma start_scheduler_ok:
  assumes "kernel_ok K" "\<And>t b. st K t \<noteq> Some (DelayedList b)"
  shows "kernel_ok (start_scheduler K)"
proof -
  have "state_items (start_scheduler K) s = state_items K s" "event_items (start_scheduler K) e = event_items K e" for s e
    by (cases s; simp add: start_scheduler_def) (cases e; simp add: start_scheduler_def)
  then show ?thesis using assms
    by (simp add: kernel_ok_def core_ok_def lists_ok_def tasks_ok_def bitmap_ok_def sorted_ok_def events_ok_def pending_ok_def time_ok_def)
       (simp add: start_scheduler_def)
qed

text \<open>The state the C start-up code leaves: no task yet, and the blocks tasks will get.\<close>

definition boot_ok :: "kernel \<Rightarrow> bool" where
  "boot_ok K \<longleftrightarrow> pxCurrentTCB K = NULL \<and> uxCurrentNumberOfTasks K = 0 \<and> uxTopReadyPriority K = 0 \<and>
     (\<forall>t. st K t = None \<and> ev K t = None \<and> prio K t < configMAX_PRIORITIES \<and> uxBasePriority (tcbs K t) < configMAX_PRIORITIES) \<and>
     (\<forall>p. configMAX_PRIORITIES \<le> p \<longrightarrow> items (ready K p) = []) \<and> (\<forall>e. events K e = [])"

lemma boot_kernel:
  assumes "boot_ok K"
  shows "kernel_ok (prvInitialiseTaskLists (K\<lparr>uxCurrentNumberOfTasks := n, pxCurrentTCB := t\<rparr>))"
proof -
  let ?K = "prvInitialiseTaskLists (K\<lparr>uxCurrentNumberOfTasks := n, pxCurrentTCB := t\<rparr>)"
  have i: "state_items ?K s = []" "event_items ?K e = []" for s e
    using assms by (cases s; auto simp: prvInitialiseTaskLists_def boot_ok_def items_def)
      (cases e; use assms in \<open>simp add: prvInitialiseTaskLists_def boot_ok_def\<close>)
  have t: "tcbs ?K = tcbs K" "uxTopReadyPriority ?K = 0" "delayed ?K = (\<lambda>_. [])"
    using assms by (simp_all add: prvInitialiseTaskLists_def boot_ok_def)
  show ?thesis using assms
    by (auto simp: kernel_ok_def core_ok_def lists_ok_def i tasks_ok_def bitmap_ok_def sorted_ok_def events_ok_def
        pending_ok_def time_ok_def t boot_ok_def)
qed

lemma kernel_add_ready:
  assumes ok: "kernel_ok K" and t: "st K t = None" "ev K t = None" "t \<noteq> NULL" "t < 2 ^ 32"
  shows "kernel_ok (prvAddTaskToReadyList t K)"
proof -
  have c: "core_ok (prvAddTaskToReadyList t K)" by (rule core_add_ready [OF kernel_okD(1) [OF ok] t(1,3,4)])
  show ?thesis using ok c t(2) by (auto simp: kernel_ok_def events_ok_def pending_ok_def time_ok_def kernel_simps)
qed

lemma prvAddNewTaskToReadyList_ok:
  assumes ok: "kernel_ok K" and t: "st K t = None" "ev K t = None" "t \<noteq> NULL" "t < 2 ^ 32"
    and n: "uxCurrentNumberOfTasks K \<noteq> 0"
  shows "kernel_ok (prvAddNewTaskToReadyList t K)"
proof -
  have "uxCurrentNumberOfTasks K + 1 \<noteq> 1" using n by simp
  moreover have "kernel_ok (prvAddTaskToReadyList t (K\<lparr>uxCurrentNumberOfTasks := m, pxCurrentTCB := u\<rparr>))"
    "kernel_ok (prvAddTaskToReadyList t (K\<lparr>uxCurrentNumberOfTasks := m\<rparr>))" for m u
    using ok t by (auto intro!: kernel_add_ready)
  ultimately show ?thesis by (simp add: prvAddNewTaskToReadyList_def Let_def)
qed

lemma first_task_ok:
  assumes b: "boot_ok K" and t: "t \<noteq> NULL" "t < 2 ^ 32"
  shows "kernel_ok (prvAddNewTaskToReadyList t K)"
proof -
  have "uxCurrentNumberOfTasks K + 1 = 1" "pxCurrentTCB K = NULL" using b by (simp_all add: boot_ok_def)
  then have e: "prvAddNewTaskToReadyList t K =
      (let K' = prvAddTaskToReadyList t (prvInitialiseTaskLists (K\<lparr>uxCurrentNumberOfTasks := 1, pxCurrentTCB := t\<rparr>))
       in if xSchedulerRunning K' \<and> prio K' (pxCurrentTCB K') < prio K' t then taskYIELD K' else K')"
    by (simp add: prvAddNewTaskToReadyList_def Let_def)
  have "kernel_ok (prvAddTaskToReadyList t (prvInitialiseTaskLists (K\<lparr>uxCurrentNumberOfTasks := 1, pxCurrentTCB := t\<rparr>)))"
    by (rule kernel_add_ready [OF boot_kernel [OF b]]) (use b t in \<open>simp_all add: boot_ok_def prvInitialiseTaskLists_def\<close>)
  then show ?thesis unfolding e by (simp add: Let_def)
qed

end
