(* ===== verification/RTOS_Scheduler.thy ===== *)
theory RTOS_Scheduler
  imports RTOS_Invariant
begin

text \<open>
  What the scheduler promises: no sequence of its calls breaks the invariant or runs into undefined
  behaviour, a switch picks a task of the highest ready priority, tasks of equal priority take
  turns, and time passes exactly for every delayed task, across wraps of the tick counter and
  across suspensions of the scheduler.
\<close>

unbundle bit_operations_syntax

section \<open>Runs of the scheduler\<close>

text \<open>
  \<open>calls K r\<close>: a call that the interface allows in \<open>K\<close> yields \<open>r\<close>. The side conditions are those
  the FreeRTOS documentation states for the callers, or configASSERTs of the code, which are
  switched off in this build: delays and waits for a notification come from the running task while
  the scheduler is active, a task that places itself on an event list may have suspended it, and a
  mutex is given by its holder. A task that waits for a notification must not be resumed
  from an interrupt, and the holder of a mutex whose waiter timed out must not be the only ready
  task of its priority: without these two conditions the invariant breaks.
\<close>

inductive calls :: "kernel \<Rightarrow> kernel option \<Rightarrow> bool" where
  switch: "st K t = Some (Ready p) \<Longrightarrow> calls K (vTaskSwitchContext K)"
| tick: "calls K (map_option snd (xTaskIncrementTick K))"
| start: "(\<And>t b. st K t \<noteq> Some (DelayedList b)) \<Longrightarrow> calls K (Some (start_scheduler K))"
| create: "uxCurrentNumberOfTasks K \<noteq> 0 \<Longrightarrow> st K t = None \<Longrightarrow> ev K t = None \<Longrightarrow> t \<noteq> NULL \<Longrightarrow> t < 2 ^ 32 \<Longrightarrow>
    calls K (Some (prvAddNewTaskToReadyList t K))"
| suspend_all: "uxSchedulerSuspended K + 1 \<noteq> 0 \<Longrightarrow> calls K (Some (vTaskSuspendAll K))"
| resume_all: "uxSchedulerSuspended K \<noteq> 0 \<Longrightarrow> 0 < uxCurrentNumberOfTasks K \<Longrightarrow> calls K (map_option snd (xTaskResumeAll K))"
| delay: "running K \<Longrightarrow> calls K (vTaskDelay n K)"
| delay_until: "running K \<Longrightarrow> calls K (map_option snd (vTaskDelayUntil p n K))"
| place: "able K \<Longrightarrow> 0 < n \<Longrightarrow> ucNotifyState (tcbs K (pxCurrentTCB K)) \<noteq> Waiting \<Longrightarrow> calls K (vTaskPlaceOnEventList e n K)"
| place_unordered: "able K \<Longrightarrow> 0 < n \<Longrightarrow> ucNotifyState (tcbs K (pxCurrentTCB K)) \<noteq> Waiting \<Longrightarrow>
    calls K (vTaskPlaceOnUnorderedEventList e v n K)"
| place_restricted: "able K \<Longrightarrow> i \<or> 0 < n \<Longrightarrow> ucNotifyState (tcbs K (pxCurrentTCB K)) \<noteq> Waiting \<Longrightarrow>
    calls K (vTaskPlaceOnEventListRestricted e n i K)"
| event: "events K e \<noteq> [] \<Longrightarrow> calls K (map_option snd (xTaskRemoveFromEventList e K))"
| event_unordered: "ev K t = Some e \<Longrightarrow> calls K (vTaskRemoveFromUnorderedEventList t v K)"
| event_value: "calls K (Some (snd (uxTaskResetEventItemValue K)))"
| missed_yield: "calls K (Some (vTaskMissedYield K))"
| yield: "calls K (Some (taskYIELD K))"
| priority_set: "calls K (vTaskPrioritySet h p K)"
| inherit: "calls K (map_option snd (xTaskPriorityInherit h K))"
| disinherit: "h = NULL \<or> st K h = Some (Ready p) \<Longrightarrow> calls K (map_option snd (xTaskPriorityDisinherit h K))"
| disinherit_timeout: "w < configMAX_PRIORITIES \<Longrightarrow> (\<And>p. st K h = Some (Ready p) \<Longrightarrow> \<exists>u. u \<noteq> h \<and> st K u = Some (Ready p)) \<Longrightarrow>
    calls K (vTaskPriorityDisinheritAfterTimeout h w K)"
| mutex_taken: "calls K (Some (snd (pvTaskIncrementMutexHeldCount K)))"
| suspend: "xSchedulerRunning K \<Longrightarrow> st K (prvGetTCBFromHandle h K) \<noteq> None \<Longrightarrow> calls K (vTaskSuspend h K)"
| resume: "calls K (vTaskResume t K)"
| resume_isr: "ucNotifyState (tcbs K t) \<noteq> Waiting \<Longrightarrow> calls K (map_option snd (xTaskResumeFromISR t K))"
| notify: "st K t \<noteq> None \<Longrightarrow> calls K (map_option (\<lambda>(_, _, K). K) (xTaskGenericNotify t v a K))"
| notify_isr: "st K t \<noteq> None \<Longrightarrow> calls K (map_option (\<lambda>(_, _, _, K). K) (xTaskGenericNotifyFromISR t v a K))"
| give_isr: "st K t \<noteq> None \<Longrightarrow> calls K (map_option snd (vTaskNotifyGiveFromISR t K))"
| take: "running K \<Longrightarrow> calls K (ulTaskNotifyTake_wait n K)"
| take_return: "calls K (Some (snd (ulTaskNotifyTake_return c K)))"
| wait: "running K \<Longrightarrow> calls K (xTaskNotifyWait_wait b n K)"
| wait_return: "calls K (Some (snd (snd (xTaskNotifyWait_return b K))))"
| state_clear: "calls K (Some (snd (xTaskNotifyStateClear h K)))"

inductive reachable :: "kernel \<Rightarrow> bool" where
  boot: "boot_ok K \<Longrightarrow> t \<noteq> NULL \<Longrightarrow> t < 2 ^ 32 \<Longrightarrow> reachable (prvAddNewTaskToReadyList t K)"
| call: "reachable K \<Longrightarrow> calls K (Some K') \<Longrightarrow> reachable K'"

lemma slept_ok: "returns m (put_to_sleep n i J) \<Longrightarrow> returns m kernel_ok"
  by (auto simp: returns_def put_to_sleep_def)

lemma calls_ok:
  assumes "calls K r" "kernel_ok K"
  shows "returns r kernel_ok"
  using assms
proof cases
  case (switch t p) then show ?thesis using vTaskSwitchContext_ok [OF assms(2)] by simp
next
  case tick then show ?thesis using xTaskIncrementTick_ok [OF assms(2)] by (simp add: case_prod_unfold)
next
  case start then show ?thesis using start_scheduler_ok [OF assms(2)] by simp
next
  case create then show ?thesis using prvAddNewTaskToReadyList_ok [OF assms(2)] by simp
next
  case suspend_all then show ?thesis using vTaskSuspendAll_ok [OF assms(2)] by simp
next
  case resume_all then show ?thesis using xTaskResumeAll_ok [OF assms(2)] by (simp add: case_prod_unfold)
next
  case delay then show ?thesis using vTaskDelay_ok [OF assms(2)] by simp
next
  case delay_until then show ?thesis using vTaskDelayUntil_ok [OF assms(2)] by (simp add: case_prod_unfold)
next
  case place then show ?thesis using slept_ok [OF vTaskPlaceOnEventList_ok [OF assms(2)]] by blast
next
  case place_unordered then show ?thesis using vTaskPlaceOnUnorderedEventList_ok [OF assms(2)] by simp
next
  case place_restricted
  then show ?thesis using slept_ok [OF vTaskPlaceOnEventListRestricted_ok [OF assms(2)]] by blast
next
  case event then show ?thesis using xTaskRemoveFromEventList_ok [OF assms(2)] by (simp add: case_prod_unfold)
next
  case event_unordered then show ?thesis using vTaskRemoveFromUnorderedEventList_ok [OF assms(2)] by simp
next
  case event_value then show ?thesis using uxTaskResetEventItemValue_ok [OF assms(2)] by simp
next
  case missed_yield then show ?thesis using assms(2) by (simp add: vTaskMissedYield_def)
next
  case yield then show ?thesis using assms(2) by simp
next
  case priority_set then show ?thesis using vTaskPrioritySet_ok [OF assms(2)] by simp
next
  case inherit then show ?thesis using xTaskPriorityInherit_ok [OF assms(2)] by (simp add: case_prod_unfold)
next
  case (disinherit h p)
  then show ?thesis using xTaskPriorityDisinherit_ok [OF assms(2), of h] by (auto simp: case_prod_unfold)
next
  case disinherit_timeout then show ?thesis using vTaskPriorityDisinheritAfterTimeout_ok [OF assms(2)] by simp
next
  case mutex_taken then show ?thesis using pvTaskIncrementMutexHeldCount_ok [OF assms(2)] by simp
next
  case suspend then show ?thesis using vTaskSuspend_ok [OF assms(2)] by simp
next
  case resume then show ?thesis using vTaskResume_ok [OF assms(2)] by simp
next
  case resume_isr then show ?thesis using xTaskResumeFromISR_ok [OF assms(2)] by (simp add: case_prod_unfold)
next
  case notify then show ?thesis using xTaskGenericNotify_ok [OF assms(2)] by (simp add: case_prod_unfold)
next
  case notify_isr then show ?thesis using xTaskGenericNotifyFromISR_ok [OF assms(2)] by (simp add: case_prod_unfold)
next
  case give_isr then show ?thesis using vTaskNotifyGiveFromISR_ok [OF assms(2)] by (simp add: case_prod_unfold)
next
  case take then show ?thesis using ulTaskNotifyTake_ok [OF assms(2)] by simp
next
  case take_return then show ?thesis using notify_returns_ok [OF assms(2)] by simp
next
  case wait then show ?thesis using xTaskNotifyWait_ok [OF assms(2)] by simp
next
  case wait_return then show ?thesis using notify_returns_ok [OF assms(2)] by simp
next
  case state_clear then show ?thesis using notify_returns_ok [OF assms(2)] by simp
qed

lemma reachable_ok: "reachable K \<Longrightarrow> kernel_ok K"
proof (induction rule: reachable.induct)
  case boot then show ?case by (rule first_task_ok)
next
  case call then show ?case using calls_ok by force
qed

text \<open>Examples for the witnesses: three tasks, two of them of the same priority.\<close>

definition demo_tcb :: "u32 \<Rightarrow> tcb" where
  "demo_tcb p = \<lparr>uxPriority = p, uxBasePriority = p, uxMutexesHeld = 0, xStateValue = 0, xStateContainer = None,
     xEventValue = 8 - p, xEventContainer = None, ulNotifiedValue = 0, ucNotifyState = NotWaiting\<rparr>"

definition demo_boot :: kernel where
  "demo_boot = \<lparr>tcbs = \<lambda>t. demo_tcb (if t = 1 then 0 else if t = 4 then 5 else 3), pxCurrentTCB = NULL,
     ready = \<lambda>_. \<lparr>passed = [], ahead = []\<rparr>, delayed = \<lambda>_. [], pxDelayedTaskList = False, xSuspendedTaskList = [],
     xTasksWaitingTermination = [], xPendingReadyList = [], events = \<lambda>_. [], uxTopReadyPriority = 0, xTickCount = 0,
     xNumOfOverflows = 0, xNextTaskUnblockTime = 0, uxSchedulerSuspended = 0, uxPendedTicks = 0, xYieldPending = False,
     yield_requested = False, xSchedulerRunning = False, uxCurrentNumberOfTasks = 0\<rparr>"

definition demo :: kernel where
  "demo = start_scheduler (prvAddNewTaskToReadyList 3 (prvAddNewTaskToReadyList 2 (prvAddNewTaskToReadyList 1 demo_boot)))"

lemma demo_boot_ok: "boot_ok demo_boot"
  by (simp add: boot_ok_def demo_boot_def demo_tcb_def items_def)

lemmas new_task_simps = prvAddNewTaskToReadyList_def prvAddTaskToReadyList_def prvInitialiseTaskLists_def set_tcb_def
  portRECORD_READY_PRIORITY_def taskYIELD_def Let_def rl_insert_end_def

section \<open>What holds\<close>

lemma switch_selects:
  assumes ok: "kernel_ok K" and u: "uxSchedulerSuspended K = 0" and r: "st K t = Some (Ready p)"
  shows "\<exists>K' q. vTaskSwitchContext K = Some K' \<and> kernel_ok K' \<and> st K' (pxCurrentTCB K') = Some (Ready q) \<and>
    (\<forall>v q'. st K v = Some (Ready q') \<longrightarrow> q' \<le> q) \<and> rl_next (ready K q) = Some (pxCurrentTCB K', ready K' q) \<and>
    (\<forall>s. state_items K' s = state_items K s) \<and> tcbs K' = tcbs K \<and> \<not> xYieldPending K' \<and> uxSchedulerSuspended K' = 0"
proof -
  let ?K = "K\<lparr>xYieldPending := False\<rparr>"
  have ok': "kernel_ok ?K" using ok by simp
  obtain v q r' where s: "taskSELECT_HIGHEST_PRIORITY_TASK ?K = Some (?K\<lparr>ready := (ready K)(q := r'), pxCurrentTCB := v\<rparr>)"
    "rl_next (ready K q) = Some (v, r')" "items r' = items (ready K q)" "st K v = Some (Ready q)"
    "\<forall>v q'. st K v = Some (Ready q') \<longrightarrow> q' \<le> q"
    using select_eq [OF kernel_okD(1) [OF ok'], of t p] r by auto
  have i: "state_items (?K\<lparr>ready := (ready K)(q := r'), pxCurrentTCB := v\<rparr>) s = state_items K s" for s
    using state_items_cursor(1) [of r' ?K q v s] s(3) by (simp add: items_scalar del: state_items.simps)
  show ?thesis using kernel_cursor [OF ok', of r' q v] s u i
    by (intro exI [of _ "?K\<lparr>ready := (ready K)(q := r'), pxCurrentTCB := v\<rparr>"] exI [of _ q])
       (simp add: vTaskSwitchContext_def del: state_items.simps)
qed

text \<open>
  C7: A context switch while the scheduler is active selects a ready task, and no task of a higher
  priority is ready. It is the next one of its list in turn, no list changes its tasks, and no
  control block changes.
\<close>

theorem switch_selects_highest:
  assumes "reachable K" "uxSchedulerSuspended K = 0" "st K t = Some (Ready p)"
  shows "\<exists>K' q. vTaskSwitchContext K = Some K' \<and> st K' (pxCurrentTCB K') = Some (Ready q) \<and>
    (\<forall>v q'. st K v = Some (Ready q') \<longrightarrow> q' \<le> q) \<and> rl_next (ready K q) = Some (pxCurrentTCB K', ready K' q) \<and>
    (\<forall>s. state_items K' s = state_items K s) \<and> tcbs K' = tcbs K \<and> \<not> xYieldPending K'"
  using switch_selects [OF reachable_ok [OF assms(1)] assms(2,3)] by blast

text \<open>
  C5: The scheduler is safe: whatever calls the tasks and interrupts make, in whatever order, as
  long as each is allowed where it is made, the invariant holds (every task is in exactly the list
  its control block names, the ready bitmap is exact, the delayed lists are sorted and on the right
  side of the tick counter), and no allowed call runs into undefined behaviour.
\<close>

theorem scheduler_safe:
  assumes "reachable K"
  shows "kernel_ok K \<and> (\<forall>r. calls K r \<longrightarrow> r \<noteq> None)"
  using reachable_ok [OF assms] calls_ok by (fastforce simp: returns_def)

text \<open>The tasks selected by a number of switches with nothing else in between.\<close>

fun switches :: "nat \<Rightarrow> kernel \<Rightarrow> (tid list \<times> kernel) option" where
  "switches 0 K = Some ([], K)"
| "switches (Suc n) K = do {
     K \<leftarrow> vTaskSwitchContext K;
     (ts, K') \<leftarrow> switches n K;
     Some (pxCurrentTCB K # ts, K') }"

lemma switches_rotate:
  assumes "kernel_ok K" "uxSchedulerSuspended K = 0" "st K t = Some (Ready q)" "\<forall>v q'. st K v = Some (Ready q') \<longrightarrow> q' \<le> q"
  shows "\<exists>K'. switches n K = Some (map (\<lambda>i. ring_order (ready K q) ! (i mod length (items (ready K q)))) [0..<n], K')"
  using assms
proof (induction n arbitrary: K)
  case (Suc n)
  obtain K1 q1 where s: "vTaskSwitchContext K = Some K1" "kernel_ok K1" "st K1 (pxCurrentTCB K1) = Some (Ready q1)"
    "\<forall>v q'. st K v = Some (Ready q') \<longrightarrow> q' \<le> q1" "rl_next (ready K q1) = Some (pxCurrentTCB K1, ready K1 q1)"
    "\<forall>s. state_items K1 s = state_items K s" "tcbs K1 = tcbs K" "uxSchedulerSuspended K1 = 0"
    using switch_selects [OF Suc.prems(1-3)] by blast
  have "q1 = q" using s(3,4,7) Suc.prems(3,4) by (metis order_antisym)
  note s = s [unfolded this]
  let ?xs = "ring_order (ready K q)"
  have len: "length (items (ready K q)) = length ?xs" "items (ready K1 q) = items (ready K q)"
    using s(6) [rule_format, of "Ready q"] by (simp_all add: ring_order_def items_def)
  have ne: "?xs \<noteq> []" using s(5) by (auto simp: rl_next_def ring_order_def split: list.splits)
  have rot: "pxCurrentTCB K1 = ?xs ! 0" "ring_order (ready K1 q) = rotate1 ?xs"
    using rl_next_rotates [OF s(5)] ne by (simp_all add: hd_conv_nth)
  obtain K' where K': "switches n K1 = Some (map (\<lambda>i. ring_order (ready K1 q) ! (i mod length (items (ready K1 q)))) [0..<n], K')"
    using Suc.IH [OF s(2,8), of ] s(7) Suc.prems(3,4) by auto
  have "map (\<lambda>i. rotate1 ?xs ! (i mod length ?xs)) [0..<n] = map (\<lambda>i. ?xs ! (i mod length ?xs)) [Suc 0..<Suc n]"
    using ne by (simp add: map_Suc_upt [symmetric] nth_rotate1 mod_Suc_eq del: upt_Suc)
  then have "?xs ! 0 # map (\<lambda>i. rotate1 ?xs ! (i mod length ?xs)) [0..<n] = map (\<lambda>i. ?xs ! (i mod length ?xs)) [0..<Suc n]"
    using ne by (simp add: upt_conv_Cons del: upt_Suc)
  then show ?case using s(1) K' rot len by simp
qed simp

text \<open>
  C8: Tasks of the same priority share the processor: with the scheduler active, as many switches
  in a row as there are ready tasks of the highest ready priority select each of these tasks
  exactly once.
\<close>

theorem equal_priority_turns:
  assumes "reachable K" "uxSchedulerSuspended K = 0" "st K t = Some (Ready q)" "\<forall>v q'. st K v = Some (Ready q') \<longrightarrow> q' \<le> q"
  shows "\<exists>ts K'. switches (length (items (ready K q))) K = Some (ts, K') \<and> distinct ts \<and> set ts = {v. st K v = Some (Ready q)}"
proof -
  let ?r = "ready K q" and ?n = "length (items (ready K q))"
  obtain K' where e: "switches ?n K = Some (map (\<lambda>i. ring_order ?r ! (i mod ?n)) [0..<?n], K')"
    using switches_rotate [OF reachable_ok [OF assms(1)] assms(2-4)] by blast
  have "length (ring_order ?r) = ?n" by (simp add: ring_order_def items_def)
  then have "map (\<lambda>i. ring_order ?r ! (i mod ?n)) [0..<?n] = ring_order ?r"
    by (auto intro: nth_equalityI)
  moreover have "distinct (items ?r)" "set (items ?r) = {v. st K v = Some (Ready q)}"
    using lists_okD(1,2) [OF core_okD(1) [OF kernel_okD(1) [OF reachable_ok [OF assms(1)]]], where s = "Ready q"] by auto
  moreover have "distinct (ring_order ?r) = distinct (items ?r)" "set (ring_order ?r) = set (items ?r)"
    by (auto simp: ring_order_def items_def)
  ultimately show ?thesis using e by auto
qed

text \<open>
  C6: Time passes exactly: each tick with the scheduler active takes one from the remaining ticks of
  every delayed task, also when the tick counter wraps. A task whose last tick it was is ready and
  off its event list, every other control block is untouched. A switch is asked for when a woken
  task has at least the running task's priority, when another task of that priority is ready, or
  when one was pending.
\<close>

theorem tick_wakes_on_time:
  assumes "reachable K" "uxSchedulerSuspended K = 0"
  shows "returns (xTaskIncrementTick K) (\<lambda>(sw, K'). xTickCount K' = xTickCount K + 1 \<and>
    tcbs K' = (\<lambda>t. if remaining K t = Some 1 then woken (tcbs K t) else tcbs K t) \<and>
    (\<forall>t. remaining K' t = (case remaining K t of Some (Suc (Suc n)) \<Rightarrow> Some (Suc n) | _ \<Rightarrow> None)) \<and>
    (sw \<longleftrightarrow> xYieldPending K \<or> (\<exists>t. remaining K t = Some 1 \<and> prio K (pxCurrentTCB K) \<le> prio K t) \<or>
      1 < length (items (ready K' (prio K (pxCurrentTCB K))))))"
  using tick_ok [OF reachable_ok [OF assms(1)] assms(2)] by (elim returns_mono) (auto simp: clock_step_def)

text \<open>
  C10: A task that delays itself for \<open>n\<close> ticks is ready again after exactly \<open>n\<close> ticks, not before, for
  every \<open>n\<close> up to the largest tick count.
\<close>

theorem delay_lasts:
  assumes ok: "reachable K" and r: "running K" and n: "0 < n" and p: "uxPendedTicks K = 0"
  shows "returns (vTaskDelay n K) (\<lambda>K1. yield_requested K1 \<and>
    (\<forall>m. returns (pended_ticks m K1) (\<lambda>K2. st K2 (pxCurrentTCB K) = Some (Ready (prio K (pxCurrentTCB K))) \<longleftrightarrow> unat n \<le> m)))"
proof -
  let ?t = "pxCurrentTCB K"
  note ok = reachable_ok [OF ok]
  have "xPendingReadyList K = []"
    using lists_okD(4) [OF core_okD(1) [OF kernel_okD(1) [OF ok]], where e = PendingReadyList] kernel_okD(3) [OF ok] r
    by (cases "xPendingReadyList K") (force simp: pending_ok_def running_def)+
  then obtain K1 where k1: "vTaskDelay n K = Some K1" "kernel_ok K1" "yield_requested K1" "uxSchedulerSuspended K1 = 0"
    "xTickCount K1 = xTickCount K" "tcbs K1 = (tcbs K)(?t := asleep n False K (tcbs K ?t))"
    using vTaskDelay_sleeps [OF ok r n] p by (auto simp: returns_def)
  have rem: "remaining K1 ?t = Some (unat n)" by (simp add: remaining_eq k1(5,6) asleep_def)
  have nr: "st K1 ?t \<noteq> Some (Ready q)" and pr: "prio K1 ?t = prio K ?t" for q by (simp_all add: k1(6))
  have "returns (pended_ticks m K1) (\<lambda>K2. st K2 ?t = Some (Ready (prio K ?t)) \<longleftrightarrow> unat n \<le> m)" for m
    using pended_ticks_ok [OF k1(2,4), of m] rem nr pr by (elim returns_mono) (auto simp: due_within_def)
  then show ?thesis using k1 by simp
qed

text \<open>
  C9: Suspending the scheduler loses no time and no event: when the outermost suspension ends, the
  tick counter has caught up with the ticks that arrived meanwhile, and exactly the tasks that an
  interrupt readied or whose delay ended within these ticks have become ready; a switch is requested
  when one is pending.
\<close>

theorem resume_catches_up:
  assumes "reachable K" "uxSchedulerSuspended K = 1" "uxCurrentNumberOfTasks K > 0"
  shows "returns (xTaskResumeAll K) (\<lambda>(y, K'). uxSchedulerSuspended K' = 0 \<and> xPendingReadyList K' = [] \<and>
    xTickCount K' = xTickCount K + uxPendedTicks K \<and> (y \<longleftrightarrow> xYieldPending K') \<and> (yield_requested K' \<longleftrightarrow> yield_requested K \<or> y) \<and>
    tcbs K' = (\<lambda>t. if ev K t = Some PendingReadyList \<or> (\<exists>k. remaining K t = Some k \<and> k \<le> unat (uxPendedTicks K))
      then woken (tcbs K t) else tcbs K t))"
proof -
  have d: "due_within (unat (uxPendedTicks K)) K t \<longleftrightarrow> (\<exists>k. remaining K t = Some k \<and> k \<le> unat (uxPendedTicks K))" for t
    by (auto simp: due_within_def)
  from resume_outermost [OF reachable_ok [OF assms(1)] assms(2,3)] show ?thesis
    unfolding d by (elim returns_mono) auto
qed

section \<open>Witnesses\<close>

lemma demo_state:
  "pxCurrentTCB demo = 3" "uxSchedulerSuspended demo = 0" "uxPendedTicks demo = 0" "uxCurrentNumberOfTasks demo = 3"
  "xTickCount demo = 0" "xPendingReadyList demo = []" "events demo = (\<lambda>_. [])" "xSchedulerRunning demo"
  "st demo 1 = Some (Ready 0)" "st demo 2 = Some (Ready 3)" "st demo 3 = Some (Ready 3)" "st demo 4 = None" "ev demo t = None"
  "prio demo 3 = 3" "items (ready demo 3) = [2, 3]" "xNextTaskUnblockTime demo = portMAX_DELAY"
  by (simp_all add: demo_def demo_boot_def new_task_simps start_scheduler_def demo_tcb_def items_def)

lemma demo_ready: "st demo t = Some (Ready p) \<longleftrightarrow> t = 1 \<and> p = 0 \<or> (t = 2 \<or> t = 3) \<and> p = 3"
  by (auto simp: demo_def demo_boot_def new_task_simps start_scheduler_def demo_tcb_def items_def split: if_splits)

lemma demo_st: "st demo t = (if t = 1 then Some (Ready 0) else if t = 2 \<or> t = 3 then Some (Ready 3) else None)"
  by (simp add: demo_def demo_boot_def new_task_simps start_scheduler_def demo_tcb_def items_def)

lemma demo_reachable: "reachable demo"
proof -
  let ?a = "prvAddNewTaskToReadyList 1 demo_boot"
  let ?b = "prvAddNewTaskToReadyList 2 ?a"
  let ?c = "prvAddNewTaskToReadyList 3 ?b"
  have a: "reachable ?a" by (rule boot [OF demo_boot_ok]) simp_all
  have "calls ?a (Some ?b)" by (rule create) (simp_all add: demo_boot_def new_task_simps demo_tcb_def)
  with a have b: "reachable ?b" by (rule call)
  have "calls ?b (Some ?c)" by (rule create) (simp_all add: demo_boot_def new_task_simps demo_tcb_def)
  with b have c: "reachable ?c" by (rule call)
  have "calls ?c (Some demo)" unfolding demo_def by (rule start) (simp add: demo_boot_def new_task_simps demo_tcb_def)
  with c show ?thesis by (rule call)
qed

lemma demo_running: "running demo"
  by (simp add: running_def demo_state)

lemma switch_selects_highest_witness:
  "\<exists>K' q. vTaskSwitchContext demo = Some K' \<and> st K' (pxCurrentTCB K') = Some (Ready q) \<and> 3 \<le> q"
  using switch_selects_highest [OF demo_reachable demo_state(2,10)] demo_state(10) by blast

lemma scheduler_safe_witness: "kernel_ok demo \<and> vTaskSwitchContext demo \<noteq> None"
  using scheduler_safe [OF demo_reachable] switch [OF demo_state(10)] by blast

lemma equal_priority_turns_witness:
  "\<exists>ts K'. switches 2 demo = Some (ts, K') \<and> distinct ts \<and> set ts = {2, 3}"
proof -
  have m: "\<forall>v q'. st demo v = Some (Ready q') \<longrightarrow> q' \<le> 3" by (auto simp: demo_ready)
  have s: "{v. st demo v = Some (Ready 3)} = {2, 3}" by (auto simp: demo_ready)
  show ?thesis using equal_priority_turns [OF demo_reachable demo_state(2,10) m] unfolding s by (simp add: demo_state(15) numeral_2_eq_2)
qed

lemma tick_wakes_on_time_witness:
  "returns (xTaskIncrementTick demo) (\<lambda>(sw, K'). xTickCount K' = 1 \<and> tcbs K' = tcbs demo)"
proof -
  have r: "remaining demo t = None" for t by (simp add: remaining_None demo_st)
  show ?thesis using tick_wakes_on_time [OF demo_reachable demo_state(2)]
    by (elim returns_mono) (auto simp: r demo_state)
qed

lemma delay_lasts_witness:
  "returns (vTaskDelay 5 demo) (\<lambda>K1. yield_requested K1 \<and>
    (\<forall>m. returns (pended_ticks m K1) (\<lambda>K2. st K2 3 = Some (Ready 3) \<longleftrightarrow> 5 \<le> m)))"
  using delay_lasts [OF demo_reachable demo_running, of 5] by (simp add: demo_state)

lemma resume_catches_up_witness:
  "returns (xTaskResumeAll (vTaskSuspendAll demo)) (\<lambda>(y, K'). uxSchedulerSuspended K' = 0 \<and> xTickCount K' = 0)"
proof -
  have "calls demo (Some (vTaskSuspendAll demo))" by (rule suspend_all) (simp add: demo_state)
  then have r: "reachable (vTaskSuspendAll demo)" by (rule call [OF demo_reachable])
  have s: "uxSchedulerSuspended (vTaskSuspendAll demo) = 1" "0 < uxCurrentNumberOfTasks (vTaskSuspendAll demo)"
    "xTickCount (vTaskSuspendAll demo) = 0" "uxPendedTicks (vTaskSuspendAll demo) = 0"
    by (simp_all add: vTaskSuspendAll_def demo_state)
  show ?thesis using resume_catches_up [OF r s(1,2)] unfolding s by (elim returns_mono) auto
qed

section \<open>Timeouts\<close>

text \<open>The time since start-up: the tick counter with the count of its overflows.\<close>

definition clock :: "kernel \<Rightarrow> nat" where
  "clock K = unat (xNumOfOverflows K) * 2 ^ 32 + unat (xTickCount K)"

lemma clock_parts:
  assumes "clock K = (clock K0 + d) mod 2 ^ 64"
  shows "unat (xTickCount K) = (unat (xTickCount K0) + d) mod 2 ^ 32"
    "unat (xNumOfOverflows K) = (unat (xNumOfOverflows K0) + (unat (xTickCount K0) + d) div 2 ^ 32) mod 2 ^ 32"
proof -
  have b: "unat (xTickCount K) < 2 ^ 32" "unat (xNumOfOverflows K) < 2 ^ 32"
    using unsigned_less [of "xTickCount K"] unsigned_less [of "xNumOfOverflows K"] by simp_all
  have m: "unat (xTickCount K) = clock K mod 2 ^ 32" "unat (xNumOfOverflows K) = clock K div 2 ^ 32"
    using b by (simp_all add: clock_def)
  have e: "clock K0 + d = (unat (xTickCount K0) + d) + unat (xNumOfOverflows K0) * 2 ^ 32" by (simp add: clock_def)
  show "unat (xTickCount K) = (unat (xTickCount K0) + d) mod 2 ^ 32"
    unfolding m(1) assms e by (simp add: mod_mod_cancel)
  have "x mod (2 ^ 32 * 2 ^ 32) div 2 ^ 32 = x div 2 ^ 32 mod 2 ^ 32" for x :: nat
    unfolding mod_mult2_eq [of x "2 ^ 32" "2 ^ 32"] by simp
  then have "clock K div 2 ^ 32 = (clock K0 + d) div 2 ^ 32 mod 2 ^ 32" unfolding assms by simp
  then show "unat (xNumOfOverflows K) = (unat (xNumOfOverflows K0) + (unat (xTickCount K0) + d) div 2 ^ 32) mod 2 ^ 32"
    unfolding m(2) e by (simp add: add.commute)
qed

lemma tick_clock:
  assumes "clock_step K K'" shows "clock K' = (clock K + 1) mod 2 ^ 64"
proof -
  have t: "xTickCount K' = xTickCount K + 1" "xNumOfOverflows K' = xNumOfOverflows K + (if xTickCount K + 1 = 0 then 1 else 0)"
    using assms by (simp_all add: clock_step_def)
  have b: "unat (xTickCount K) < 2 ^ 32" "unat (xNumOfOverflows K) < 2 ^ 32"
    using unsigned_less [of "xTickCount K"] unsigned_less [of "xNumOfOverflows K"] by simp_all
  show ?thesis
  proof (cases "xTickCount K + 1 = 0")
    case False
    then have n: "unat (xTickCount K + 1) = unat (xTickCount K) + 1" by (simp add: unatSuc add.commute)
    have "unat (xTickCount K + 1) < 2 ^ 32" using unsigned_less [of "xTickCount K + 1"] by simp
    then have "clock K + 1 < 2 ^ 64" using b(2) n unfolding clock_def power_numeral by simp
    then show ?thesis using False t n by (simp add: clock_def)
  next
    case True
    have m: "unat (xTickCount K) = 2 ^ 32 - 1"
    proof -
      have "xTickCount K = - 1" using True by (simp add: eq_neg_iff_add_eq_0)
      then show ?thesis by (simp add: unsigned_minus_1_eq_mask mask_eq_exp_minus_1)
    qed
    show ?thesis
    proof (cases "xNumOfOverflows K + 1 = 0")
      case o: True
      have "xNumOfOverflows K = - 1" using o by (simp add: eq_neg_iff_add_eq_0)
      then have "unat (xNumOfOverflows K) = 2 ^ 32 - 1" by (simp add: unsigned_minus_1_eq_mask mask_eq_exp_minus_1)
      then show ?thesis using True o t m by (simp add: clock_def)
    next
      case False
      then have n: "unat (xNumOfOverflows K + 1) = unat (xNumOfOverflows K) + 1" by (simp add: unatSuc add.commute)
      have "unat (xNumOfOverflows K + 1) < 2 ^ 32" using unsigned_less [of "xNumOfOverflows K + 1"] by simp
      then have "clock K + 1 < 2 ^ 64" using m n unfolding clock_def power_numeral by simp
      then show ?thesis using True t m n by (simp add: clock_def)
    qed
  qed
qed

text \<open>
  C11: A timeout is measured exactly: a blocked task that comes back after \<open>d\<close> ticks (fewer than
  2 to the 32) with \<open>n\<close> ticks to wait has timed out exactly when \<open>n \<le> d\<close>, wherever the tick counter
  stood and however it has wrapped since; otherwise the wait is shortened by \<open>d\<close> and measured from
  now on. A wait of \<open>portMAX_DELAY\<close> never times out.
\<close>

theorem timeout_exact:
  assumes d: "clock K = (clock K0 + d) mod 2 ^ 64" "d < 2 ^ 32"
  shows "xTaskCheckForTimeOut K (vTaskInternalSetTimeOutState K0) n =
    (if n = portMAX_DELAY then (False, vTaskInternalSetTimeOutState K0, n)
     else if unat n \<le> d then (True, vTaskInternalSetTimeOutState K0, 0)
     else (False, vTaskInternalSetTimeOutState K, n - of_nat d))"
proof -
  let ?t = "unat (xTickCount K0)"
  note p = clock_parts [OF d(1)]
  have b: "?t < 2 ^ 32" "unat (xNumOfOverflows K0) < 2 ^ 32"
    using unsigned_less [of "xTickCount K0"] unsigned_less [of "xNumOfOverflows K0"] by simp_all
  have m: "of_nat (x mod 2 ^ 32) = (of_nat x :: u32)" for x :: nat
    by (simp add: word_unat_eq_iff unat_of_nat take_bit_eq_mod)
  have e: "xTickCount K - xTickCount K0 = of_nat d"
  proof -
    have "xTickCount K = of_nat ((?t + d) mod 2 ^ 32)" unfolding p(1) [symmetric] by simp
    also have "\<dots> = of_nat (?t + d)" by (rule m)
    finally show ?thesis by simp
  qed
  have "\<not> (xNumOfOverflows K \<noteq> xNumOfOverflows K0 \<and> xTickCount K0 \<le> xTickCount K)"
  proof (cases "?t + d < 2 ^ 32")
    case True
    then have "unat (xNumOfOverflows K) = unat (xNumOfOverflows K0)" using p(2) b(2) by simp
    then show ?thesis by (simp add: word_unat_eq_iff)
  next
    case False
    then have "unat (xTickCount K) = ?t + d - 2 ^ 32" using p(1) d(2) b(1) by (simp add: mod_if)
    then have "unat (xTickCount K) < ?t" using False d(2) by (simp add: less_diff_conv2 not_less)
    then show ?thesis by (simp add: word_le_nat_alt)
  qed
  moreover have "of_nat d < n \<longleftrightarrow> \<not> unat n \<le> d" using d(2) by (simp add: word_less_nat_alt unat_of_nat take_bit_nat_eq_self not_le)
  ultimately show ?thesis by (auto simp: xTaskCheckForTimeOut_def vTaskInternalSetTimeOutState_def e Let_def)
qed

lemma timeout_exact_witness:
  "xTaskCheckForTimeOut (demo\<lparr>xTickCount := 1, xNumOfOverflows := 1\<rparr>) (vTaskInternalSetTimeOutState (demo\<lparr>xTickCount := 0xFFFFFFFF, xNumOfOverflows := 0\<rparr>)) 5 =
    (False, vTaskInternalSetTimeOutState (demo\<lparr>xTickCount := 1, xNumOfOverflows := 1\<rparr>), 3)"
  by (subst timeout_exact [of _ _ 2]) (simp_all add: clock_def)

section \<open>Priority inheritance\<close>


text \<open>A task of priority 1 that holds a mutex, and the running task of priority 5.\<close>

definition holder_boot :: kernel where
  "holder_boot = demo_boot\<lparr>tcbs := (\<lambda>t. demo_tcb (if t = 4 then 5 else 1))\<rparr>"

definition holder_demo :: kernel where
  "holder_demo = prvAddNewTaskToReadyList 4 (snd (pvTaskIncrementMutexHeldCount (prvAddNewTaskToReadyList 2 holder_boot)))"

lemma holder_demo_tcbs:
  "tcbs holder_demo = (tcbs holder_boot)(2 := (demo_tcb 1)\<lparr>xStateContainer := Some (Ready 1), uxMutexesHeld := 1\<rparr>,
    4 := (demo_tcb 5)\<lparr>xStateContainer := Some (Ready 5)\<rparr>)" "pxCurrentTCB holder_demo = 4" "uxSchedulerSuspended holder_demo = 0"
  "uxCurrentNumberOfTasks holder_demo = 2"
  by (simp_all add: holder_demo_def holder_boot_def demo_boot_def new_task_simps demo_tcb_def pvTaskIncrementMutexHeldCount_def fun_eq_iff)

lemma holder_demo_reachable: "reachable holder_demo"
proof -
  let ?a = "prvAddNewTaskToReadyList 2 holder_boot" and ?b = "snd (pvTaskIncrementMutexHeldCount (prvAddNewTaskToReadyList 2 holder_boot))"
  have "reachable ?a"
    by (rule boot) (simp_all add: boot_ok_def holder_boot_def demo_boot_def demo_tcb_def items_def)
  then have b: "reachable ?b" by (rule call) (rule mutex_taken)
  have "calls ?b (Some holder_demo)" unfolding holder_demo_def
    by (rule create) (simp_all add: holder_boot_def demo_boot_def new_task_simps demo_tcb_def pvTaskIncrementMutexHeldCount_def)
  with b show ?thesis by (rule call)
qed


text \<open>
  C13: When a waiting task's timeout takes back an inherited priority, the code resets the bitmap's
  bit of the new priority instead of the old one. If the holder was the only task ready at its
  inherited priority, that bit stays set over an empty list.
\<close>

theorem timeout_leaves_stale_bit:
  assumes "reachable K" and r: "st K h = Some (Ready p)" and m: "uxMutexesHeld (tcbs K h) = 1"
    and q: "prio K h \<noteq> max (uxBasePriority (tcbs K h)) w" and alone: "\<And>u. u \<noteq> h \<Longrightarrow> st K u \<noteq> Some (Ready p)"
  shows "returns (vTaskPriorityDisinheritAfterTimeout h w K)
    (\<lambda>K'. bit (uxTopReadyPriority K') (unat p) \<and> items (ready K' p) = [] \<and> \<not> bitmap_ok K')"
proof -
  note ok = reachable_ok [OF assms(1)]
  note c = core_okD [OF kernel_okD(1) [OF ok]]
  have h: "h \<noteq> NULL" and p: "p = prio K h" "p < 8" using tasks_okD(1,3,5) [OF c(2)] r by metis+
  let ?q = "max (uxBasePriority (tcbs K h)) w"
  define U where "U = set_tcb h (\<lambda>c. event_priority ?q (c\<lparr>uxPriority := ?q\<rparr>)) (detach h K)"
  have pq: "?q \<noteq> p" "unat ?q \<noteq> unat p" using q p(1) by (metis, metis word_unat_eq_iff)
  have e: "items (ready (detach h K) p) = []"
    using ready_items_empty [OF lists_ok_detach [OF c(1), of h], of p] alone by (auto simp: detach_simps)
  then have "vTaskPriorityDisinheritAfterTimeout h w K = Some (prvAddTaskToReadyList h (taskRESET_READY_PRIORITY ?q U))"
    using disinherit_timeout_eq [OF ok r h q m] by (simp add: U_def p(1))
  moreover have u: "ready U p = ready (detach h K) p" "prio U h = ?q" "uxTopReadyPriority U = uxTopReadyPriority K"
    by (simp add: U_def set_tcb_def) (simp_all add: U_def kernel_simps)
  have "bit (uxTopReadyPriority K) (unat p)" using c(3) r p(2) by (auto simp: bitmap_ok_def word_less_nat_alt)
  then have b: "bit (uxTopReadyPriority (prvAddTaskToReadyList h (taskRESET_READY_PRIORITY ?q U))) (unat p)"
    using pq(2) by (simp add: add_ready_simps(6) taskRESET_READY_PRIORITY_def portRESET_READY_PRIORITY_def u bit_record bit_reset)
  moreover have "items (ready (prvAddTaskToReadyList h (taskRESET_READY_PRIORITY ?q U)) p) = []"
    using e u pq(1)
    by (simp add: prvAddTaskToReadyList_def portRECORD_READY_PRIORITY_def taskRESET_READY_PRIORITY_def portRESET_READY_PRIORITY_def Let_def set_tcb_def)
  moreover have "\<not> bitmap_ok (prvAddTaskToReadyList h (taskRESET_READY_PRIORITY ?q U))"
  proof
    assume "bitmap_ok (prvAddTaskToReadyList h (taskRESET_READY_PRIORITY ?q U))"
    with b obtain v where "st (prvAddTaskToReadyList h (taskRESET_READY_PRIORITY ?q U)) v = Some (Ready p)"
      by (auto simp: bitmap_ok_def)
    then show False using pq(1) alone u(2)
      by (auto simp: add_ready_simps(1) taskRESET_READY_PRIORITY_def portRESET_READY_PRIORITY_def U_def kernel_simps split: if_splits)
  qed
  ultimately show ?thesis by simp
qed

text \<open>The running task has inherited priority 3 through the one mutex it holds.\<close>

definition heir_boot :: kernel where
  "heir_boot = demo_boot\<lparr>tcbs := (\<lambda>t. (demo_tcb 3)\<lparr>uxBasePriority := 1, uxMutexesHeld := 1\<rparr>)\<rparr>"

lemma heir_reachable: "reachable (prvAddNewTaskToReadyList 2 heir_boot)"
  by (rule boot) (simp_all add: boot_ok_def heir_boot_def demo_boot_def demo_tcb_def items_def)

lemma timeout_leaves_stale_bit_witness:
  "\<exists>K'. vTaskPriorityDisinheritAfterTimeout 2 0 (prvAddNewTaskToReadyList 2 heir_boot) = Some K' \<and>
    bit (uxTopReadyPriority K') (unat (3 :: 32 word)) \<and> items (ready K' 3) = []"
proof -
  let ?K = "prvAddNewTaskToReadyList 2 heir_boot"
  have t: "tcbs ?K = (\<lambda>t. (demo_tcb 3)\<lparr>uxBasePriority := 1, uxMutexesHeld := 1\<rparr>)(2 := (demo_tcb 3)\<lparr>uxBasePriority := 1, uxMutexesHeld := 1, xStateContainer := Some (Ready 3)\<rparr>)"
    by (simp add: heir_boot_def demo_boot_def new_task_simps demo_tcb_def fun_eq_iff)
  have "returns (vTaskPriorityDisinheritAfterTimeout 2 0 ?K)
    (\<lambda>K'. bit (uxTopReadyPriority K') (unat (3 :: 32 word)) \<and> items (ready K' 3) = [] \<and> \<not> bitmap_ok K')"
    by (rule timeout_leaves_stale_bit [OF heir_reachable]) (simp_all add: t demo_tcb_def)
  then show ?thesis by (rule returnsE) blast
qed

text \<open>Selecting at such a bit reads the owner of the list's marker: undefined.\<close>

lemma stale_bit_undefined:
  assumes "portGET_HIGHEST_PRIORITY (uxTopReadyPriority K) = Some i" "items (ready K (of_nat i)) = []" "uxSchedulerSuspended K = 0"
  shows "vTaskSwitchContext K = None"
proof -
  have "rl_next (ready K (of_nat i)) = None" using assms(2) by (simp add: rl_next_def items_def)
  then show ?thesis using assms by (simp add: vTaskSwitchContext_def taskSELECT_HIGHEST_PRIORITY_TASK_def)
qed

end
