(* ===== verification/RTOS_Queue.thy ===== *)
theory RTOS_Queue
  imports RTOS_Scheduler
begin

text \<open>
  Queues, semaphores and mutexes, \<open>FreeRTOS/src/queue.c\<close>: the ring buffer of items copied by value,
  the lock counts that defer wake-ups while a task is about to block, and the calls that may block,
  each a step function from one scheduling point to the next. Queue sets and co-routines are
  switched off in this build, \<open>configASSERT\<close> is empty.
\<close>

unbundle bit_operations_syntax

section \<open>The state of a queue\<close>

text \<open>
  A queue and a semaphore share memory in the union \<open>u\<close>; reading the member that was not stored is
  undefined. \<open>pcHead\<close> is \<open>NULL\<close> for a mutex. \<open>storage\<close> is the memory from \<open>pcHead\<close> on, pointers into
  it are 32 bit addresses. The two event lists are names of lists of the kernel.
\<close>

datatype queue_union =
    QueuePointers (pcTail: u32) (pcReadFrom: u32)
  | SemaphoreData (xMutexHolder: tid) (uxRecursiveCallCount: u32)

record queue =
  pcHead :: u32
  pcWriteTo :: u32
  un :: queue_union
  xTasksWaitingToSend :: nat
  xTasksWaitingToReceive :: nat
  uxMessagesWaiting :: u32
  uxLength :: u32
  uxItemSize :: u32
  cRxLock :: "8 word"
  cTxLock :: "8 word"
  storage :: bytes

datatype copy_position = queueSEND_TO_BACK | queueSEND_TO_FRONT | queueOVERWRITE

abbreviation (input) queueUNLOCKED :: "8 word" where "queueUNLOCKED \<equiv> -1"
abbreviation (input) queueLOCKED_UNMODIFIED :: "8 word" where "queueLOCKED_UNMODIFIED \<equiv> 0"

abbreviation is_mutex :: "queue \<Rightarrow> bool" where "is_mutex q \<equiv> pcHead q = 0"

fun queue_pointers :: "queue_union \<Rightarrow> (u32 \<times> u32) option" where
  "queue_pointers (QueuePointers t r) = Some (t, r)"
| "queue_pointers (SemaphoreData h c) = None"

fun semaphore_data :: "queue_union \<Rightarrow> (tid \<times> u32) option" where
  "semaphore_data (QueuePointers t r) = None"
| "semaphore_data (SemaphoreData h c) = Some (h, c)"

section \<open>Copying items\<close>

definition store_item :: "u32 \<Rightarrow> bytes \<Rightarrow> queue \<Rightarrow> queue option" where
  "store_item p pvItemToQueue q = do {
     xs \<leftarrow> rd_bytes pvItemToQueue 0 (unat (uxItemSize q));
     b \<leftarrow> wr_bytes (storage q) (unat (p - pcHead q)) xs;
     Some (q\<lparr>storage := b\<rparr>) }"

definition prvCopyDataToQueue :: "bytes \<Rightarrow> copy_position \<Rightarrow> queue \<Rightarrow> kernel \<Rightarrow> (bool \<times> queue \<times> kernel) option" where
  "prvCopyDataToQueue pvItemToQueue xPosition q K = do {
     (xReturn, n, q, K) \<leftarrow> (if uxItemSize q = 0
       then (if is_mutex q
         then do {
           (h, c) \<leftarrow> semaphore_data (un q);
           (r, K) \<leftarrow> xTaskPriorityDisinherit h K;
           Some (r, uxMessagesWaiting q, q\<lparr>un := SemaphoreData NULL c\<rparr>, K) }
         else Some (False, uxMessagesWaiting q, q, K))
       else if xPosition = queueSEND_TO_BACK
       then do {
         q \<leftarrow> store_item (pcWriteTo q) pvItemToQueue q;
         (t, r) \<leftarrow> queue_pointers (un q);
         let w = pcWriteTo q + uxItemSize q;
         Some (False, uxMessagesWaiting q, q\<lparr>pcWriteTo := if t \<le> w then pcHead q else w\<rparr>, K) }
       else do {
         (t, r) \<leftarrow> queue_pointers (un q);
         q \<leftarrow> store_item r pvItemToQueue q;
         let r = r - uxItemSize q;
         let r = (if r < pcHead q then t - uxItemSize q else r);
         let n = uxMessagesWaiting q;
         Some (False, if xPosition = queueOVERWRITE \<and> 0 < n then n - 1 else n, q\<lparr>un := QueuePointers t r\<rparr>, K) });
     Some (xReturn, q\<lparr>uxMessagesWaiting := n + 1\<rparr>, K) }"

text \<open>What is copied to the caller's buffer: nothing for a semaphore.\<close>

definition prvCopyDataFromQueue :: "queue \<Rightarrow> (bytes \<times> queue) option" where
  "prvCopyDataFromQueue q = (if uxItemSize q \<noteq> 0
     then do {
       (t, r) \<leftarrow> queue_pointers (un q);
       let r = r + uxItemSize q;
       let r = (if t \<le> r then pcHead q else r);
       xs \<leftarrow> rd_bytes (storage q) (unat (r - pcHead q)) (unat (uxItemSize q));
       Some (xs, q\<lparr>un := QueuePointers t r\<rparr>) }
     else Some ([], q))"

section \<open>Locking\<close>

definition prvLockQueue :: "queue \<Rightarrow> queue" where
  "prvLockQueue q =
     (let q = (if cRxLock q = queueUNLOCKED then q\<lparr>cRxLock := queueLOCKED_UNMODIFIED\<rparr> else q)
      in if cTxLock q = queueUNLOCKED then q\<lparr>cTxLock := queueLOCKED_UNMODIFIED\<rparr> else q)"

text \<open>
  Unblocking the first waiting task, if there is one. \<open>prvUnlockQueue\<close> does so as often as items
  came or went while the queue was locked, first for the receivers, then for the senders.
\<close>

definition unblock_one :: "nat \<Rightarrow> kernel \<Rightarrow> (bool \<times> kernel) option" where
  "unblock_one e K = (if events K e \<noteq> [] then xTaskRemoveFromEventList e K else Some (False, K))"

function unlock_loop :: "8 word \<Rightarrow> nat \<Rightarrow> kernel \<Rightarrow> kernel option" where
  "unlock_loop c e K = (if 0 < sint c
     then (if events K e \<noteq> []
       then do {
         (sw, K) \<leftarrow> xTaskRemoveFromEventList e K;
         unlock_loop (c - 1) e (if sw then vTaskMissedYield K else K) }
       else Some K)
     else Some K)"
  by pat_completeness auto
termination
proof (relation "measure (\<lambda>(c, e, K). unat c)")
  fix c :: "8 word" and e K x sw K'
  assume "0 < sint c"
  then have "c \<noteq> 0" by auto
  then show "((c - 1, e, if sw then vTaskMissedYield K' else K'), c, e, K) \<in> measure (\<lambda>(c, e, K). unat c)"
    by (simp add: measure_unat)
qed simp

definition unlock_tx :: "queue \<Rightarrow> kernel \<Rightarrow> (queue \<times> kernel) option" where
  "unlock_tx q K = do {
     K \<leftarrow> unlock_loop (cTxLock q) (xTasksWaitingToReceive q) K;
     Some (q\<lparr>cTxLock := queueUNLOCKED\<rparr>, K) }"

definition unlock_rx :: "queue \<Rightarrow> kernel \<Rightarrow> (queue \<times> kernel) option" where
  "unlock_rx q K = do {
     K \<leftarrow> unlock_loop (cRxLock q) (xTasksWaitingToSend q) K;
     Some (q\<lparr>cRxLock := queueUNLOCKED\<rparr>, K) }"

definition prvUnlockQueue :: "queue \<Rightarrow> kernel \<Rightarrow> (queue \<times> kernel) option" where
  "prvUnlockQueue q K = do { (q, K) \<leftarrow> unlock_tx q K; unlock_rx q K }"

section \<open>Queries\<close>

definition prvIsQueueEmpty :: "queue \<Rightarrow> bool" where
  "prvIsQueueEmpty q = (uxMessagesWaiting q = 0)"

definition prvIsQueueFull :: "queue \<Rightarrow> bool" where
  "prvIsQueueFull q = (uxMessagesWaiting q = uxLength q)"

definition xQueueIsQueueEmptyFromISR :: "queue \<Rightarrow> bool" where
  "xQueueIsQueueEmptyFromISR q = (uxMessagesWaiting q = 0)"

definition xQueueIsQueueFullFromISR :: "queue \<Rightarrow> bool" where
  "xQueueIsQueueFullFromISR q = (uxMessagesWaiting q = uxLength q)"

definition uxQueueMessagesWaiting :: "queue \<Rightarrow> u32" where
  "uxQueueMessagesWaiting q = uxMessagesWaiting q"

definition uxQueueSpacesAvailable :: "queue \<Rightarrow> u32" where
  "uxQueueSpacesAvailable q = uxLength q - uxMessagesWaiting q"

definition uxQueueMessagesWaitingFromISR :: "queue \<Rightarrow> u32" where
  "uxQueueMessagesWaitingFromISR q = uxMessagesWaiting q"

text \<open>The priority the holder of a mutex keeps when a waiting task gives up: that of the next one.\<close>

definition prvGetDisinheritPriorityAfterTimeout :: "queue \<Rightarrow> kernel \<Rightarrow> u32" where
  "prvGetDisinheritPriorityAfterTimeout q K = (case events K (xTasksWaitingToReceive q) of
       t # _ \<Rightarrow> configMAX_PRIORITIES - xEventValue (tcbs K t)
     | [] \<Rightarrow> 0)"

section \<open>Calls from interrupts\<close>

text \<open>The results: whether the call succeeded, and whether it woke a task of a higher priority.\<close>

definition xQueueGenericSendFromISR ::
    "bytes \<Rightarrow> copy_position \<Rightarrow> queue \<Rightarrow> kernel \<Rightarrow> (bool \<times> bool \<times> queue \<times> kernel) option" where
  "xQueueGenericSendFromISR pvItemToQueue xCopyPosition q K =
     (if uxMessagesWaiting q < uxLength q \<or> xCopyPosition = queueOVERWRITE
      then do {
        let lock = cTxLock q;
        (_, q, K) \<leftarrow> prvCopyDataToQueue pvItemToQueue xCopyPosition q K;
        if lock = queueUNLOCKED
        then do { (sw, K) \<leftarrow> unblock_one (xTasksWaitingToReceive q) K; Some (True, sw, q, K) }
        else Some (True, False, q\<lparr>cTxLock := lock + 1\<rparr>, K) }
      else Some (False, False, q, K))"

definition xQueueGiveFromISR :: "queue \<Rightarrow> kernel \<Rightarrow> (bool \<times> bool \<times> queue \<times> kernel) option" where
  "xQueueGiveFromISR q K =
     (let n = uxMessagesWaiting q
      in if n < uxLength q
         then do {
           let lock = cTxLock q;
           let q = q\<lparr>uxMessagesWaiting := n + 1\<rparr>;
           if lock = queueUNLOCKED
           then do { (sw, K) \<leftarrow> unblock_one (xTasksWaitingToReceive q) K; Some (True, sw, q, K) }
           else Some (True, False, q\<lparr>cTxLock := lock + 1\<rparr>, K) }
         else Some (False, False, q, K))"

definition xQueueReceiveFromISR :: "queue \<Rightarrow> kernel \<Rightarrow> (bytes option \<times> bool \<times> queue \<times> kernel) option" where
  "xQueueReceiveFromISR q K =
     (let n = uxMessagesWaiting q
      in if 0 < n
         then do {
           let lock = cRxLock q;
           (xs, q) \<leftarrow> prvCopyDataFromQueue q;
           let q = q\<lparr>uxMessagesWaiting := n - 1\<rparr>;
           if lock = queueUNLOCKED
           then do { (sw, K) \<leftarrow> unblock_one (xTasksWaitingToSend q) K; Some (Some xs, sw, q, K) }
           else Some (Some xs, False, q\<lparr>cRxLock := lock + 1\<rparr>, K) }
         else Some (None, False, q, K))"

definition xQueuePeekFromISR :: "queue \<Rightarrow> (bytes option \<times> queue) option" where
  "xQueuePeekFromISR q = (if 0 < uxMessagesWaiting q
     then do {
       (t, r) \<leftarrow> queue_pointers (un q);
       (xs, q) \<leftarrow> prvCopyDataFromQueue q;
       Some (Some xs, q\<lparr>un := QueuePointers t r\<rparr>) }
     else Some (None, q))"

section \<open>Creating and resetting\<close>

definition yield_if :: "(bool \<times> kernel) option \<Rightarrow> kernel option" where
  "yield_if m = map_option (\<lambda>(sw, K). if sw then taskYIELD K else K) m"

definition xQueueGenericReset :: "bool \<Rightarrow> queue \<Rightarrow> kernel \<Rightarrow> (queue \<times> kernel) option" where
  "xQueueGenericReset xNewQueue q K = do {
     let q = q\<lparr>un := QueuePointers (pcHead q + uxLength q * uxItemSize q) (pcHead q + (uxLength q - 1) * uxItemSize q),
               uxMessagesWaiting := 0, pcWriteTo := pcHead q, cRxLock := queueUNLOCKED, cTxLock := queueUNLOCKED\<rparr>;
     K \<leftarrow> (if \<not> xNewQueue then yield_if (unblock_one (xTasksWaitingToSend q) K)
       else Some (K\<lparr>events := (events K)(xTasksWaitingToSend q := [], xTasksWaitingToReceive q := [])\<rparr>));
     Some (q, K) }"

text \<open>\<open>self\<close> is the address of the queue structure itself, \<open>pucQueueStorage\<close> the one behind it.\<close>

definition prvInitialiseNewQueue :: "u32 \<Rightarrow> u32 \<Rightarrow> u32 \<Rightarrow> u32 \<Rightarrow> queue \<Rightarrow> kernel \<Rightarrow> (queue \<times> kernel) option" where
  "prvInitialiseNewQueue uxQueueLength uxItemSize' pucQueueStorage self q K =
     xQueueGenericReset True
       (q\<lparr>pcHead := (if uxItemSize' = 0 then self else pucQueueStorage), uxLength := uxQueueLength, uxItemSize := uxItemSize'\<rparr>) K"

section \<open>Calls from tasks\<close>

text \<open>
  A call that may block is a state machine. Its local variables and the point where it stands are a
  \<open>call_frame\<close>; interrupts may strike between any two points, other tasks run where the scheduler is
  not suspended. Each round tries the operation in a critical section, and if that fails it suspends
  the scheduler, locks the queue, and checks the time that is left and the state of the queue once
  more, before it places the task on the event list. \<open>after\<close> tells the three call sites of
  \<open>prvUnlockQueue\<close> and \<open>xTaskResumeAll\<close> apart.
\<close>

datatype after = Blocked | Retry | TimedOut

datatype call_point = Attempt | SuspendAll | LockQueue | CheckTimeOut | TestQueue | Inherit | PlaceOnList
  | UnlockTx after | UnlockRx after | ResumeAll after | Expired | Disinherit

record call_frame =
  point :: call_point
  xTicksToWait :: u32
  xEntryTimeSet :: bool
  xTimeOut :: TimeOut
  xInheritanceOccurred :: bool

datatype 'a progress = Return 'a | Continue call_frame

definition call_start :: "TimeOut \<Rightarrow> u32 \<Rightarrow> call_frame" where
  "call_start junk n = \<lparr>point = Attempt, xTicksToWait = n, xEntryTimeSet = False, xTimeOut = junk, xInheritanceOccurred = False\<rparr>"

text \<open>The failed attempt with ticks left, and the part of a round that all calls share.\<close>

definition note_time :: "call_frame \<Rightarrow> kernel \<Rightarrow> call_frame" where
  "note_time f K = (if \<not> xEntryTimeSet f
     then f\<lparr>point := SuspendAll, xTimeOut := vTaskInternalSetTimeOutState K, xEntryTimeSet := True\<rparr>
     else f\<lparr>point := SuspendAll\<rparr>)"

definition wait_step :: "call_frame \<Rightarrow> queue \<Rightarrow> kernel \<Rightarrow> (call_frame \<times> queue \<times> kernel) option" where
  "wait_step f q K = (case point f of
       SuspendAll \<Rightarrow> Some (f\<lparr>point := LockQueue\<rparr>, q, vTaskSuspendAll K)
     | LockQueue \<Rightarrow> Some (f\<lparr>point := CheckTimeOut\<rparr>, prvLockQueue q, K)
     | CheckTimeOut \<Rightarrow> (case xTaskCheckForTimeOut K (xTimeOut f) (xTicksToWait f) of (expired, to, n) \<Rightarrow>
         Some (f\<lparr>point := if expired then UnlockTx TimedOut else TestQueue, xTimeOut := to, xTicksToWait := n\<rparr>, q, K))
     | UnlockTx a \<Rightarrow> do { (q, K) \<leftarrow> unlock_tx q K; Some (f\<lparr>point := UnlockRx a\<rparr>, q, K) }
     | UnlockRx a \<Rightarrow> do { (q, K) \<leftarrow> unlock_rx q K; Some (f\<lparr>point := ResumeAll a\<rparr>, q, K) }
     | ResumeAll a \<Rightarrow> do {
         (xAlreadyYielded, K) \<leftarrow> xTaskResumeAll K;
         Some (f\<lparr>point := if a = TimedOut then Expired else Attempt\<rparr>, q,
               if a = Blocked \<and> \<not> xAlreadyYielded then taskYIELD K else K) }
     | _ \<Rightarrow> None)"

definition keep_waiting :: "call_frame \<Rightarrow> queue \<Rightarrow> kernel \<Rightarrow> ('a progress \<times> queue \<times> kernel) option" where
  "keep_waiting f q K = map_option (\<lambda>(f, q, K). (Continue f, q, K)) (wait_step f q K)"

definition xQueueGenericSend ::
    "bytes \<Rightarrow> copy_position \<Rightarrow> call_frame \<Rightarrow> queue \<Rightarrow> kernel \<Rightarrow> (bool progress \<times> queue \<times> kernel) option" where
  "xQueueGenericSend pvItemToQueue xCopyPosition f q K = (case point f of
       Attempt \<Rightarrow>
         (if uxMessagesWaiting q < uxLength q \<or> xCopyPosition = queueOVERWRITE
          then do {
            (xYieldRequired, q, K) \<leftarrow> prvCopyDataToQueue pvItemToQueue xCopyPosition q K;
            K \<leftarrow> (if events K (xTasksWaitingToReceive q) \<noteq> []
              then yield_if (xTaskRemoveFromEventList (xTasksWaitingToReceive q) K)
              else Some (if xYieldRequired then taskYIELD K else K));
            Some (Return True, q, K) }
          else if xTicksToWait f = 0 then Some (Return False, q, K)
          else Some (Continue (note_time f K), q, K))
     | TestQueue \<Rightarrow> Some (Continue (f\<lparr>point := if prvIsQueueFull q then PlaceOnList else UnlockTx Retry\<rparr>), q, K)
     | PlaceOnList \<Rightarrow> do {
         K \<leftarrow> vTaskPlaceOnEventList (xTasksWaitingToSend q) (xTicksToWait f) K;
         Some (Continue (f\<lparr>point := UnlockTx Blocked\<rparr>), q, K) }
     | Expired \<Rightarrow> Some (Return False, q, K)
     | _ \<Rightarrow> keep_waiting f q K)"

definition xQueueReceive :: "call_frame \<Rightarrow> queue \<Rightarrow> kernel \<Rightarrow> (bytes option progress \<times> queue \<times> kernel) option" where
  "xQueueReceive f q K = (case point f of
       Attempt \<Rightarrow>
         (let n = uxMessagesWaiting q
          in if 0 < n
             then do {
               (xs, q) \<leftarrow> prvCopyDataFromQueue q;
               let q = q\<lparr>uxMessagesWaiting := n - 1\<rparr>;
               K \<leftarrow> yield_if (unblock_one (xTasksWaitingToSend q) K);
               Some (Return (Some xs), q, K) }
             else if xTicksToWait f = 0 then Some (Return None, q, K)
             else Some (Continue (note_time f K), q, K))
     | TestQueue \<Rightarrow> Some (Continue (f\<lparr>point := if prvIsQueueEmpty q then PlaceOnList else UnlockTx Retry\<rparr>), q, K)
     | PlaceOnList \<Rightarrow> do {
         K \<leftarrow> vTaskPlaceOnEventList (xTasksWaitingToReceive q) (xTicksToWait f) K;
         Some (Continue (f\<lparr>point := UnlockTx Blocked\<rparr>), q, K) }
     | Expired \<Rightarrow> Some (if prvIsQueueEmpty q then Return None else Continue (f\<lparr>point := Attempt\<rparr>), q, K)
     | _ \<Rightarrow> keep_waiting f q K)"

definition xQueueSemaphoreTake :: "call_frame \<Rightarrow> queue \<Rightarrow> kernel \<Rightarrow> (bool progress \<times> queue \<times> kernel) option" where
  "xQueueSemaphoreTake f q K = (case point f of
       Attempt \<Rightarrow>
         (let n = uxMessagesWaiting q
          in if 0 < n
             then do {
               let q = q\<lparr>uxMessagesWaiting := n - 1\<rparr>;
               (q, K) \<leftarrow> (if is_mutex q
                 then do {
                   (_, c) \<leftarrow> semaphore_data (un q);
                   let (h, K) = pvTaskIncrementMutexHeldCount K;
                   Some (q\<lparr>un := SemaphoreData h c\<rparr>, K) }
                 else Some (q, K));
               K \<leftarrow> yield_if (unblock_one (xTasksWaitingToSend q) K);
               Some (Return True, q, K) }
             else if xTicksToWait f = 0 then Some (Return False, q, K)
             else Some (Continue (note_time f K), q, K))
     | TestQueue \<Rightarrow> Some (Continue (f\<lparr>point :=
         if prvIsQueueEmpty q then (if is_mutex q then Inherit else PlaceOnList) else UnlockTx Retry\<rparr>), q, K)
     | Inherit \<Rightarrow> do {
         (h, _) \<leftarrow> semaphore_data (un q);
         (r, K) \<leftarrow> xTaskPriorityInherit h K;
         Some (Continue (f\<lparr>point := PlaceOnList, xInheritanceOccurred := r\<rparr>), q, K) }
     | PlaceOnList \<Rightarrow> do {
         K \<leftarrow> vTaskPlaceOnEventList (xTasksWaitingToReceive q) (xTicksToWait f) K;
         Some (Continue (f\<lparr>point := UnlockTx Blocked\<rparr>), q, K) }
     | Expired \<Rightarrow> Some (if prvIsQueueEmpty q
         then (if xInheritanceOccurred f then Continue (f\<lparr>point := Disinherit\<rparr>) else Return False)
         else Continue (f\<lparr>point := Attempt\<rparr>), q, K)
     | Disinherit \<Rightarrow> do {
         (h, _) \<leftarrow> semaphore_data (un q);
         K \<leftarrow> vTaskPriorityDisinheritAfterTimeout h (prvGetDisinheritPriorityAfterTimeout q K) K;
         Some (Return False, q, K) }
     | _ \<Rightarrow> keep_waiting f q K)"

definition xQueuePeek :: "call_frame \<Rightarrow> queue \<Rightarrow> kernel \<Rightarrow> (bytes option progress \<times> queue \<times> kernel) option" where
  "xQueuePeek f q K = (case point f of
       Attempt \<Rightarrow>
         (if 0 < uxMessagesWaiting q
          then do {
            (t, r) \<leftarrow> queue_pointers (un q);
            (xs, q) \<leftarrow> prvCopyDataFromQueue q;
            let q = q\<lparr>un := QueuePointers t r\<rparr>;
            K \<leftarrow> yield_if (unblock_one (xTasksWaitingToReceive q) K);
            Some (Return (Some xs), q, K) }
          else if xTicksToWait f = 0 then Some (Return None, q, K)
          else Some (Continue (note_time f K), q, K))
     | TestQueue \<Rightarrow> Some (Continue (f\<lparr>point := if prvIsQueueEmpty q then PlaceOnList else UnlockTx Retry\<rparr>), q, K)
     | PlaceOnList \<Rightarrow> do {
         K \<leftarrow> vTaskPlaceOnEventList (xTasksWaitingToReceive q) (xTicksToWait f) K;
         Some (Continue (f\<lparr>point := UnlockTx Blocked\<rparr>), q, K) }
     | Expired \<Rightarrow> Some (if prvIsQueueEmpty q then Return None else Continue (f\<lparr>point := Attempt\<rparr>), q, K)
     | _ \<Rightarrow> keep_waiting f q K)"

section \<open>Mutexes\<close>

definition prvInitialiseMutex :: "queue \<Rightarrow> kernel \<Rightarrow> (queue \<times> kernel) option" where
  "prvInitialiseMutex q K = do {
     let q = q\<lparr>un := SemaphoreData NULL 0, pcHead := 0\<rparr>;
     (_, q, K) \<leftarrow> xQueueGenericSend [] queueSEND_TO_BACK (call_start (vTaskInternalSetTimeOutState K) 0) q K;
     Some (q, K) }"

definition xQueueGetMutexHolder :: "queue \<Rightarrow> tid option" where
  "xQueueGetMutexHolder q = (if is_mutex q then map_option fst (semaphore_data (un q)) else Some NULL)"

definition xQueueGetMutexHolderFromISR :: "queue \<Rightarrow> tid option" where
  "xQueueGetMutexHolderFromISR q = (if is_mutex q then map_option fst (semaphore_data (un q)) else Some NULL)"

text \<open>\<open>queueMUTEX_GIVE_BLOCK_TIME\<close> is 0: the send returns from its first attempt.\<close>

definition xQueueGiveMutexRecursive :: "queue \<Rightarrow> kernel \<Rightarrow> (bool \<times> queue \<times> kernel) option" where
  "xQueueGiveMutexRecursive q K = do {
     (h, c) \<leftarrow> semaphore_data (un q);
     if h = pxCurrentTCB K
     then do {
       let q = q\<lparr>un := SemaphoreData h (c - 1)\<rparr>;
       (q, K) \<leftarrow> (if c - 1 = 0
         then map_option snd (xQueueGenericSend [] queueSEND_TO_BACK (call_start (vTaskInternalSetTimeOutState K) 0) q K)
         else Some (q, K));
       Some (True, q, K) }
     else Some (False, q, K) }"

text \<open>Taking a mutex that the task does not hold yet is \<open>xQueueSemaphoreTake\<close>, counted when it succeeds.\<close>

definition xQueueTakeMutexRecursive :: "call_frame \<Rightarrow> queue \<Rightarrow> kernel \<Rightarrow> (bool progress \<times> queue \<times> kernel) option" where
  "xQueueTakeMutexRecursive f q K = do {
     (h, c) \<leftarrow> semaphore_data (un q);
     if point f = Attempt \<and> \<not> xEntryTimeSet f \<and> h = pxCurrentTCB K
     then Some (Return True, q\<lparr>un := SemaphoreData h (c + 1)\<rparr>, K)
     else do {
       (r, q, K) \<leftarrow> xQueueSemaphoreTake f q K;
       if r = Return True
       then do { (h, c) \<leftarrow> semaphore_data (un q); Some (r, q\<lparr>un := SemaphoreData h (c + 1)\<rparr>, K) }
       else Some (r, q, K) } }"

section \<open>The ring buffer as a list of items\<close>

text \<open>Memory as an array of blocks of \<open>s\<close> bytes.\<close>

definition slot :: "bytes \<Rightarrow> nat \<Rightarrow> nat \<Rightarrow> bytes" where
  "slot b s k = take s (drop (k * s) b)"

lemma storage_end: "k < l \<Longrightarrow> k * s + s \<le> l * (s :: nat)"
  using mult_le_mono1 [of "Suc k" l s] by simp

lemma slot_update:
  assumes "length b = l * s" "k < l" "length x = s" "j < l"
  shows "slot (take (k * s) b @ x @ drop (k * s + s) b) s j = (if j = k then x else slot b s j)"
proof -
  define m n where "m = j * s" and "n = k * s"
  have b: "n + s \<le> length b" "m + s \<le> length b"
    using storage_end [OF assms(2), of s] storage_end [OF assms(4), of s] assms(1) by (simp_all add: m_def n_def)
  have "take s (drop m (take n b @ x @ drop (n + s) b)) = (if j = k then x else take s (drop m b))"
  proof (cases j k rule: linorder_cases)
    case less
    have "m + s \<le> n" using storage_end [OF less, of s] by (simp add: m_def n_def)
    then show ?thesis using less b by (simp add: drop_take min.absorb1)
  next
    case equal then show ?thesis using b assms(3) by (simp add: m_def n_def min.absorb2)
  next
    case greater
    have "n + s \<le> m" using storage_end [OF greater, of s] by (simp add: m_def n_def)
    then show ?thesis using greater b assms(3) by (simp add: min.absorb2)
  qed
  then show ?thesis by (simp add: slot_def m_def n_def)
qed

lemma ring_advance: "k < l \<Longrightarrow> (if Suc k = l then 0 else Suc k) = Suc k mod l"
  by auto

lemma ring_distinct:
  assumes "i < n" "n < (l :: nat)" shows "(a + i) mod l \<noteq> (a + n) mod l"
proof
  assume "(a + i) mod l = (a + n) mod l"
  then have "l dvd (a + n) - (a + i)" using assms by (metis add_le_cancel_left less_imp_le mod_eq_dvd_iff_nat)
  then have "l dvd n - i" by simp
  then show False using assms nat_dvd_not_less [of "n - i" l] by simp
qed

lemma ring_shift: "(Suc r mod l + i) mod l = (Suc r + i) mod (l :: nat)"
  by (simp add: mod_add_left_eq)

text \<open>
  \<open>slot_addr q k\<close> is the address of slot \<open>k\<close>. The read pointer stands on the slot read last, the
  items follow it around the ring, and the write pointer is behind the last of them.
\<close>

abbreviation isize :: "queue \<Rightarrow> nat" where "isize q \<equiv> unat (uxItemSize q)"
abbreviation capacity :: "queue \<Rightarrow> nat" where "capacity q \<equiv> unat (uxLength q)"
abbreviation fill :: "queue \<Rightarrow> nat" where "fill q \<equiv> unat (uxMessagesWaiting q)"

definition slot_addr :: "queue \<Rightarrow> nat \<Rightarrow> u32" where
  "slot_addr q k = pcHead q + of_nat (k * isize q)"

definition room_ok :: "queue \<Rightarrow> bool" where
  "room_ok q \<longleftrightarrow> 0 < capacity q \<and> 0 < isize q \<and> length (storage q) = capacity q * isize q \<and>
     unat (pcHead q) + capacity q * isize q < 2 ^ 32 \<and> isize q \<le> unat (pcHead q)"

definition ring_ok :: "queue \<Rightarrow> nat \<Rightarrow> bool" where
  "ring_ok q r \<longleftrightarrow> room_ok q \<and> r < capacity q \<and> fill q \<le> capacity q \<and>
     un q = QueuePointers (slot_addr q (capacity q)) (slot_addr q r) \<and>
     pcWriteTo q = slot_addr q ((Suc r + fill q) mod capacity q)"

definition queue_ok :: "queue \<Rightarrow> bool" where
  "queue_ok q \<longleftrightarrow> (\<exists>r. ring_ok q r)"

definition ring_items :: "queue \<Rightarrow> nat \<Rightarrow> bytes list" where
  "ring_items q r = map (\<lambda>i. slot (storage q) (isize q) ((Suc r + i) mod capacity q)) [0..<fill q]"

definition contents :: "queue \<Rightarrow> bytes list" where
  "contents q = ring_items q (unat (pcReadFrom (un q) - pcHead q) div isize q)"

lemma unat_slot_addr:
  assumes "room_ok q" "k \<le> capacity q"
  shows "unat (slot_addr q k) = unat (pcHead q) + k * isize q"
proof -
  have "k * isize q \<le> capacity q * isize q" using assms(2) by simp
  then have "unat (pcHead q) + k * isize q < 2 ^ 32" using assms(1) unfolding room_ok_def by linarith
  then show ?thesis unfolding slot_addr_def
    by (subst unat_add_lem [THEN iffD1]) (simp_all add: unsigned_of_nat take_bit_nat_eq_self del: of_nat_mult)
qed

lemma slot_offset:
  assumes "room_ok q" "k \<le> capacity q"
  shows "unat (slot_addr q k - pcHead q) = k * isize q"
proof -
  have "k * isize q \<le> capacity q * isize q" using assms(2) by simp
  then have "k * isize q < 2 ^ 32" using assms(1) unfolding room_ok_def by linarith
  then show ?thesis unfolding slot_addr_def by (simp add: unsigned_of_nat take_bit_nat_eq_self del: of_nat_mult)
qed

lemma slot_addr_le:
  assumes "room_ok q" "j \<le> capacity q" "k \<le> capacity q"
  shows "slot_addr q j \<le> slot_addr q k \<longleftrightarrow> j \<le> k"
  using assms by (simp add: word_le_nat_alt unat_slot_addr room_ok_def)

lemma slot_addr_Suc: "slot_addr q k + uxItemSize q = slot_addr q (Suc k)"
  by (simp add: slot_addr_def algebra_simps)

lemma slot_addr_0 [simp]: "slot_addr q 0 = pcHead q"
  by (simp add: slot_addr_def)

lemma slot_addr_back: "slot_addr q (Suc k) - uxItemSize q = slot_addr q k"
  by (simp flip: slot_addr_Suc)

text \<open>Moving a pointer on by one item, and back by one.\<close>

lemma advance:
  assumes "room_ok q" "k < capacity q"
  shows "(if slot_addr q (capacity q) \<le> slot_addr q k + uxItemSize q then pcHead q else slot_addr q k + uxItemSize q) =
    slot_addr q (Suc k mod capacity q)"
  using assms slot_addr_le [OF assms(1), of "capacity q" "Suc k"]
  by (cases "Suc k = capacity q") (auto simp: slot_addr_Suc)

lemma retreat:
  assumes "room_ok q" "k < capacity q"
  shows "(if slot_addr q k - uxItemSize q < pcHead q then slot_addr q (capacity q) - uxItemSize q else slot_addr q k - uxItemSize q) =
    slot_addr q ((k + capacity q - 1) mod capacity q)"
proof (cases k)
  case 0
  have "unat (pcHead q - uxItemSize q) < unat (pcHead q)"
    using assms(1) by (simp add: room_ok_def unat_sub_if_size word_size split: if_splits) 
  then have "pcHead q - uxItemSize q < pcHead q" by (simp add: word_less_nat_alt)
  moreover obtain l where "capacity q = Suc l" using assms(2) by (cases "capacity q") auto
  ultimately show ?thesis using 0 by (simp add: slot_addr_back)
next
  case (Suc j)
  have "\<not> slot_addr q j < pcHead q" using slot_addr_le [OF assms(1), of 0 j] assms(2) Suc by (simp add: not_less)
  then show ?thesis using Suc assms(2) by (simp add: slot_addr_back)
qed

lemma ring_contents: "ring_ok q r \<Longrightarrow> contents q = ring_items q r"
  by (simp add: contents_def ring_ok_def slot_offset) (simp add: room_ok_def)

lemma length_contents [simp]: "length (contents q) = fill q"
  by (simp add: contents_def ring_items_def)


text \<open>What a copy leaves alone.\<close>

definition control :: "queue \<Rightarrow> u32 \<times> nat \<times> nat \<times> u32 \<times> u32 \<times> 8 word \<times> 8 word" where
  "control q = (pcHead q, xTasksWaitingToSend q, xTasksWaitingToReceive q, uxLength q, uxItemSize q, cRxLock q, cTxLock q)"

lemma control_fields:
  assumes "control q' = control q"
  shows "pcHead q' = pcHead q" "xTasksWaitingToSend q' = xTasksWaitingToSend q"
    "xTasksWaitingToReceive q' = xTasksWaitingToReceive q" "uxLength q' = uxLength q" "uxItemSize q' = uxItemSize q"
    "cRxLock q' = cRxLock q" "cTxLock q' = cTxLock q"
  using assms by (simp_all add: control_def)

lemma store_slot:
  assumes "room_ok q" "k < capacity q" "length x = isize q"
  shows "\<exists>b. store_item (slot_addr q k) x q = Some (q\<lparr>storage := b\<rparr>) \<and> length b = length (storage q) \<and>
    (\<forall>j < capacity q. slot b (isize q) j = (if j = k then x else slot (storage q) (isize q) j))"
proof -
  have l: "length (storage q) = capacity q * isize q" using assms(1) by (simp add: room_ok_def)
  let ?b = "take (k * isize q) (storage q) @ x @ drop (k * isize q + isize q) (storage q)"
  have "store_item (slot_addr q k) x q = Some (q\<lparr>storage := ?b\<rparr>)"
    using storage_end [OF assms(2), of "isize q"] assms(2,3) l
    by (simp add: store_item_def slot_offset [OF assms(1)] rd_bytes_def wr_bytes_def)
  moreover have "length ?b = length (storage q)" using storage_end [OF assms(2), of "isize q"] assms(3) l by simp
  ultimately show ?thesis using slot_update [OF l assms(2,3)] by blast
qed

lemma unat_plus1: "x < (y :: u32) \<Longrightarrow> unat (x + 1) = Suc (unat x)"
  by unat_arith

lemma unat_minus1: "0 < (x :: u32) \<Longrightarrow> unat (x - 1) = unat x - 1"
  by unat_arith

lemma ring_items_cong:
  assumes "fill q' = fill q" "isize q' = isize q" "capacity q' = capacity q"
    and "\<And>i. i < fill q \<Longrightarrow> slot (storage q') (isize q) ((Suc r' + i) mod capacity q) = slot (storage q) (isize q) ((Suc r + i) mod capacity q)"
  shows "ring_items q' r' = ring_items q r"
  using assms by (simp add: ring_items_def)

lemma send_back:
  assumes r: "ring_ok q r" and x: "length x = isize q" and n: "uxMessagesWaiting q < uxLength q"
  shows "\<exists>q'. prvCopyDataToQueue x queueSEND_TO_BACK q K = Some (False, q', K) \<and> ring_ok q' r \<and>
    control q' = control q \<and> contents q' = contents q @ [x]"
proof -
  have ok: "room_ok q" and w: "pcWriteTo q = slot_addr q ((Suc r + fill q) mod capacity q)"
    and u: "un q = QueuePointers (slot_addr q (capacity q)) (slot_addr q r)" and r': "r < capacity q"
    using r by (simp_all add: ring_ok_def)
  have c: "0 < capacity q" "isize q \<noteq> 0" "fill q < capacity q" using ok n by (auto simp: room_ok_def word_less_nat_alt)
  let ?k = "(Suc r + fill q) mod capacity q"
  have k: "?k < capacity q" using c by simp
  obtain b where b: "store_item (slot_addr q ?k) x q = Some (q\<lparr>storage := b\<rparr>)" "length b = length (storage q)"
    "\<And>j. j < capacity q \<Longrightarrow> slot b (isize q) j = (if j = ?k then x else slot (storage q) (isize q) j)"
    using store_slot [OF ok k x] by blast
  define q' where "q' = q\<lparr>storage := b, pcWriteTo := slot_addr q (Suc ?k mod capacity q), uxMessagesWaiting := uxMessagesWaiting q + 1\<rparr>"
  have e: "prvCopyDataToQueue x queueSEND_TO_BACK q K = Some (False, q', K)"
    using c(2) advance [OF ok k] b(1) by (simp add: prvCopyDataToQueue_def w u q'_def unat_eq_zero Let_def cong: if_cong)
  have f: "isize q' = isize q" "capacity q' = capacity q" "fill q' = Suc (fill q)" "storage q' = b" "slot_addr q' j = slot_addr q j"
    "control q' = control q" for j
    by (simp_all add: q'_def unat_plus1 [OF n] slot_addr_def control_def)
  have "ring_ok q' r"
    using r' c(3) ok b(2) f by (simp add: ring_ok_def room_ok_def u) (simp add: q'_def u mod_Suc_eq)
  moreover have "ring_items q' r = ring_items q r @ [x]"
    using b(3) [OF k] by (auto simp: ring_items_def f c(1) b(3) ring_distinct [OF _ c(3), of _ "Suc r", simplified])
  ultimately show ?thesis using e f(6) r by (auto simp: ring_contents)
qed


lemma back_and_forth: "r < l \<Longrightarrow> Suc ((r + l - 1) mod l) mod l = (r :: nat)"
  by (cases r) (auto simp: mod_Suc_eq)

lemma send_front:
  assumes r: "ring_ok q r" and x: "length x = isize q" and n: "uxMessagesWaiting q < uxLength q"
  shows "\<exists>q'. prvCopyDataToQueue x queueSEND_TO_FRONT q K = Some (False, q', K) \<and> queue_ok q' \<and>
    control q' = control q \<and> contents q' = x # contents q"
proof -
  let ?r = "(r + capacity q - 1) mod capacity q"
  have ok: "room_ok q" and w: "pcWriteTo q = slot_addr q ((Suc r + fill q) mod capacity q)"
    and u: "un q = QueuePointers (slot_addr q (capacity q)) (slot_addr q r)" and r': "r < capacity q"
    using r by (simp_all add: ring_ok_def)
  have c: "0 < capacity q" "isize q \<noteq> 0" "fill q < capacity q" using ok n by (auto simp: room_ok_def word_less_nat_alt)
  note rr = back_and_forth [OF r']
  obtain b where b: "store_item (slot_addr q r) x q = Some (q\<lparr>storage := b\<rparr>)" "length b = length (storage q)"
    "\<And>j. j < capacity q \<Longrightarrow> slot b (isize q) j = (if j = r then x else slot (storage q) (isize q) j)"
    using store_slot [OF ok r' x] by blast
  define q' where "q' = q\<lparr>storage := b, un := QueuePointers (slot_addr q (capacity q)) (slot_addr q ?r), uxMessagesWaiting := uxMessagesWaiting q + 1\<rparr>"
  have e: "prvCopyDataToQueue x queueSEND_TO_FRONT q K = Some (False, q', K)"
    using c(2) retreat [OF ok r'] b(1) by (simp add: prvCopyDataToQueue_def u q'_def unat_eq_zero Let_def cong: if_cong)
  have f: "isize q' = isize q" "capacity q' = capacity q" "fill q' = Suc (fill q)" "storage q' = b" "slot_addr q' j = slot_addr q j"
    "control q' = control q" for j
    by (simp_all add: q'_def unat_plus1 [OF n] slot_addr_def control_def)
  have s: "(Suc ?r + i) mod capacity q = (r + i) mod capacity q" for i
    using mod_add_left_eq [of "Suc ?r" "capacity q" i] rr by simp
  have "(Suc ?r + Suc (fill q)) mod capacity q = (Suc r + fill q) mod capacity q" unfolding s by simp
  then have ok': "ring_ok q' ?r"
    using c ok b(2) f by (simp add: ring_ok_def room_ok_def) (simp add: q'_def w)
  have i: "(r + Suc i) mod capacity q \<noteq> r" if "i < fill q" for i
    using ring_distinct [of 0 "Suc i" "capacity q" r] that c(3) r' by auto
  have "ring_items q' ?r = x # ring_items q r"
    unfolding ring_items_def f upt_conv_Cons [OF zero_less_Suc] list.map(2) s map_Suc_upt [symmetric] map_map
    using r' b(3) i c(1) by (auto simp: s)
  then show ?thesis using e f(6) r ok' by (auto simp: ring_contents queue_ok_def)
qed

lemma send_overwrite:
  assumes r: "ring_ok q r" and x: "length x = isize q" and n: "uxLength q = 1"
  shows "\<exists>q'. prvCopyDataToQueue x queueOVERWRITE q K = Some (False, q', K) \<and> queue_ok q' \<and>
    control q' = control q \<and> contents q' = [x]"
proof -
  have c: "capacity q = 1" "r = 0" "fill q \<le> 1" and ok: "room_ok q" and w: "pcWriteTo q = slot_addr q 0"
    and u: "un q = QueuePointers (slot_addr q 1) (slot_addr q 0)" and s: "isize q \<noteq> 0"
    using r n by (auto simp: ring_ok_def room_ok_def)
  obtain b where b: "store_item (slot_addr q 0) x q = Some (q\<lparr>storage := b\<rparr>)" "length b = length (storage q)"
    "slot b (isize q) 0 = x"
    using store_slot [OF ok, of 0 x] c(1) x by auto
  define q' where "q' = q\<lparr>storage := b, un := QueuePointers (slot_addr q 1) (slot_addr q 0), uxMessagesWaiting := 1\<rparr>"
  have m: "uxMessagesWaiting q = 0 \<or> uxMessagesWaiting q = 1" using c(3) by (metis One_nat_def le_Suc_eq le_zero_eq unat_1 unat_eq_zero word_unat_eq_iff)
  have e: "prvCopyDataToQueue x queueOVERWRITE q K = Some (False, q', K)"
    using s m retreat [OF ok, of 0] b(1) c(1) by (auto simp: prvCopyDataToQueue_def u q'_def unat_eq_zero Let_def cong: if_cong)
  have f: "isize q' = isize q" "capacity q' = 1" "fill q' = 1" "storage q' = b" "slot_addr q' j = slot_addr q j" "control q' = control q" for j
    using c(1) by (simp_all add: q'_def slot_addr_def control_def)
  have "ring_ok q' 0" using ok b(2) f c(1) by (simp add: ring_ok_def room_ok_def) (simp add: q'_def w)
  moreover have "ring_items q' 0 = [x]" by (simp add: ring_items_def f b(3))
  ultimately show ?thesis using e f(6) by (auto simp: ring_contents queue_ok_def)
qed

text \<open>Reading: the items are not moved, the read pointer is. Peeking puts it back.\<close>

lemma copy_from:
  assumes r: "ring_ok q r" and n: "0 < uxMessagesWaiting q"
  shows "prvCopyDataFromQueue q = Some (hd (contents q), q\<lparr>un := QueuePointers (slot_addr q (capacity q)) (slot_addr q (Suc r mod capacity q))\<rparr>)"
    "contents q \<noteq> []"
proof -
  have ok: "room_ok q" and u: "un q = QueuePointers (slot_addr q (capacity q)) (slot_addr q r)" and r': "r < capacity q"
    using r by (simp_all add: ring_ok_def)
  have c: "0 < capacity q" "isize q \<noteq> 0" "0 < fill q" using ok n by (auto simp: room_ok_def word_less_nat_alt)
  have k: "Suc r mod capacity q < capacity q" using c by simp
  have "length (storage q) = capacity q * isize q" using ok by (simp add: room_ok_def)
  moreover have "hd (contents q) = slot (storage q) (isize q) (Suc r mod capacity q)"
    using c(3) by (simp add: ring_contents [OF r] ring_items_def hd_map)
  ultimately show "prvCopyDataFromQueue q = Some (hd (contents q), q\<lparr>un := QueuePointers (slot_addr q (capacity q)) (slot_addr q (Suc r mod capacity q))\<rparr>)"
    using c(2) advance [OF ok r'] storage_end [OF k, of "isize q"] k
    by (simp add: prvCopyDataFromQueue_def u unat_eq_zero Let_def rd_bytes_def slot_offset [OF ok] slot_def cong: if_cong)
  show "contents q \<noteq> []" using c(3) length_contents [of q] by (metis list.size(3) less_irrefl)
qed

lemma receive_item:
  assumes r: "ring_ok q r" and n: "0 < uxMessagesWaiting q"
  shows "\<exists>q'. prvCopyDataFromQueue q = Some (hd (contents q), q') \<and> queue_ok (q'\<lparr>uxMessagesWaiting := uxMessagesWaiting q - 1\<rparr>) \<and>
    control q' = control q \<and> contents (q'\<lparr>uxMessagesWaiting := uxMessagesWaiting q - 1\<rparr>) = tl (contents q)"
proof -
  let ?r = "Suc r mod capacity q"
  define q' where "q' = q\<lparr>un := QueuePointers (slot_addr q (capacity q)) (slot_addr q ?r), uxMessagesWaiting := uxMessagesWaiting q - 1\<rparr>"
  have ok: "room_ok q" and w: "pcWriteTo q = slot_addr q ((Suc r + fill q) mod capacity q)" and c: "fill q \<le> capacity q"
    using r by (simp_all add: ring_ok_def)
  obtain m where m: "fill q = Suc m" using n by (cases "fill q") (auto simp: word_less_nat_alt)
  have f: "isize q' = isize q" "capacity q' = capacity q" "fill q' = m" "storage q' = storage q" "slot_addr q' j = slot_addr q j" for j
    using m by (simp_all add: q'_def unat_minus1 [OF n] slot_addr_def)
  have s: "(Suc ?r + i) mod capacity q = (Suc r + Suc i) mod capacity q" for i
    using mod_add_left_eq [of "Suc r" "capacity q" "Suc i"] by simp
  have "ring_ok q' ?r" unfolding ring_ok_def f s m [symmetric]
    using ok c m by (simp add: room_ok_def f) (simp add: q'_def w)
  moreover have "ring_items q' ?r = tl (ring_items q r)"
    unfolding ring_items_def f m upt_conv_Cons [OF zero_less_Suc] list.map(2) list.sel s map_Suc_upt [symmetric] map_map
    by (simp add: comp_def)
  ultimately show ?thesis using copy_from(1) [OF r n] r
    by (auto simp: ring_contents queue_ok_def q'_def control_def)
qed


section \<open>First in, first out\<close>

text \<open>
  What a bounded queue promises its clients, over the sequence of items it holds. There may be several
  ways to send (\<open>'p\<close>) and to receive (\<open>'g\<close>). \<open>traffic\<close> is a sequence of sends and receives, with the
  items accepted and those handed out.
\<close>

datatype ('p, 'g) traffic_op = Put 'p | Get 'g

fun traffic :: "('p \<Rightarrow> 's \<Rightarrow> (bool \<times> 's) option) \<Rightarrow> ('g \<Rightarrow> 's \<Rightarrow> ('a option \<times> 's) option) \<Rightarrow> ('p \<Rightarrow> 'a) \<Rightarrow>
    ('p, 'g) traffic_op list \<Rightarrow> 's \<Rightarrow> ('a list \<times> 'a list \<times> 's) option" where
  "traffic put get payload [] s = Some ([], [], s)"
| "traffic put get payload (Put p # ops) s = do {
     (accepted, s) \<leftarrow> put p s;
     (ins, outs, s) \<leftarrow> traffic put get payload ops s;
     Some (if accepted then payload p # ins else ins, outs, s) }"
| "traffic put get payload (Get g # ops) s = do {
     (r, s) \<leftarrow> get g s;
     (ins, outs, s) \<leftarrow> traffic put get payload ops s;
     Some (ins, case r of None \<Rightarrow> outs | Some y \<Rightarrow> y # outs, s) }"

locale bounded_fifo =
  fixes ok :: "'s \<Rightarrow> bool" and content :: "'s \<Rightarrow> 'a list" and room :: "'s \<Rightarrow> nat" and fits :: "'s \<Rightarrow> 'a \<Rightarrow> bool"
    and put :: "'p \<Rightarrow> 's \<Rightarrow> (bool \<times> 's) option" and get :: "'g \<Rightarrow> 's \<Rightarrow> ('a option \<times> 's) option" and payload :: "'p \<Rightarrow> 'a"
  assumes bounded: "ok s \<Longrightarrow> length (content s) \<le> room s"
    and put_full: "ok s \<Longrightarrow> fits s (payload p) \<Longrightarrow> length (content s) = room s \<Longrightarrow>
      \<exists>s'. put p s = Some (False, s') \<and> ok s' \<and> content s' = content s \<and> room s' = room s \<and> fits s' = fits s"
    and put_room: "ok s \<Longrightarrow> fits s (payload p) \<Longrightarrow> length (content s) < room s \<Longrightarrow>
      \<exists>s'. put p s = Some (True, s') \<and> ok s' \<and> content s' = content s @ [payload p] \<and> room s' = room s \<and> fits s' = fits s"
    and get_empty: "ok s \<Longrightarrow> content s = [] \<Longrightarrow>
      \<exists>s'. get g s = Some (None, s') \<and> ok s' \<and> content s' = [] \<and> room s' = room s \<and> fits s' = fits s"
    and get_item: "ok s \<Longrightarrow> content s = y # ys \<Longrightarrow>
      \<exists>s'. get g s = Some (Some y, s') \<and> ok s' \<and> content s' = ys \<and> room s' = room s \<and> fits s' = fits s"
begin

lemma put_any:
  assumes ok: "ok s" and x: "fits s (payload p)"
  shows "\<exists>b s1. put p s = Some (b, s1) \<and> ok s1 \<and> content s1 = content s @ (if b then [payload p] else []) \<and>
    room s1 = room s \<and> fits s1 = fits s"
proof (cases "length (content s) = room s")
  case True
  from put_full [OF ok x this] show ?thesis by (intro exI [of _ False]) simp
next
  case False
  then have "length (content s) < room s" using bounded [OF ok] by simp
  from put_room [OF ok x this] show ?thesis by (intro exI [of _ True]) simp
qed

lemma get_any:
  assumes ok: "ok s"
  shows "\<exists>r s1. get g s = Some (r, s1) \<and> ok s1 \<and> content s = (case r of None \<Rightarrow> [] | Some y \<Rightarrow> [y]) @ content s1 \<and>
    room s1 = room s \<and> fits s1 = fits s"
  using get_empty [OF ok] get_item [OF ok] by (cases "content s") fastforce+

lemma traffic_order:
  assumes "ok s" "\<And>p. Put p \<in> set ops \<Longrightarrow> fits s (payload p)"
  shows "\<exists>ins outs s'. traffic put get payload ops s = Some (ins, outs, s') \<and> ok s' \<and>
    content s @ ins = outs @ content s' \<and> length (content s') \<le> room s \<and> room s' = room s"
  using assms
proof (induction ops arbitrary: s)
  case Nil
  then show ?case using bounded by auto
next
  case (Cons v ops)
  note IH = Cons.IH and ok = Cons.prems(1)
  show ?case
  proof (cases v)
    case (Put p)
    with Cons.prems have x: "fits s (payload p)" and i: "\<And>p. Put p \<in> set ops \<Longrightarrow> fits s (payload p)" by auto
    obtain b s1 where s1: "put p s = Some (b, s1)" "ok s1" "content s1 = content s @ (if b then [payload p] else [])"
      "room s1 = room s" "fits s1 = fits s" using put_any [OF ok x] by blast
    obtain ins outs s' where "traffic put get payload ops s1 = Some (ins, outs, s')" "ok s'" "content s1 @ ins = outs @ content s'"
      "length (content s') \<le> room s1" "room s' = room s1"
      using IH [OF s1(2)] i s1(5) by metis
    then show ?thesis using s1 Put by (cases b) auto
  next
    case (Get g)
    obtain r s1 where s1: "get g s = Some (r, s1)" "ok s1" "content s = (case r of None \<Rightarrow> [] | Some y \<Rightarrow> [y]) @ content s1"
      "room s1 = room s" "fits s1 = fits s" using get_any [OF ok] by blast
    obtain ins outs s' where "traffic put get payload ops s1 = Some (ins, outs, s')" "ok s'" "content s1 @ ins = outs @ content s'"
      "length (content s') \<le> room s1" "room s' = room s1"
      using IH [OF s1(2)] Cons.prems(2) s1(5) by (metis list.set_intros(2))
    then show ?thesis using s1 Get by (cases r) auto
  qed
qed

end

lemma locks_irrelevant [simp]:
  "contents (q\<lparr>cTxLock := c\<rparr>) = contents q" "contents (q\<lparr>cRxLock := c\<rparr>) = contents q"
  "queue_ok (q\<lparr>cTxLock := c\<rparr>) = queue_ok q" "queue_ok (q\<lparr>cRxLock := c\<rparr>) = queue_ok q"
  by (simp_all add: contents_def ring_items_def queue_ok_def ring_ok_def room_ok_def slot_addr_def)

lemma unblock_one_ok: "kernel_ok K \<Longrightarrow> keeps (unblock_one e K)"
  using xTaskRemoveFromEventList_ok by (simp add: unblock_one_def)

lemma yield_if_ok: "keeps m \<Longrightarrow> returns (yield_if m) kernel_ok"
  by (auto simp: yield_if_def elim!: returns_mono)

lemma contents_full: "queue_ok q \<Longrightarrow> length (contents q) < capacity q \<longleftrightarrow> uxMessagesWaiting q < uxLength q"
  by (simp add: word_less_nat_alt)

lemma contents_some: "0 < uxMessagesWaiting q \<longleftrightarrow> contents q \<noteq> []"
  by (simp add: word_less_nat_alt flip: length_greater_0_conv)

lemma queue_bounded: "queue_ok q \<Longrightarrow> length (contents q) \<le> capacity q"
  by (auto simp: queue_ok_def ring_ok_def)

text \<open>The calls from interrupts, and the calls from tasks that do not wait.\<close>

definition isr_put :: "bytes \<Rightarrow> queue \<times> kernel \<Rightarrow> (bool \<times> queue \<times> kernel) option" where
  "isr_put x s = map_option (\<lambda>(r, _, s). (r, s)) (xQueueGenericSendFromISR x queueSEND_TO_BACK (fst s) (snd s))"

definition isr_get :: "queue \<times> kernel \<Rightarrow> (bytes option \<times> queue \<times> kernel) option" where
  "isr_get s = map_option (\<lambda>(r, _, s). (r, s)) (xQueueReceiveFromISR (fst s) (snd s))"

fun returned :: "('a progress \<times> 's) option \<Rightarrow> ('a \<times> 's) option" where
  "returned (Some (Return x, s)) = Some (x, s)"
| "returned _ = None"

definition poll_put :: "bytes \<Rightarrow> queue \<times> kernel \<Rightarrow> (bool \<times> queue \<times> kernel) option" where
  "poll_put x s = returned (xQueueGenericSend x queueSEND_TO_BACK (call_start (vTaskInternalSetTimeOutState (snd s)) 0) (fst s) (snd s))"

definition poll_get :: "queue \<times> kernel \<Rightarrow> (bytes option \<times> queue \<times> kernel) option" where
  "poll_get s = returned (xQueueReceive (call_start (vTaskInternalSetTimeOutState (snd s)) 0) (fst s) (snd s))"

definition both_ok :: "queue \<times> kernel \<Rightarrow> bool" where
  "both_ok s \<longleftrightarrow> queue_ok (fst s) \<and> kernel_ok (snd s)"

lemma isr_put_room:
  assumes "queue_ok q" "kernel_ok K" "length x = isize q" "uxMessagesWaiting q < uxLength q"
  shows "\<exists>q' K'. isr_put x (q, K) = Some (True, q', K') \<and> queue_ok q' \<and> kernel_ok K' \<and> contents q' = contents q @ [x] \<and>
    uxLength q' = uxLength q \<and> uxItemSize q' = uxItemSize q"
proof -
  obtain r where r: "ring_ok q r" using assms(1) by (auto simp: queue_ok_def)
  obtain q' where q': "prvCopyDataToQueue x queueSEND_TO_BACK q K = Some (False, q', K)" "queue_ok q'" "control q' = control q"
    "contents q' = contents q @ [x]"
    using send_back [OF r assms(3,4), of K] by (auto simp: queue_ok_def)
  note c = control_fields [OF q'(3)]
  obtain sw K' where "unblock_one (xTasksWaitingToReceive q') K = Some (sw, K')" "kernel_ok K'"
    using unblock_one_ok [OF assms(2)] unfolding returns_def by fast
  then show ?thesis using q' assms(2,4) c by (cases "cTxLock q = queueUNLOCKED") (auto simp: isr_put_def xQueueGenericSendFromISR_def Let_def)
qed

lemma isr_get_item:
  assumes "queue_ok q" "kernel_ok K" "0 < uxMessagesWaiting q"
  shows "\<exists>q' K'. isr_get (q, K) = Some (Some (hd (contents q)), q', K') \<and> queue_ok q' \<and> kernel_ok K' \<and> contents q' = tl (contents q) \<and>
    uxLength q' = uxLength q \<and> uxItemSize q' = uxItemSize q"
proof -
  obtain r where r: "ring_ok q r" using assms(1) by (auto simp: queue_ok_def)
  obtain q1 where q1: "prvCopyDataFromQueue q = Some (hd (contents q), q1)" "control q1 = control q"
    "queue_ok (q1\<lparr>uxMessagesWaiting := uxMessagesWaiting q - 1\<rparr>)" "contents (q1\<lparr>uxMessagesWaiting := uxMessagesWaiting q - 1\<rparr>) = tl (contents q)"
    using receive_item [OF r assms(3)] by blast
  note c = control_fields [OF q1(2)]
  obtain sw K' where "unblock_one (xTasksWaitingToSend q) K = Some (sw, K')" "kernel_ok K'"
    using unblock_one_ok [OF assms(2)] unfolding returns_def by fast
  then show ?thesis using q1 assms(2,3) c by (cases "cRxLock q = queueUNLOCKED") (auto simp: isr_get_def xQueueReceiveFromISR_def Let_def)
qed

lemma poll_put_room:
  assumes "queue_ok q" "kernel_ok K" "length x = isize q" "uxMessagesWaiting q < uxLength q"
  shows "\<exists>q' K'. poll_put x (q, K) = Some (True, q', K') \<and> queue_ok q' \<and> kernel_ok K' \<and> contents q' = contents q @ [x] \<and>
    uxLength q' = uxLength q \<and> uxItemSize q' = uxItemSize q"
proof -
  obtain r where r: "ring_ok q r" using assms(1) by (auto simp: queue_ok_def)
  obtain q' where q': "prvCopyDataToQueue x queueSEND_TO_BACK q K = Some (False, q', K)" "queue_ok q'" "control q' = control q"
    "contents q' = contents q @ [x]"
    using send_back [OF r assms(3,4), of K] by (auto simp: queue_ok_def)
  note c = control_fields [OF q'(3)]
  let ?w = "if events K (xTasksWaitingToReceive q) \<noteq> [] then yield_if (xTaskRemoveFromEventList (xTasksWaitingToReceive q) K) else Some K"
  have "returns ?w kernel_ok" using yield_if_ok xTaskRemoveFromEventList_ok [OF assms(2)] assms(2) by simp
  then obtain K' where "?w = Some K'" "kernel_ok K'" by (rule returnsE)
  then show ?thesis using q' assms(4) c by (simp add: poll_put_def xQueueGenericSend_def call_start_def split: if_splits)
qed

lemma poll_get_item:
  assumes "queue_ok q" "kernel_ok K" "0 < uxMessagesWaiting q"
  shows "\<exists>q' K'. poll_get (q, K) = Some (Some (hd (contents q)), q', K') \<and> queue_ok q' \<and> kernel_ok K' \<and> contents q' = tl (contents q) \<and>
    uxLength q' = uxLength q \<and> uxItemSize q' = uxItemSize q"
proof -
  obtain r where r: "ring_ok q r" using assms(1) by (auto simp: queue_ok_def)
  obtain q1 where q1: "prvCopyDataFromQueue q = Some (hd (contents q), q1)" "control q1 = control q"
    "queue_ok (q1\<lparr>uxMessagesWaiting := uxMessagesWaiting q - 1\<rparr>)" "contents (q1\<lparr>uxMessagesWaiting := uxMessagesWaiting q - 1\<rparr>) = tl (contents q)"
    using receive_item [OF r assms(3)] by blast
  note c = control_fields [OF q1(2)]
  obtain K' where "yield_if (unblock_one (xTasksWaitingToSend q) K) = Some K'" "kernel_ok K'"
    using yield_if_ok [OF unblock_one_ok [OF assms(2)]] by (rule returnsE)
  then show ?thesis using q1 assms(3) c by (simp add: poll_get_def xQueueReceive_def call_start_def Let_def)
qed

text \<open>Sends and receives from interrupts (\<open>True\<close>) and from tasks that do not wait, in any order.\<close>

definition any_put :: "bool \<times> bytes \<Rightarrow> queue \<times> kernel \<Rightarrow> (bool \<times> queue \<times> kernel) option" where
  "any_put p s = (if fst p then isr_put (snd p) s else poll_put (snd p) s)"

definition any_get :: "bool \<Rightarrow> queue \<times> kernel \<Rightarrow> (bytes option \<times> queue \<times> kernel) option" where
  "any_get isr s = (if isr then isr_get s else poll_get s)"

lemma put_to_full:
  assumes "queue_ok q" "length (contents q) = capacity q"
  shows "any_put p (q, K) = Some (False, q, K)"
  using contents_full [OF assms(1)] assms(2)
  by (simp add: any_put_def isr_put_def xQueueGenericSendFromISR_def poll_put_def xQueueGenericSend_def call_start_def)

lemma get_from_empty:
  assumes "contents q = []"
  shows "any_get isr (q, K) = Some (None, q, K)"
  using contents_some [of q] assms
  by (simp add: any_get_def isr_get_def xQueueReceiveFromISR_def poll_get_def xQueueReceive_def call_start_def)

interpretation fifo: bounded_fifo both_ok "\<lambda>s. contents (fst s)" "\<lambda>s. capacity (fst s)" "\<lambda>s x. length x = isize (fst s)" any_put any_get snd
proof unfold_locales
  fix s :: "queue \<times> kernel" and p :: "bool \<times> bytes" and g :: bool
  obtain q K where s [simp]: "s = (q, K)" by fastforce
  assume "both_ok s"
  then have ok: "queue_ok q" "kernel_ok K" by (simp_all add: both_ok_def)
  show "length (contents (fst s)) \<le> capacity (fst s)" using queue_bounded [OF ok(1)] by simp
  { assume "length (snd p) = isize (fst s)" "length (contents (fst s)) < capacity (fst s)"
    then show "\<exists>s'. any_put p s = Some (True, s') \<and> both_ok s' \<and> contents (fst s') = contents (fst s) @ [snd p] \<and>
        capacity (fst s') = capacity (fst s) \<and> (\<lambda>x. length x = isize (fst s')) = (\<lambda>x. length x = isize (fst s))"
      using isr_put_room [OF ok, of "snd p"] poll_put_room [OF ok, of "snd p"] contents_full [OF ok(1)]
      by (cases "fst p") (auto simp: both_ok_def any_put_def) }
  { assume "length (contents (fst s)) = capacity (fst s)"
    then show "\<exists>s'. any_put p s = Some (False, s') \<and> both_ok s' \<and> contents (fst s') = contents (fst s) \<and>
        capacity (fst s') = capacity (fst s) \<and> (\<lambda>x. length x = isize (fst s')) = (\<lambda>x. length x = isize (fst s))"
      using ok put_to_full [OF ok(1)] by (simp add: both_ok_def) }
  { assume "contents (fst s) = []"
    then show "\<exists>s'. any_get g s = Some (None, s') \<and> both_ok s' \<and> contents (fst s') = [] \<and>
        capacity (fst s') = capacity (fst s) \<and> (\<lambda>x. length x = isize (fst s')) = (\<lambda>x. length x = isize (fst s))"
      using ok get_from_empty by (simp add: both_ok_def) }
  fix y ys
  assume "contents (fst s) = y # ys"
  then show "\<exists>s'. any_get g s = Some (Some y, s') \<and> both_ok s' \<and> contents (fst s') = ys \<and>
      capacity (fst s') = capacity (fst s) \<and> (\<lambda>x. length x = isize (fst s')) = (\<lambda>x. length x = isize (fst s))"
    using isr_get_item [OF ok] poll_get_item [OF ok] contents_some [of q] by (cases g) (auto simp: both_ok_def any_get_def)
qed



lemma queue_end_cases:
  assumes "queue_ok q" "length x = isize q"
  shows "uxMessagesWaiting q < uxLength q \<Longrightarrow> \<exists>q'. prvCopyDataToQueue x queueSEND_TO_FRONT q K = Some (False, q', K) \<and>
      queue_ok q' \<and> contents q' = x # contents q"
    and "uxLength q = 1 \<Longrightarrow> \<exists>q'. prvCopyDataToQueue x queueOVERWRITE q K = Some (False, q', K) \<and> queue_ok q' \<and> contents q' = [x]"
    and "kernel_ok K \<Longrightarrow> contents q \<noteq> [] \<Longrightarrow> \<exists>K'. xQueuePeek (call_start t n) q K = Some (Return (Some (hd (contents q))), q, K') \<and> kernel_ok K'"
    and "contents q \<noteq> [] \<Longrightarrow> xQueuePeekFromISR q = Some (Some (hd (contents q)), q)"
proof -
  obtain r where r: "ring_ok q r" using assms(1) by (auto simp: queue_ok_def)
  show "uxMessagesWaiting q < uxLength q \<Longrightarrow> \<exists>q'. prvCopyDataToQueue x queueSEND_TO_FRONT q K = Some (False, q', K) \<and>
      queue_ok q' \<and> contents q' = x # contents q"
    using send_front [OF r assms(2)] by blast
  show "uxLength q = 1 \<Longrightarrow> \<exists>q'. prvCopyDataToQueue x queueOVERWRITE q K = Some (False, q', K) \<and> queue_ok q' \<and> contents q' = [x]"
    using send_overwrite [OF r assms(2)] by blast
  have u: "un q = QueuePointers (slot_addr q (capacity q)) (slot_addr q r)" using r by (simp add: ring_ok_def)
  have same: "q\<lparr>un := QueuePointers (slot_addr q (capacity q)) (slot_addr q r)\<rparr> = q" by (simp flip: u)
  show "kernel_ok K \<Longrightarrow> contents q \<noteq> [] \<Longrightarrow> \<exists>K'. xQueuePeek (call_start t n) q K = Some (Return (Some (hd (contents q))), q, K') \<and> kernel_ok K'"
  proof -
    assume k: "kernel_ok K" and c: "contents q \<noteq> []"
    obtain K' where "yield_if (unblock_one (xTasksWaitingToReceive q) K) = Some K'" "kernel_ok K'"
      using yield_if_ok [OF unblock_one_ok [OF k]] by (rule returnsE)
    then show ?thesis using copy_from(1) [OF r] contents_some [of q] c
      by (simp add: xQueuePeek_def call_start_def u same)
  qed
  show "contents q \<noteq> [] \<Longrightarrow> xQueuePeekFromISR q = Some (Some (hd (contents q)), q)"
    using copy_from(1) [OF r] contents_some [of q] by (simp add: xQueuePeekFromISR_def u same)
qed

section \<open>A new queue\<close>

lemma no_waiting [simp]: "events K e = [] \<Longrightarrow> (events K)(e := []) = events K"
  by (simp add: fun_upd_idem_iff)

lemma new_queue:
  assumes "0 < L" "0 < s" "length (storage q) = unat L * unat s" "unat a + unat L * unat s < 2 ^ 32" "unat s \<le> unat a"
    and e: "events K (xTasksWaitingToSend q) = []" "events K (xTasksWaitingToReceive q) = []"
  shows "\<exists>q'. prvInitialiseNewQueue L s a self q K = Some (q', K) \<and> queue_ok q' \<and> contents q' = [] \<and> uxLength q' = L \<and> uxItemSize q' = s \<and>
    storage q' = storage q \<and> cRxLock q' = queueUNLOCKED \<and> cTxLock q' = queueUNLOCKED \<and>
    xTasksWaitingToSend q' = xTasksWaitingToSend q \<and> xTasksWaitingToReceive q' = xTasksWaitingToReceive q"
proof -
  let ?q = "q\<lparr>pcHead := a, uxLength := L, uxItemSize := s, un := QueuePointers (a + L * s) (a + (L - 1) * s),
    uxMessagesWaiting := 0, pcWriteTo := a, cRxLock := queueUNLOCKED, cTxLock := queueUNLOCKED\<rparr>"
  have L: "unat (L - 1) = unat L - 1" "0 < unat L" using assms(1) by (auto simp: unat_minus1 word_less_nat_alt)
  have "of_nat ((unat L - 1) * unat s) = (L - 1) * s" unfolding L(1) [symmetric] by simp
  moreover have "Suc (unat L - 1) = unat L" using L by simp
  ultimately have "ring_ok ?q (unat L - 1)" using assms(1-5) L
    by (simp add: ring_ok_def room_ok_def slot_addr_def word_less_nat_alt)
  then show ?thesis using assms(2) e
    by (auto simp: prvInitialiseNewQueue_def xQueueGenericReset_def queue_ok_def simp flip: length_0_conv)
qed


definition demo_queue :: queue where
  "demo_queue = \<lparr>pcHead = 0x20000100, pcWriteTo = 0x20000100, un = QueuePointers 0x20000102 0x20000101,
     xTasksWaitingToSend = 0, xTasksWaitingToReceive = 1, uxMessagesWaiting = 0, uxLength = 2, uxItemSize = 1,
     cRxLock = queueUNLOCKED, cTxLock = queueUNLOCKED, storage = [0, 0]\<rparr>"

lemma demo_queue_ok: "queue_ok demo_queue"
proof -
  have "ring_ok demo_queue 1" by (simp add: demo_queue_def ring_ok_def room_ok_def slot_addr_def)
  then show ?thesis by (auto simp: queue_ok_def)
qed

lemma demo_kernel_ok: "kernel_ok demo"
  by (rule reachable_ok [OF demo_reachable])


text \<open>
  C15: The other ways in and out: sending to the front puts the item before all others, overwriting
  replaces the one item of a queue of length one whether it is full or not, and peeking, from a task or
  from an interrupt, hands out the first item and leaves the queue exactly as it was.
\<close>

theorem queue_ends:
  assumes "queue_ok q" "length x = isize q" "kernel_ok K"
  shows "(uxMessagesWaiting q < uxLength q \<longrightarrow> (\<exists>q'. prvCopyDataToQueue x queueSEND_TO_FRONT q K = Some (False, q', K) \<and>
      queue_ok q' \<and> contents q' = x # contents q)) \<and>
    (uxLength q = 1 \<longrightarrow> (\<exists>q'. prvCopyDataToQueue x queueOVERWRITE q K = Some (False, q', K) \<and> queue_ok q' \<and> contents q' = [x])) \<and>
    (contents q \<noteq> [] \<longrightarrow> xQueuePeekFromISR q = Some (Some (hd (contents q)), q) \<and>
      (\<exists>K'. xQueuePeek (call_start t n) q K = Some (Return (Some (hd (contents q))), q, K') \<and> kernel_ok K'))"
  using queue_end_cases [OF assms(1,2)] assms(3) by blast

lemma queue_ends_witness:
  "\<exists>q'. prvCopyDataToQueue [7] queueSEND_TO_FRONT demo_queue demo = Some (False, q', demo) \<and> queue_ok q' \<and> contents q' = [[7]]"
proof -
  have "uxMessagesWaiting demo_queue < uxLength demo_queue" "length [7 :: u8] = isize demo_queue" "contents demo_queue = []"
    by (simp_all add: demo_queue_def contents_def ring_items_def)
  then show ?thesis using queue_ends [OF demo_queue_ok _ demo_kernel_ok, of "[7]"] by auto
qed

end
