(* ===== verification/RTOS_Heap4.thy ===== *)
theory RTOS_Heap4
  imports RTOS_Chain
begin

text \<open>
  The kernel's allocator \<open>FreeRTOS/src/heap_4.c\<close>: first fit over an address-ordered free list,
  with coalescing of neighbours. The model is the store of block headers at machine addresses;
  its abstraction is the sequence of blocks that tile the heap. A load or store outside
  \<open>ucHeap\<close> and \<open>xStart\<close> is undefined.
\<close>

unbundle bit_operations_syntax

section \<open>The state\<close>

record block_link =
  pxNextFreeBlock :: u32
  xBlockSize :: u32

text \<open>\<open>ucHeap\<close> and \<open>xStart\<close> are the addresses the linker gives these objects.\<close>

record heap4 =
  ucHeap :: u32
  xStart :: u32
  blk :: "u32 \<Rightarrow> block_link"
  pxEnd :: u32
  xFreeBytesRemaining :: u32
  xMinimumEverFreeBytesRemaining :: u32
  xBlockAllocatedBit :: u32

abbreviation (input) configTOTAL_HEAP_SIZE :: u32 where "configTOTAL_HEAP_SIZE \<equiv> 32 * 1024"
abbreviation (input) xHeapStructSize :: u32 where "xHeapStructSize \<equiv> 8"
abbreviation (input) heapMINIMUM_BLOCK_SIZE :: u32 where "heapMINIMUM_BLOCK_SIZE \<equiv> 16"

definition addressable :: "heap4 \<Rightarrow> u32 \<Rightarrow> bool" where
  "addressable m a \<longleftrightarrow> a = xStart m \<or>
     unat (ucHeap m) \<le> unat a \<and> unat a + 8 \<le> unat (ucHeap m) + unat configTOTAL_HEAP_SIZE"

definition ld :: "heap4 \<Rightarrow> u32 \<Rightarrow> block_link option" where
  "ld m a = (if addressable m a then Some (blk m a) else None)"

definition st_next :: "u32 \<Rightarrow> u32 \<Rightarrow> heap4 \<Rightarrow> heap4 option" where
  "st_next a q m = (if addressable m a
     then Some (m\<lparr>blk := (blk m)(a := (blk m a)\<lparr>pxNextFreeBlock := q\<rparr>)\<rparr>) else None)"

definition st_size :: "u32 \<Rightarrow> u32 \<Rightarrow> heap4 \<Rightarrow> heap4 option" where
  "st_size a n m = (if addressable m a
     then Some (m\<lparr>blk := (blk m)(a := (blk m a)\<lparr>xBlockSize := n\<rparr>)\<rparr>) else None)"

section \<open>The operations\<close>

definition prvHeapInit :: "heap4 \<Rightarrow> heap4 option" where
  "prvHeapInit m =
     (let (uxAddress, xTotalHeapSize) =
        (if ucHeap m AND 7 \<noteq> 0
         then let a = (ucHeap m + 7) AND NOT 7 in (a, configTOTAL_HEAP_SIZE - (a - ucHeap m))
         else (ucHeap m, configTOTAL_HEAP_SIZE));
        pucAlignedHeap = uxAddress
      in do {
        m \<leftarrow> st_next (xStart m) pucAlignedHeap m;
        m \<leftarrow> st_size (xStart m) 0 m;
        let uxAddress = (pucAlignedHeap + xTotalHeapSize - xHeapStructSize) AND NOT 7;
        let m = m\<lparr>pxEnd := uxAddress\<rparr>;
        m \<leftarrow> st_size (pxEnd m) 0 m;
        m \<leftarrow> st_next (pxEnd m) 0 m;
        m \<leftarrow> st_size pucAlignedHeap (uxAddress - pucAlignedHeap) m;
        m \<leftarrow> st_next pucAlignedHeap (pxEnd m) m;
        l \<leftarrow> ld m pucAlignedHeap;
        Some (m\<lparr>xMinimumEverFreeBytesRemaining := xBlockSize l, xFreeBytesRemaining := xBlockSize l,
                xBlockAllocatedBit := push_bit 31 1\<rparr>) })"

text \<open>The loop of \<open>prvInsertBlockIntoFreeList\<close>: the last free block below \<open>b\<close>.\<close>

partial_function (option) insert_iter :: "heap4 \<Rightarrow> u32 \<Rightarrow> u32 \<Rightarrow> u32 option" where
  "insert_iter m b p = do {
     l \<leftarrow> ld m p;
     if pxNextFreeBlock l < b then insert_iter m b (pxNextFreeBlock l) else Some p }"

definition prvInsertBlockIntoFreeList :: "u32 \<Rightarrow> heap4 \<Rightarrow> heap4 option" where
  "prvInsertBlockIntoFreeList pxBlockToInsert m = do {
     pxIterator \<leftarrow> insert_iter m pxBlockToInsert (xStart m);
     it \<leftarrow> ld m pxIterator;
     ins \<leftarrow> ld m pxBlockToInsert;
     (b, m) \<leftarrow> (if pxIterator + xBlockSize it = pxBlockToInsert
       then do { m \<leftarrow> st_size pxIterator (xBlockSize it + xBlockSize ins) m; Some (pxIterator, m) }
       else Some (pxBlockToInsert, m));
     ins \<leftarrow> ld m b;
     it \<leftarrow> ld m pxIterator;
     m \<leftarrow> (if b + xBlockSize ins = pxNextFreeBlock it
       then (if pxNextFreeBlock it \<noteq> pxEnd m
         then do {
           nx \<leftarrow> ld m (pxNextFreeBlock it);
           m \<leftarrow> st_size b (xBlockSize ins + xBlockSize nx) m;
           st_next b (pxNextFreeBlock nx) m }
         else st_next b (pxEnd m) m)
       else st_next b (pxNextFreeBlock it) m);
     if pxIterator \<noteq> b then st_next pxIterator b m else Some m }"

text \<open>The search loop of \<open>pvPortMalloc\<close>, with the block in front of the one it stops at.\<close>

partial_function (option) find_fit :: "heap4 \<Rightarrow> u32 \<Rightarrow> u32 \<Rightarrow> u32 \<Rightarrow> (u32 \<times> u32) option" where
  "find_fit m w pxPreviousBlock pxBlock = do {
     l \<leftarrow> ld m pxBlock;
     if xBlockSize l < w \<and> pxNextFreeBlock l \<noteq> 0
     then find_fit m w pxBlock (pxNextFreeBlock l) else Some (pxPreviousBlock, pxBlock) }"

definition round_up :: "u32 \<Rightarrow> u32" where
  "round_up xWantedSize =
     (if xWantedSize > 0
      then (let w = xWantedSize + xHeapStructSize in if w AND 7 \<noteq> 0 then w + (8 - (w AND 7)) else w)
      else xWantedSize)"

text \<open>The block's bytes are no longer free, and the block is the application's.\<close>

definition mark_allocated :: "u32 \<Rightarrow> heap4 \<Rightarrow> heap4 option" where
  "mark_allocated pxBlock m = do {
     bl \<leftarrow> ld m pxBlock;
     let m = m\<lparr>xFreeBytesRemaining := xFreeBytesRemaining m - xBlockSize bl\<rparr>;
     let m = (if xFreeBytesRemaining m < xMinimumEverFreeBytesRemaining m
       then m\<lparr>xMinimumEverFreeBytesRemaining := xFreeBytesRemaining m\<rparr> else m);
     m \<leftarrow> st_size pxBlock (xBlockSize bl OR xBlockAllocatedBit m) m;
     st_next pxBlock 0 m }"

text \<open>The block is taken out of the free list, split when large enough, and marked allocated.\<close>

definition take_block :: "u32 \<Rightarrow> u32 \<Rightarrow> u32 \<Rightarrow> heap4 \<Rightarrow> (u32 \<times> heap4) option" where
  "take_block xWantedSize pxPreviousBlock pxBlock m = do {
     pr \<leftarrow> ld m pxPreviousBlock;
     let pvReturn = pxNextFreeBlock pr + xHeapStructSize;
     bl \<leftarrow> ld m pxBlock;
     m \<leftarrow> st_next pxPreviousBlock (pxNextFreeBlock bl) m;
     bl \<leftarrow> ld m pxBlock;
     m \<leftarrow> (if xBlockSize bl - xWantedSize > heapMINIMUM_BLOCK_SIZE
       then do {
         let pxNewBlockLink = pxBlock + xWantedSize;
         m \<leftarrow> st_size pxNewBlockLink (xBlockSize bl - xWantedSize) m;
         m \<leftarrow> st_size pxBlock xWantedSize m;
         prvInsertBlockIntoFreeList pxNewBlockLink m }
       else Some m);
     m \<leftarrow> mark_allocated pxBlock m;
     Some (pvReturn, m) }"

definition pvPortMalloc :: "u32 \<Rightarrow> heap4 \<Rightarrow> (u32 \<times> heap4) option" where
  "pvPortMalloc xWantedSize m = do {
     m \<leftarrow> (if pxEnd m = 0 then prvHeapInit m else Some m);
     if xWantedSize AND xBlockAllocatedBit m = 0
     then (let w = round_up xWantedSize in
       if w > 0 \<and> w \<le> xFreeBytesRemaining m
       then do {
         start \<leftarrow> ld m (xStart m);
         (pxPreviousBlock, pxBlock) \<leftarrow> find_fit m w (xStart m) (pxNextFreeBlock start);
         if pxBlock \<noteq> pxEnd m then take_block w pxPreviousBlock pxBlock m else Some (0, m) }
       else Some (0, m))
     else Some (0, m) }"

definition vPortFree :: "u32 \<Rightarrow> heap4 \<Rightarrow> heap4 option" where
  "vPortFree pv m =
     (if pv \<noteq> 0 then do {
        let pxLink = pv - xHeapStructSize;
        l \<leftarrow> ld m pxLink;
        if xBlockSize l AND xBlockAllocatedBit m \<noteq> 0
        then (if pxNextFreeBlock l = 0 then do {
            m \<leftarrow> st_size pxLink (xBlockSize l AND NOT (xBlockAllocatedBit m)) m;
            l \<leftarrow> ld m pxLink;
            prvInsertBlockIntoFreeList pxLink (m\<lparr>xFreeBytesRemaining := xFreeBytesRemaining m + xBlockSize l\<rparr>) }
          else Some m)
        else Some m }
      else Some m)"

definition xPortGetFreeHeapSize :: "heap4 \<Rightarrow> u32" where
  "xPortGetFreeHeapSize m = xFreeBytesRemaining m"

definition xPortGetMinimumEverFreeHeapSize :: "heap4 \<Rightarrow> u32" where
  "xPortGetMinimumEverFreeHeapSize m = xMinimumEverFreeBytesRemaining m"

section \<open>The blocks of the heap\<close>

text \<open>A block is its header's address, its size and whether it is free.\<close>

type_synonym block = "u32 \<times> u32 \<times> bool"

fun tiles :: "nat \<Rightarrow> block list \<Rightarrow> nat \<Rightarrow> bool" where
  "tiles a [] e = (a = e)"
| "tiles a ((p, n, f) # bs) e = (unat p = a \<and> 8 dvd unat n \<and> 0 < unat n \<and> tiles (a + unat n) bs e)"

abbreviation is_free :: "block \<Rightarrow> bool" where "is_free b \<equiv> snd (snd b)"

definition frees :: "block list \<Rightarrow> u32 list" where
  "frees bs = map fst (filter is_free bs)"

definition free_sum :: "block list \<Rightarrow> nat" where
  "free_sum bs = (\<Sum>b\<leftarrow>filter is_free bs. unat (fst (snd b)))"

fun coalesced :: "block list \<Rightarrow> bool" where
  "coalesced (a # b # bs) = (\<not> (is_free a \<and> is_free b) \<and> coalesced (b # bs))"
| "coalesced _ = True"

named_theorems heap_simps \<open>free lists and blocks\<close>

lemma frees_simps [heap_simps]:
  "frees [] = []" "frees ((p, n, f) # bs) = (if f then p # frees bs else frees bs)" "frees (as @ bs) = frees as @ frees bs"
  "free_sum [] = 0" "free_sum ((p, n, f) # bs) = (if f then unat n else 0) + free_sum bs"
  "free_sum (as @ bs) = free_sum as + free_sum bs"
  by (simp_all add: frees_def free_sum_def)

lemma tiles_append: "tiles a (as @ bs) e \<longleftrightarrow> (\<exists>c. tiles a as c \<and> tiles c bs e)"
  by (induction a as e rule: tiles.induct) auto

lemma tiles_le: "tiles a bs e \<Longrightarrow> a \<le> e"
  by (induction a bs e rule: tiles.induct) auto

lemma tiles_mem: "tiles a bs e \<Longrightarrow> (p, n, f) \<in> set bs \<Longrightarrow> a \<le> unat p \<and> unat p + unat n \<le> e \<and> 0 < unat n \<and> 8 dvd unat n"
  by (induction a bs e rule: tiles.induct) (auto dest: tiles_le)

lemma tiles_free_sum: "tiles a bs e \<Longrightarrow> free_sum bs \<le> e - a \<and> a \<le> e"
  by (induction a bs e rule: tiles.induct) (auto simp: heap_simps dest: tiles_le)

lemma tiles_8: "tiles a bs e \<Longrightarrow> 8 dvd a \<Longrightarrow> 8 dvd e"
  by (induction a bs e rule: tiles.induct) auto

lemma frees_iff: "q \<in> set (frees bs) \<longleftrightarrow> (\<exists>n. (q, n, True) \<in> set bs)"
  by (force simp: frees_def)

lemma tiles_frees: "tiles a bs e \<Longrightarrow> q \<in> set (frees bs) \<Longrightarrow> a \<le> unat q \<and> unat q + 8 \<le> e"
  by (auto simp: frees_iff dest!: tiles_mem dest: dvd_imp_le)

lemma tiles_distinct: "tiles a bs e \<Longrightarrow> distinct (map fst bs)"
proof (induction a bs e rule: tiles.induct)
  case (2 a p n f bs e)
  then have "p \<notin> fst ` set bs" by (auto dest: tiles_mem)
  with 2 show ?case by simp
qed simp

lemma sorted_frees: "tiles a bs e \<Longrightarrow> distinct (frees bs)"
  unfolding frees_def by (rule distinct_map_filter) (rule tiles_distinct)

text \<open>The end of a block, when it stays below the address space's end.\<close>

lemma unat_u32_lt: "unat (p :: u32) < 2 ^ 32"
  using unsigned_less [of p] by simp

lemma block_end:
  fixes p n q :: u32
  assumes "unat p + unat n < 2 ^ 32"
  shows "unat (p + n) = unat p + unat n" and "p + n = q \<longleftrightarrow> unat p + unat n = unat q"
  using assms by (simp_all add: unat_add_lem [where 'a = 32, symmetric, THEN iffD1] word_unat_eq_iff unat_word_ariths)

section \<open>The representation of the blocks in the store\<close>

abbreviation nx :: "heap4 \<Rightarrow> u32 \<Rightarrow> u32" where "nx m a \<equiv> pxNextFreeBlock (blk m a)"
abbreviation sz :: "heap4 \<Rightarrow> u32 \<Rightarrow> u32" where "sz m a \<equiv> xBlockSize (blk m a)"

text \<open>Where the linker put the heap, and the aligned part of it that the blocks tile.\<close>

definition placed :: "heap4 \<Rightarrow> nat \<Rightarrow> nat \<Rightarrow> bool" where
  "placed m a e \<longleftrightarrow> 0 < unat (ucHeap m) \<and> unat (ucHeap m) \<le> a \<and> e + 8 \<le> unat (ucHeap m) + 32768 \<and>
     unat (ucHeap m) + 32768 < 2 ^ 31 \<and> a \<le> e \<and> 8 dvd a \<and> 8 dvd e \<and>
     (unat (xStart m) + 8 \<le> unat (ucHeap m) \<or> unat (ucHeap m) + 32768 \<le> unat (xStart m))"

text \<open>The top bit of a size, which marks a block as the application's.\<close>

definition ALLOCATED :: u32 where
  "ALLOCATED = push_bit 31 1"

definition free_list :: "heap4 \<Rightarrow> u32 list \<Rightarrow> bool" where
  "free_list m fs \<longleftrightarrow> chain (nx m) (xStart m # fs @ [pxEnd m])"

definition free_sized :: "heap4 \<Rightarrow> block list \<Rightarrow> bool" where
  "free_sized m bs \<longleftrightarrow> (\<forall>(q, n, f) \<in> set bs. f \<longrightarrow> sz m q = n)"

lemma free_sizedD: "free_sized m bs \<Longrightarrow> (q, n, True) \<in> set bs \<Longrightarrow> sz m q = n"
  by (force simp: free_sized_def)

definition used_marked :: "heap4 \<Rightarrow> block list \<Rightarrow> bool" where
  "used_marked m bs \<longleftrightarrow> (\<forall>(q, n, f) \<in> set bs. \<not> f \<longrightarrow> sz m q = n OR ALLOCATED \<and> nx m q = 0)"


definition upd :: "u32 \<Rightarrow> block_link \<Rightarrow> heap4 \<Rightarrow> heap4" where
  "upd a l m = m\<lparr>blk := (blk m)(a := l)\<rparr>"

lemma upd_simps [heap_simps]:
  "blk (upd a l m) = (blk m)(a := l)" "addressable (upd a l m) b = addressable m b" "xStart (upd a l m) = xStart m"
  "pxEnd (upd a l m) = pxEnd m" "xFreeBytesRemaining (upd a l m) = xFreeBytesRemaining m"
  "xMinimumEverFreeBytesRemaining (upd a l m) = xMinimumEverFreeBytesRemaining m"
  "xBlockAllocatedBit (upd a l m) = xBlockAllocatedBit m" "ucHeap (upd a l m) = ucHeap m"
  "upd a l (upd a k m) = upd a l m"
  by (simp_all add: upd_def addressable_def)

lemma st_simps [heap_simps]:
  "addressable m a \<Longrightarrow> st_next a q m = Some (upd a ((blk m a)\<lparr>pxNextFreeBlock := q\<rparr>) m)"
  "addressable m a \<Longrightarrow> st_size a n m = Some (upd a ((blk m a)\<lparr>xBlockSize := n\<rparr>) m)"
  "addressable m a \<Longrightarrow> ld m a = Some (blk m a)"
  by (simp_all add: st_next_def st_size_def ld_def upd_def)

lemma block_link_eta [heap_simps]:
  "(l :: block_link)\<lparr>xBlockSize := n, pxNextFreeBlock := q\<rparr> = \<lparr>pxNextFreeBlock = q, xBlockSize = n\<rparr>"
  "(l :: block_link)\<lparr>pxNextFreeBlock := q, xBlockSize := n\<rparr> = \<lparr>pxNextFreeBlock = q, xBlockSize = n\<rparr>"
  "(l :: block_link)\<lparr>pxNextFreeBlock := q\<rparr> = \<lparr>pxNextFreeBlock = q, xBlockSize = xBlockSize l\<rparr>"
  "(l :: block_link)\<lparr>xBlockSize := n\<rparr> = \<lparr>pxNextFreeBlock = pxNextFreeBlock l, xBlockSize = n\<rparr>"
  by (cases l; simp)+

lemma placed_addressable: "placed m a e \<Longrightarrow> a \<le> unat q \<Longrightarrow> unat q \<le> e \<Longrightarrow> addressable m q"
  by (simp add: placed_def addressable_def)

lemma start_addressable: "addressable m (xStart m)"
  by (simp add: addressable_def)

lemma insert_iter_ok:
  assumes "chain (nx m) (p # us @ v # vs)" "\<forall>u \<in> set us. u < b \<and> addressable m u" "addressable m p" "\<not> v < b"
  shows "insert_iter m b p = Some (last (p # us))"
  using assms
proof (induction us arbitrary: p)
  case Nil
  then show ?case by (subst insert_iter.simps) (simp add: heap_simps)
next
  case (Cons u us)
  then show ?case by (subst insert_iter.simps) (simp add: heap_simps)
qed

text \<open>A block goes back to the free list: the two neighbours that are free are merged with it.\<close>

fun absorb_right :: "u32 \<Rightarrow> u32 \<Rightarrow> block list \<Rightarrow> block list" where
  "absorb_right p n ((q, j, True) # cs) = (p, n + j, True) # cs"
| "absorb_right p n cs = (p, n, True) # cs"

definition release :: "block list \<Rightarrow> u32 \<Rightarrow> u32 \<Rightarrow> block list \<Rightarrow> block list" where
  "release as p n cs = (if as \<noteq> [] \<and> is_free (last as)
     then butlast as @ absorb_right (fst (last as)) (fst (snd (last as)) + n) cs else as @ absorb_right p n cs)"

text \<open>What \<open>prvInsertBlockIntoFreeList\<close> relies on.\<close>

definition insertable :: "heap4 \<Rightarrow> nat \<Rightarrow> nat \<Rightarrow> block list \<Rightarrow> u32 \<Rightarrow> u32 \<Rightarrow> block list \<Rightarrow> bool" where
  "insertable m a e as p n cs \<longleftrightarrow> placed m a e \<and> pxEnd m = of_nat e \<and> tiles a (as @ (p, n, False) # cs) e \<and>
     free_list m (frees as @ frees cs) \<and> free_sized m (as @ cs) \<and> sz m p = n \<and> sz m (xStart m) = 0"

lemma unat_end: "placed m a e \<Longrightarrow> unat (of_nat e :: u32) = e"
  by (simp add: placed_def unat_of_nat)

lemma ins_tiles:
  assumes I: "insertable m a e as p n cs"
  shows "tiles a as (unat p)" "tiles (unat p + unat n) cs e" "0 < unat n" "8 dvd unat n"
  using I by (auto simp: insertable_def tiles_append)

lemma ins_bounds:
  assumes I: "insertable m a e as p n cs"
  shows "a \<le> unat p" "unat p + unat n \<le> e" "e < 2 ^ 31" "unat (pxEnd m) = e"
  using tiles_le [OF ins_tiles(1) [OF I]] tiles_le [OF ins_tiles(2) [OF I]] I unat_end [of m a e]
  by (auto simp: insertable_def placed_def)

lemma ins_before:
  assumes I: "insertable m a e as p n cs"
  shows "q \<in> set (frees as) \<Longrightarrow> a \<le> unat q \<and> unat q + 8 \<le> unat p"
  by (rule tiles_frees [OF ins_tiles(1) [OF I]])

lemma ins_after:
  assumes I: "insertable m a e as p n cs"
  shows "q \<in> set (frees cs) \<Longrightarrow> unat p + unat n \<le> unat q \<and> unat q + 8 \<le> e"
  by (rule tiles_frees [OF ins_tiles(2) [OF I]])

lemma ins_addr:
  assumes I: "insertable m a e as p n cs"
  shows "a \<le> unat q \<Longrightarrow> unat q \<le> e \<Longrightarrow> addressable m q \<and> q \<noteq> xStart m"
  using I placed_addressable [of m a e q] by (auto simp: insertable_def placed_def)

lemma ins_distinct:
  assumes I: "insertable m a e as p n cs"
  shows "distinct (xStart m # frees as @ p # frees cs @ [pxEnd m])"
proof -
  have x: "q \<noteq> xStart m" if "q \<in> set (frees as) \<union> {p} \<union> set (frees cs) \<union> {pxEnd m}" for q
    using that ins_before [OF I, of q] ins_after [OF I, of q] ins_bounds(1,2,4) [OF I] ins_addr [OF I, of q] by auto
  have l: "q \<noteq> p \<and> q \<notin> set (frees cs) \<and> q \<noteq> pxEnd m" if "q \<in> set (frees as)" for q
    using ins_before [OF I that] ins_after [OF I, of q] ins_bounds(2,4) [OF I] by auto
  have r: "q \<noteq> p \<and> q \<noteq> pxEnd m" if "q \<in> set (frees cs)" for q
    using ins_after [OF I that] ins_bounds(4) [OF I] ins_tiles(3) [OF I] by auto
  have "p \<noteq> pxEnd m" using ins_bounds(2,4) [OF I] ins_tiles(3) [OF I] by auto
  then show ?thesis
    using sorted_frees [OF ins_tiles(1) [OF I]] sorted_frees [OF ins_tiles(2) [OF I]] x l r by auto
qed

text \<open>The free block in front, and the one behind it in the list.\<close>

lemma ins_iter:
  assumes I: "insertable m a e as p n cs"
  shows "insert_iter m p (xStart m) = Some (last (xStart m # frees as))"
proof -
  obtain v vs where v: "frees cs @ [pxEnd m] = v # vs" by (cases "frees cs") auto
  then have "v \<in> set (frees cs) \<union> {pxEnd m}" by (metis Un_iff list.set_intros(1) set_append list.set(1,2) insert_is_Un)
  then have "\<not> v < p" using ins_after [OF I, of v] ins_bounds(2,4) [OF I] by (auto simp: word_less_nat_alt)
  moreover have "\<forall>u \<in> set (frees as). u < p \<and> addressable m u"
  proof
    fix u assume u: "u \<in> set (frees as)"
    show "u < p \<and> addressable m u"
      using ins_before [OF I u] ins_addr [OF I, of u] ins_bounds(2) [OF I] by (simp add: word_less_nat_alt)
  qed
  moreover have "chain (nx m) (xStart m # frees as @ v # vs)"
    using I v by (simp add: insertable_def free_list_def)
  ultimately show ?thesis using start_addressable by (intro insert_iter_ok)
qed

lemma ins_no_left:
  assumes I: "insertable m a e as p n cs" and "as = [] \<or> \<not> is_free (last as)"
  shows "last (xStart m # frees as) + sz m (last (xStart m # frees as)) \<noteq> p"
proof (cases "frees as = []")
  case True
  then show ?thesis using I ins_addr [OF I, of p] ins_bounds(1,2) [OF I] by (auto simp: insertable_def)
next
  case False
  obtain r where r: "last (frees as) = r" by simp
  then obtain k where k: "(r, k, True) \<in> set as" using False by (metis frees_iff last_in_set)
  then obtain as1 as2 where s: "as = as1 @ (r, k, True) # as2" by (metis split_list)
  moreover have "as2 \<noteq> []" using assms s by (metis append_is_Nil_conv last_snoc list.discI snd_conv)
  then obtain q j f as3 where "as2 = (q, j, f) # as3" by (metis list.exhaust surj_pair)
  ultimately have "tiles a (as1 @ (r, k, True) # (q, j, f) # as3) (unat p)" using ins_tiles(1) [OF I] by simp
  then have "unat q = unat r + unat k" "0 < unat j" "tiles (unat q + unat j) as3 (unat p)"
    by (auto simp: tiles_append)
  then have "unat r + unat k < unat p" using tiles_le [of "unat q + unat j" as3 "unat p"] by linarith
  moreover have "sz m r = k" using I k by (intro free_sizedD [of m "as @ cs"]) (auto simp: insertable_def)
  ultimately show ?thesis using False r block_end(2) [of r k p] unat_u32_lt [of p] by simp
qed

lemma ins_left:
  assumes I: "insertable m a e as p n cs" and "as = as' @ [(r, k, True)]"
  shows "last (xStart m # frees as) = r" "sz m r = k" "r + k = p" "unat r + unat k = unat p"
    "unat (k + n) = unat k + unat n"
proof -
  show "unat r + unat k = unat p" using ins_tiles(1) [OF I] assms by (auto simp: tiles_append)
  moreover from this show "unat (k + n) = unat k + unat n" using ins_bounds [OF I] block_end(1) [of k n] by simp
  ultimately have "unat r + unat k = unat p" by simp
  then show "r + k = p" using block_end(2) [of r k p] unat_u32_lt [of p] by simp
  show "last (xStart m # frees as) = r" using assms by (simp add: heap_simps)
  show "sz m r = k" using I assms by (simp add: insertable_def free_sized_def)
qed

lemma ins_right:
  assumes I: "insertable m a e as p n cs" and "unat b + unat N = unat p + unat n"
  shows "b + N = hd (frees cs @ [pxEnd m]) \<longleftrightarrow> cs = [] \<or> is_free (hd cs)"
proof -
  have 1: "b + N = q \<longleftrightarrow> unat p + unat n = unat q" for q
    using block_end(2) [of b N q] assms ins_bounds(2,3) [OF I] by simp
  show ?thesis
  proof (cases cs)
    case Nil
    then have "unat p + unat n = e" using ins_tiles(2) [OF I] by simp
    then show ?thesis using Nil 1 ins_bounds(4) [OF I] by (simp add: heap_simps)
  next
    case (Cons c cs')
    obtain q j f where c: "c = (q, j, f)" by (cases c)
    have t: "unat q = unat p + unat n" "0 < unat j" "tiles (unat q + unat j) cs' e"
      using ins_tiles(2) [OF I] Cons c by auto
    have "unat q + unat j \<le> unat v" if "v = hd (frees cs' @ [pxEnd m])" for v
      using that t tiles_frees [OF t(3), of v] tiles_le [OF t(3)] ins_bounds(4) [OF I]
      by (cases "frees cs'") auto
    then show ?thesis using Cons c 1 t by (auto simp: heap_simps)
  qed
qed

lemma free_sized_append [heap_simps]:
  "free_sized m (as @ bs) \<longleftrightarrow> free_sized m as \<and> free_sized m bs" "free_sized m []"
  "free_sized m ((q, n, f) # bs) \<longleftrightarrow> (f \<longrightarrow> sz m q = n) \<and> free_sized m bs"
  by (simp_all add: free_sized_def ball_Un)

lemma free_sized_cong: "(\<And>q. q \<in> set (frees bs) \<Longrightarrow> sz m' q = sz m q) \<Longrightarrow> free_sized m' bs = free_sized m bs"
  by (force simp: free_sized_def frees_iff)

lemma free_sized_upd:
  "free_sized m bs \<Longrightarrow> q \<notin> set (frees bs) \<or> xBlockSize l = sz m q \<Longrightarrow> free_sized (upd q l m) bs"
  by (subst free_sized_cong [where m = m]) (auto simp: heap_simps)

lemma ins_chain:
  assumes I: "insertable m a e as p n cs"
  shows "chain (nx m) ((xStart m # frees as) @ (frees cs @ [pxEnd m]))"
    and "distinct ((xStart m # frees as) @ p # (frees cs @ [pxEnd m]))"
    and "distinct ((xStart m # frees as) @ (frees cs @ [pxEnd m]))"
proof -
  have "chain (nx m) (xStart m # (frees as @ frees cs) @ [pxEnd m])"
    using I unfolding insertable_def free_list_def by blast
  then show "chain (nx m) ((xStart m # frees as) @ (frees cs @ [pxEnd m]))" by (simp only: append.simps append_assoc)
qed (use ins_distinct [OF I] in auto)

text \<open>The contract of \<open>prvInsertBlockIntoFreeList\<close>, as a change of the store's headers.\<close>

definition inserted :: "heap4 \<Rightarrow> block list \<Rightarrow> u32 \<Rightarrow> u32 \<Rightarrow> block list \<Rightarrow> heap4 \<Rightarrow> bool" where
  "inserted m as p n cs m' \<longleftrightarrow> free_list m' (frees (release as p n cs)) \<and> free_sized m' (release as p n cs) \<and>
     sz m' (xStart m) = 0 \<and> (\<forall>q. q \<notin> set (xStart m # p # frees as @ frees cs) \<longrightarrow> blk m' q = blk m q) \<and>
     (\<exists>B. m' = m\<lparr>blk := B\<rparr>)"

lemma prvInsert_eval:
  assumes I: "insertable m a e as p n cs"
  defines "pr \<equiv> last (xStart m # frees as)" and "q \<equiv> hd (frees cs @ [pxEnd m])"
  defines "L \<equiv> as \<noteq> [] \<and> is_free (last as)" and "R \<equiv> cs \<noteq> [] \<and> is_free (hd cs)"
  defines "b \<equiv> if L then pr else p" and "N \<equiv> if L then sz m pr + n else n"
  defines "l \<equiv> if R then \<lparr>pxNextFreeBlock = nx m q, xBlockSize = N + sz m q\<rparr> else \<lparr>pxNextFreeBlock = q, xBlockSize = N\<rparr>"
  shows "prvInsertBlockIntoFreeList p m =
    Some (if L then upd b l m else upd pr ((blk m pr)\<lparr>pxNextFreeBlock := b\<rparr>) (upd b l m))"
proof -
  have d: "distinct (xStart m # frees as @ p # frees cs @ [pxEnd m])" by (rule ins_distinct [OF I])
  have pr: "pr \<in> set (xStart m # frees as)" unfolding pr_def by (rule last_in_set) simp
  have q: "q \<in> set (frees cs @ [pxEnd m])" unfolding q_def by (rule hd_in_set) simp
  have ne: "pr \<noteq> p" "q \<noteq> p" "q \<noteq> pr" using d pr q by auto
  have ap: "addressable m p" using ins_addr [OF I, of p] ins_bounds [OF I] by simp
  have apr: "addressable m pr"
    using pr ins_before [OF I, of pr] ins_addr [OF I, of pr] ins_bounds(2) [OF I] start_addressable by auto
  have aq: "addressable m q"
    using q ins_after [OF I, of q] ins_addr [OF I, of q] ins_bounds [OF I] by auto
  have nq: "nx m pr = q" unfolding pr_def q_def by (rule chain_next [OF ins_chain(1) [OF I]]) simp_all
  have it: "insert_iter m p (xStart m) = Some pr" unfolding pr_def by (rule ins_iter [OF I])
  have n: "sz m p = n" using I by (simp add: insertable_def)
  have L: "pr + sz m pr = p \<and> unat pr + unat (sz m pr) = unat p \<and> unat (sz m pr + n) = unat (sz m pr) + unat n" if L
  proof -
    from that obtain r k where "as = butlast as @ [(r, k, True)]"
      unfolding L_def by (metis (full_types) append_butlast_last_id prod.collapse)
    from ins_left [OF I this] show ?thesis by (simp add: pr_def)
  qed
  have left: "pr + sz m pr = p \<longleftrightarrow> L"
  proof (cases L)
    case True
    with L show ?thesis by simp
  next
    case False
    then show ?thesis using ins_no_left [OF I] by (auto simp: L_def pr_def)
  qed
  have bN: "unat b + unat N = unat p + unat n"
    using L by (cases L) (simp_all add: b_def N_def)
  have right: "b + N = q \<longleftrightarrow> cs = [] \<or> is_free (hd cs)"
    using ins_right [OF I bN] by (simp add: q_def)
  have qe: "q = pxEnd m" if "cs = []" using that by (simp add: q_def heap_simps)
  have qn: "q \<noteq> pxEnd m" if R
  proof -
    have "frees cs \<noteq> []" using that by (cases cs) (auto simp: R_def heap_simps)
    then have "q \<in> set (frees cs)" by (cases "frees cs") (auto simp: q_def)
    then show ?thesis using d by auto
  qed
  have test: "cs \<noteq> [] \<Longrightarrow> \<not> R \<Longrightarrow> b + N \<noteq> q" "R \<Longrightarrow> b + N = q" "cs = [] \<Longrightarrow> b + N = pxEnd m" "cs = [] \<Longrightarrow> \<not> R"
    using right qe by (auto simp: R_def)
  show ?thesis
  proof (cases L)
    case True
    then show ?thesis using ap apr aq nq it n L ne(3) test qn
      by (cases "cs = []"; cases R) (simp_all add: prvInsertBlockIntoFreeList_def heap_simps l_def b_def N_def)
  next
    case False
    then show ?thesis using ap apr aq nq it n left ne test qn
      by (cases "cs = []"; cases R) (simp_all add: prvInsertBlockIntoFreeList_def heap_simps l_def b_def N_def)
  qed
qed

lemma absorb_right_cases:
  obtains (none) "cs = [] \<or> \<not> is_free (hd cs)" "absorb_right p n cs = (p, n, True) # cs"
    | (merge) q j cs' where "cs = (q, j, True) # cs'" "absorb_right p n cs = (p, n + j, True) # cs'"
  by (cases "(p, n, cs)" rule: absorb_right.cases) auto

text \<open>The four ways a block goes back: with or without a free neighbour on either side.\<close>

lemma prvInsert_ok:
  assumes I: "insertable m a e as p n cs"
  shows "\<exists>m'. prvInsertBlockIntoFreeList p m = Some m' \<and> inserted m as p n cs m'"
proof -
  let ?xs = "xStart m # frees as" and ?ys = "frees cs @ [pxEnd m]"
  let ?L = "as \<noteq> [] \<and> is_free (last as)"
  let ?R = "cs \<noteq> [] \<and> is_free (hd cs)"
  obtain pr q where pr: "last ?xs = pr" and q: "hd ?ys = q" by simp
  note ch = ins_chain [OF I]
  note ev = prvInsert_eval [OF I, unfolded pr q]
  have fs: "free_sized m as" "free_sized m cs" and s0: "sz m (xStart m) = 0"
    using I by (simp_all add: insertable_def heap_simps)
  have ne: "pr \<noteq> p" "xStart m \<noteq> p" "p \<notin> set (frees as)" "p \<notin> set (frees cs)" "p \<noteq> pxEnd m"
    and mem: "pr \<in> set ?xs" "q \<in> set ?ys"
    using ch(2) last_in_set [of ?xs] hd_in_set [of ?ys] unfolding pr q by auto
  consider (alone) "\<not> ?L" "\<not> ?R" | (right) "\<not> ?L" ?R | (left) ?L "\<not> ?R" | (both) ?L ?R by blast
  then show ?thesis
  proof cases
    case alone
    let ?m = "upd pr ((blk m pr)\<lparr>pxNextFreeBlock := p\<rparr>) (upd p \<lparr>pxNextFreeBlock = q, xBlockSize = n\<rparr> m)"
    have r: "release as p n cs = as @ (p, n, True) # cs"
      using alone by (cases rule: absorb_right_cases [of cs p n]) (auto simp: release_def)
    have f: "nx ?m = (nx m)(p := q, pr := p)" using ne(1) by (auto simp: heap_simps fun_eq_iff)
    have "chain ((nx m)(p := q, pr := p)) (?xs @ p # ?ys)"
      using chain_splice [OF ch(1,2)] unfolding pr q by simp
    then have "free_list ?m (frees (release as p n cs))"
      unfolding free_list_def f r by (simp add: heap_simps)
    moreover have "free_sized ?m as" "free_sized ?m cs"
      using fs ne by (auto simp: heap_simps intro!: free_sized_upd)
    ultimately have "inserted m as p n cs ?m" using ne s0 mem(1)
      by (auto simp: inserted_def r heap_simps) (auto simp: upd_def)
    moreover have "prvInsertBlockIntoFreeList p m = Some ?m" using ev alone by (auto simp: heap_simps)
    ultimately show ?thesis by blast
  next
    case right
    then obtain j cs' where cs: "cs = (q, j, True) # cs'"
      using q by (cases cs) (auto simp: heap_simps)
    let ?ys' = "frees cs' @ [pxEnd m]"
    have ys: "?ys = q # ?ys'" by (simp add: cs heap_simps)
    have j: "sz m q = j" using fs(2) by (simp add: cs heap_simps)
    let ?m = "upd pr ((blk m pr)\<lparr>pxNextFreeBlock := p\<rparr>) (upd p \<lparr>pxNextFreeBlock = nx m q, xBlockSize = n + j\<rparr> m)"
    have r: "release as p n cs = as @ (p, n + j, True) # cs'"
      using right by (auto simp: release_def cs)
    have f: "nx ?m = (nx m)(p := nx m q, pr := p)" using ne(1) by (auto simp: heap_simps fun_eq_iff)
    have c: "chain ((nx m)(pr := nx m q)) (?xs @ ?ys')" "nx m q = hd ?ys'"
      using chain_cut [of "nx m" ?xs q ?ys'] ch(1,3) unfolding ys pr by simp_all
    have "distinct (?xs @ p # ?ys')" using ch(2) unfolding ys by simp
    then have "chain ((nx m)(pr := nx m q, p := hd ?ys', pr := p)) (?xs @ p # ?ys')"
      using chain_splice [OF c(1), of p] unfolding pr by simp
    then have "free_list ?m (frees (release as p n cs))"
      unfolding free_list_def f r c(2) [symmetric] using ne(1) by (simp add: heap_simps fun_upd_twist)
    moreover have "free_sized ?m as" "free_sized ?m cs'"
      using fs ne by (auto simp: heap_simps cs intro!: free_sized_upd)
    ultimately have "inserted m as p n cs ?m" using ne s0 mem(1)
      by (auto simp: inserted_def r heap_simps) (auto simp: upd_def)
    moreover have "prvInsertBlockIntoFreeList p m = Some ?m" using ev right j by (auto simp: heap_simps)
    ultimately show ?thesis by blast
  next
    case left
    then obtain k as' where as: "as = as' @ [(pr, k, True)]"
      using pr by (cases as rule: rev_cases) (auto simp: heap_simps)
    have k: "sz m pr = k" using fs(1) by (simp add: as heap_simps)
    have px: "pr \<noteq> xStart m" "pr \<notin> set (frees as')" "pr \<notin> set (frees cs)" using ch(3) by (auto simp: as heap_simps)
    let ?m = "upd pr \<lparr>pxNextFreeBlock = q, xBlockSize = k + n\<rparr> m"
    have r: "release as p n cs = as' @ (pr, k + n, True) # cs"
      using left by (cases rule: absorb_right_cases [of cs pr "k + n"]) (auto simp: release_def as)
    have "nx m pr = q" using chain_next [OF ch(1)] pr q by simp
    then have f: "nx ?m = nx m" by (auto simp: heap_simps fun_eq_iff)
    have "free_list ?m (frees (release as p n cs))"
      using ch(1) unfolding free_list_def f r by (simp add: heap_simps as)
    moreover have "free_sized ?m as'" "free_sized ?m cs"
      using fs px by (auto simp: heap_simps as intro!: free_sized_upd)
    ultimately have "inserted m as p n cs ?m" using px s0 mem(1)
      by (auto simp: inserted_def r heap_simps) (auto simp: upd_def)
    moreover have "prvInsertBlockIntoFreeList p m = Some ?m" using ev left k by (auto simp: heap_simps)
    ultimately show ?thesis by blast
  next
    case both
    then obtain k as' j cs' where as: "as = as' @ [(pr, k, True)]" and cs: "cs = (q, j, True) # cs'"
      using pr q by (cases as rule: rev_cases; cases cs) (auto simp: heap_simps)
    let ?ys' = "frees cs' @ [pxEnd m]"
    have ys: "?ys = q # ?ys'" by (simp add: cs heap_simps)
    have k: "sz m pr = k" "sz m q = j" using fs by (simp_all add: as cs heap_simps)
    have px: "pr \<noteq> xStart m" "pr \<notin> set (frees as')" "pr \<notin> set (frees cs')" using ch(3) by (auto simp: as cs heap_simps)
    let ?m = "upd pr \<lparr>pxNextFreeBlock = nx m q, xBlockSize = k + n + j\<rparr> m"
    have r: "release as p n cs = as' @ (pr, k + n + j, True) # cs'" by (simp add: release_def as cs)
    have f: "nx ?m = (nx m)(pr := nx m q)" by (auto simp: heap_simps fun_eq_iff)
    have "chain ((nx m)(pr := nx m q)) (?xs @ ?ys')"
      using chain_cut [of "nx m" ?xs q ?ys'] ch(1,3) unfolding ys pr by simp
    then have "free_list ?m (frees (release as p n cs))"
      unfolding free_list_def f r by (simp add: heap_simps as)
    moreover have "free_sized ?m as'" "free_sized ?m cs'"
      using fs px by (auto simp: heap_simps as cs intro!: free_sized_upd)
    ultimately have "inserted m as p n cs ?m" using px s0 mem(1)
      by (auto simp: inserted_def r heap_simps) (auto simp: upd_def)
    moreover have "prvInsertBlockIntoFreeList p m = Some ?m" using ev both k by (auto simp: heap_simps)
    ultimately show ?thesis by blast
  qed
qed

section \<open>The invariant of the heap\<close>

definition heap_ok :: "heap4 \<Rightarrow> nat \<Rightarrow> nat \<Rightarrow> block list \<Rightarrow> bool" where
  "heap_ok m a e bs \<longleftrightarrow> placed m a e \<and> pxEnd m = of_nat e \<and> tiles a bs e \<and> coalesced bs \<and>
     free_list m (frees bs) \<and> free_sized m bs \<and> used_marked m bs \<and> sz m (xStart m) = 0 \<and>
     blk m (pxEnd m) = \<lparr>pxNextFreeBlock = 0, xBlockSize = 0\<rparr> \<and>
     unat (xFreeBytesRemaining m) = free_sum bs \<and>
     xMinimumEverFreeBytesRemaining m \<le> xFreeBytesRemaining m \<and> xBlockAllocatedBit m = ALLOCATED"

text \<open>The blocks after a release.\<close>

lemma absorb_tiles:
  assumes "tiles (unat p + unat n) cs e" "8 dvd unat n" "0 < unat n" "e < 2 ^ 32"
  shows "tiles (unat p) (absorb_right p n cs) e"
proof (cases rule: absorb_right_cases [of cs p n])
  case none
  then show ?thesis using assms by simp
next
  case (merge q j cs')
  have "unat p + unat n + unat j \<le> e" using assms(1) merge(1) tiles_le by auto
  then have "unat (n + j) = unat n + unat j" using block_end(1) [of n j] assms(4) by simp
  then show ?thesis using assms merge by (auto simp: add.assoc)
qed

lemma absorb_sum:
  assumes "tiles (unat p + unat n) cs e" "e < 2 ^ 32"
  shows "free_sum (absorb_right p n cs) = unat n + free_sum cs"
proof (cases rule: absorb_right_cases [of cs p n])
  case (merge q j cs')
  have "unat p + unat n + unat j \<le> e" using assms(1) merge(1) tiles_le by auto
  then have "unat (n + j) = unat n + unat j" using block_end(1) [of n j] assms(2) by simp
  then show ?thesis using merge by (simp add: heap_simps)
qed (simp add: heap_simps)

lemma coalesced_append:
  "coalesced (as @ bs) \<longleftrightarrow> coalesced as \<and> coalesced bs \<and> (as \<noteq> [] \<and> bs \<noteq> [] \<longrightarrow> \<not> (is_free (last as) \<and> is_free (hd bs)))"
  by (induction as rule: coalesced.induct; cases bs; auto)

lemma coalesced_absorb: "coalesced cs \<Longrightarrow> coalesced (absorb_right p n cs)"
proof (cases rule: absorb_right_cases [of cs p n])
  case none
  then show "coalesced cs \<Longrightarrow> ?thesis" by (cases cs) auto
next
  case (merge q j cs')
  then show "coalesced cs \<Longrightarrow> ?thesis" by (cases cs') auto
qed

lemma release_cases:
  obtains (none) "as = [] \<or> \<not> is_free (last as)" "release as p n cs = as @ absorb_right p n cs"
    | (merge) as' r k where "as = as' @ [(r, k, True)]" "release as p n cs = as' @ absorb_right r (k + n) cs"
proof (cases "as \<noteq> [] \<and> is_free (last as)")
  case True
  then obtain r k where "as = butlast as @ [(r, k, True)]"
    by (metis (full_types) append_butlast_last_id prod.collapse)
  moreover from this have "release as p n cs = butlast as @ absorb_right r (k + n) cs"
    using True unfolding release_def by (metis fst_conv last_snoc snd_conv)
  ultimately show thesis by (rule that(2))
qed (auto intro: that(1) simp: release_def)

lemma hd_absorb: "is_free (hd (absorb_right p n cs))" "absorb_right p n cs \<noteq> []"
  by (cases rule: absorb_right_cases [of cs p n]; simp)+

lemma release_ok:
  assumes t: "tiles a (as @ (p, n, False) # cs) e" and e: "e < 2 ^ 32"
    and c: "coalesced as" "coalesced cs"
  shows "tiles a (release as p n cs) e" "coalesced (release as p n cs)"
    "free_sum (release as p n cs) = free_sum as + unat n + free_sum cs"
proof -
  have t': "tiles a as (unat p)" "tiles (unat p + unat n) cs e" "0 < unat n" "8 dvd unat n"
    using t by (auto simp: tiles_append)
  have "tiles a (release as p n cs) e \<and> coalesced (release as p n cs) \<and>
    free_sum (release as p n cs) = free_sum as + unat n + free_sum cs"
  proof (cases rule: release_cases [of as p n cs])
    case none
    then show ?thesis using absorb_tiles [OF t'(2,4,3) e] absorb_sum [OF t'(2) e] t' c coalesced_absorb [OF c(2)] hd_absorb
      by (auto simp: tiles_append heap_simps coalesced_append)
  next
    case (merge as' r k)
    have tr: "tiles a as' (unat r)" "unat r + unat k = unat p" "0 < unat k" "8 dvd unat k"
      using t'(1) merge(1) by (auto simp: tiles_append)
    then have k: "unat (k + n) = unat k + unat n" using block_end(1) [of k n] tiles_le [OF t'(2)] e by simp
    then have cs: "tiles (unat r + unat (k + n)) cs e" using t'(2) k unfolding tr(2) [symmetric] by (simp add: add.assoc)
    have "coalesced as'" "as' \<noteq> [] \<Longrightarrow> \<not> is_free (last as')" using c(1) merge(1) by (auto simp: coalesced_append)
    then show ?thesis
      using merge tr t' k absorb_tiles [OF cs _ _ e] absorb_sum [OF cs e] coalesced_absorb [OF c(2)] hd_absorb
      by (auto simp: tiles_append heap_simps coalesced_append)
  qed
  then show "tiles a (release as p n cs) e" "coalesced (release as p n cs)"
    "free_sum (release as p n cs) = free_sum as + unat n + free_sum cs" by blast+
qed

lemma release_used: "\<not> f \<Longrightarrow> (q, k, f) \<in> set (release as p n cs) \<longleftrightarrow> (q, k, f) \<in> set (as @ cs)"
proof (cases rule: release_cases [of as p n cs])
  case none
  then show "\<not> f \<Longrightarrow> ?thesis" by (cases rule: absorb_right_cases [of cs p n]) auto
next
  case (merge as' r j)
  then show "\<not> f \<Longrightarrow> ?thesis" by (cases rule: absorb_right_cases [of cs r "j + n"]) auto
qed

lemma used_marked_iff: "used_marked m bs \<longleftrightarrow>
    (\<forall>q n. (q, n, False) \<in> set bs \<longrightarrow> sz m q = n OR ALLOCATED \<and> nx m q = 0)"
  by (auto simp: used_marked_def)

lemma used_marked_release: "used_marked m (release as p n cs) \<longleftrightarrow> used_marked m (as @ cs)"
  unfolding used_marked_iff by (simp only: release_used [of False] not_False_eq_True)

lemma tiles_addr_unique: "tiles a bs e \<Longrightarrow> (q, n, f) \<in> set bs \<Longrightarrow> (q, k, g) \<in> set bs \<Longrightarrow> n = k \<and> f = g"
  by (metis tiles_distinct eq_key_imp_eq_value prod.inject)

lemma inserted_used:
  assumes I: "insertable m a e as p n cs" and J: "inserted m as p n cs m'" and xs: "set xs \<subseteq> set (as @ cs)"
    and u: "used_marked m xs"
  shows "used_marked m' xs"
proof -
  have "blk m' q = blk m q" if "(q, k, False) \<in> set xs" for q k
  proof -
    have b: "(q, k, False) \<in> set as \<union> set cs" using that xs by auto
    have t: "tiles a (as @ (p, n, False) # cs) e" using I by (simp add: insertable_def)
    have "q \<notin> set (frees as @ frees cs)"
      using tiles_addr_unique [OF t, of q k False] b by (auto simp: frees_iff)
    moreover have "q \<noteq> p" using tiles_distinct [OF t] b by force
    moreover have "a \<le> unat q" "unat q \<le> e" using tiles_mem [OF t, of q k False] b by auto
    then have "q \<noteq> xStart m" using ins_addr [OF I] by blast
    ultimately show ?thesis using J by (auto simp: inserted_def)
  qed
  then show ?thesis using u by (simp add: used_marked_iff)
qed

lemma inserted_end:
  assumes I: "insertable m a e as p n cs" and J: "inserted m as p n cs m'"
  shows "blk m' (pxEnd m) = blk m (pxEnd m)"
proof -
  have "pxEnd m \<notin> set (xStart m # p # frees as @ frees cs)" using ins_distinct [OF I] by auto
  then show ?thesis using J unfolding inserted_def by blast
qed

text \<open>The allocated bit in a size below \<open>2\<^sup>3\<^sup>1\<close>.\<close>

lemma bit_ALLOCATED: "bit ALLOCATED i \<longleftrightarrow> i = 31"
  unfolding ALLOCATED_def by (auto simp: bit_simps simp del: push_bit_of_1)

lemma ALLOCATED_nz: "ALLOCATED \<noteq> 0"
  by (simp add: ALLOCATED_def)

lemma allocated_bit:
  fixes n :: u32
  assumes "unat n < 2 ^ 31"
  shows "n AND ALLOCATED = 0" "(n OR ALLOCATED) AND ALLOCATED = ALLOCATED"
    "(n OR ALLOCATED) AND NOT (ALLOCATED) = n"
proof -
  have "unat n div 2 ^ 31 = 0" using assms by (rule div_less)
  then have "\<not> bit (unat n) 31" unfolding bit_iff_odd by simp
  then have nb: "\<not> bit n 31" by (simp add: bit_unsigned_iff)
  show "n AND ALLOCATED = 0" using nb by (auto intro!: bit_word_eqI simp: bit_simps bit_ALLOCATED)
  show "(n OR ALLOCATED) AND ALLOCATED = ALLOCATED" by (auto intro!: bit_word_eqI simp: bit_simps bit_ALLOCATED)
  show "(n OR ALLOCATED) AND NOT (ALLOCATED) = n" using nb by (auto intro!: bit_word_eqI simp: bit_simps bit_ALLOCATED)
qed

lemma used_marked_append: "used_marked m (as @ bs) \<longleftrightarrow> used_marked m as \<and> used_marked m bs"
  "used_marked m ((q, n, f) # bs) \<longleftrightarrow> (\<not> f \<longrightarrow> sz m q = n OR ALLOCATED \<and> nx m q = 0) \<and> used_marked m bs"
  by (simp_all add: used_marked_def ball_Un)

lemma used_marked_upd: "used_marked m bs \<Longrightarrow> q \<notin> fst ` set bs \<Longrightarrow> used_marked (upd q l m) bs"
  by (force simp: used_marked_iff heap_simps)

text \<open>The counters do not matter to the structure of the heap.\<close>

lemma counters [heap_simps]:
  "free_list (m\<lparr>xFreeBytesRemaining := v\<rparr>) fs = free_list m fs"
  "free_list (m\<lparr>xMinimumEverFreeBytesRemaining := v\<rparr>) fs = free_list m fs"
  "free_sized (m\<lparr>xFreeBytesRemaining := v\<rparr>) bs = free_sized m bs"
  "free_sized (m\<lparr>xMinimumEverFreeBytesRemaining := v\<rparr>) bs = free_sized m bs"
  "used_marked (m\<lparr>xFreeBytesRemaining := v\<rparr>) bs = used_marked m bs"
  "used_marked (m\<lparr>xMinimumEverFreeBytesRemaining := v\<rparr>) bs = used_marked m bs"
  "placed (m\<lparr>xFreeBytesRemaining := v\<rparr>) a e = placed m a e"
  "placed (m\<lparr>xMinimumEverFreeBytesRemaining := v\<rparr>) a e = placed m a e"
  "addressable (m\<lparr>xFreeBytesRemaining := v\<rparr>) q = addressable m q"
  "addressable (m\<lparr>xMinimumEverFreeBytesRemaining := v\<rparr>) q = addressable m q"
  "placed (upd q l m) a e = placed m a e"
  by (simp_all add: free_list_def free_sized_def used_marked_def placed_def addressable_def upd_def)

lemma free_list_upd [heap_simps]:
  "q \<noteq> xStart m \<Longrightarrow> q \<notin> set fs \<Longrightarrow> free_list (upd q l m) fs = free_list m fs"
  unfolding free_list_def upd_simps by (rule chain_cong) (auto simp: butlast_append)

lemma heap_ok_bounds:
  assumes "heap_ok m a e bs" "(q, n, f) \<in> set bs"
  shows "a \<le> unat q" "unat q + unat n \<le> e" "0 < unat n" "8 dvd unat n" "e < 2 ^ 31" "addressable m q" "q \<noteq> xStart m"
    "q \<noteq> 0" "q \<noteq> pxEnd m"
proof -
  have t: "tiles a bs e" and p: "placed m a e" using assms by (auto simp: heap_ok_def)
  show *: "a \<le> unat q" "unat q + unat n \<le> e" "0 < unat n" "8 dvd unat n" using tiles_mem [OF t assms(2)] by auto
  then show "addressable m q" "q \<noteq> xStart m" "q \<noteq> 0" "e < 2 ^ 31" using p by (auto simp: placed_def addressable_def)
  show "q \<noteq> pxEnd m" using * unat_end [OF p] assms(1) by (auto simp: heap_ok_def)
qed

lemma coalesced_tl: "coalesced (b # bs) \<Longrightarrow> coalesced bs"
  by (cases bs) auto

lemma around_sum: "tiles a (as @ (p, n, f) # cs) e \<Longrightarrow> free_sum as + unat n + free_sum cs \<le> e"
  using tiles_free_sum [of a as "unat p"] tiles_free_sum [of "unat p + unat n" cs e] by (auto simp: tiles_append)

lemma payload_nz: "unat p + unat n \<le> e \<Longrightarrow> 0 < unat n \<Longrightarrow> 8 dvd unat n \<Longrightarrow> e < 2 ^ 31 \<Longrightarrow> (p :: u32) + 8 \<noteq> 0"
  using block_end(2) [of p 8 0] dvd_imp_le [of 8 "unat n"] by (auto simp: word_unat_eq_iff)

text \<open>A release from a store that satisfies all but the one block that goes back.\<close>

lemma release_heap_ok:
  assumes I: "insertable m a e as p n cs" and J: "inserted m as p n cs m'"
    and c: "coalesced as" "coalesced cs" and u: "used_marked m (as @ cs)"
    and b: "xBlockAllocatedBit m = ALLOCATED" "blk m (pxEnd m) = \<lparr>pxNextFreeBlock = 0, xBlockSize = 0\<rparr>"
    and f: "unat (xFreeBytesRemaining m) = free_sum as + unat n + free_sum cs"
      "xMinimumEverFreeBytesRemaining m \<le> xFreeBytesRemaining m"
  shows "heap_ok m' a e (release as p n cs)"
proof -
  obtain B where m': "m' = m\<lparr>blk := B\<rparr>" using J by (auto simp: inserted_def)
  have i: "placed m a e" "pxEnd m = of_nat e" "tiles a (as @ (p, n, False) # cs) e" using I by (auto simp: insertable_def)
  have e: "e < 2 ^ 32" using i(1) by (simp add: placed_def)
  have p: "placed m' a e" using i(1) by (simp add: placed_def m')
  have "used_marked m' (release as p n cs)"
    unfolding used_marked_release by (rule inserted_used [OF I J _ u]) simp
  moreover have "blk m' (pxEnd m') = \<lparr>pxNextFreeBlock = 0, xBlockSize = 0\<rparr>"
    using inserted_end [OF I J] b(2) by (simp add: m')
  ultimately show ?thesis
    using J p i(2) release_ok [OF i(3) e c] b(1) f unfolding heap_ok_def inserted_def
    by (simp add: m')
qed

lemma free_ok:
  assumes "heap_ok m a e (as @ (p, n, False) # cs)"
  shows "\<exists>m'. vPortFree (p + 8) m = Some m' \<and> heap_ok m' a e (release as p n cs) \<and>
    xFreeBytesRemaining m' = xFreeBytesRemaining m + n \<and>
    xMinimumEverFreeBytesRemaining m' = xMinimumEverFreeBytesRemaining m"
proof -
  note b = heap_ok_bounds [OF assms, of p n False, simplified]
  let ?m = "(upd p \<lparr>pxNextFreeBlock = 0, xBlockSize = n\<rparr> m)\<lparr>xFreeBytesRemaining := xFreeBytesRemaining m + n\<rparr>"
  have h: "sz m p = n OR ALLOCATED" "nx m p = 0" "xBlockAllocatedBit m = ALLOCATED"
    using assms by (simp_all add: heap_ok_def used_marked_append)
  have n: "unat n < 2 ^ 31" using b(2,5) by simp
  have t: "tiles a (as @ (p, n, False) # cs) e" using assms by (simp add: heap_ok_def)
  have pd: "p \<notin> fst ` set (as @ cs)" "p \<notin> set (frees as @ frees cs)"
    using tiles_distinct [OF t] by (auto simp: frees_def)
  have "free_sized m as" "free_sized m cs" "free_list m (frees as @ frees cs)"
    using assms by (simp_all add: heap_ok_def heap_simps)
  then have fs: "free_sized (upd p l m) as" "free_sized (upd p l m) cs" "free_list (upd p l m) (frees as @ frees cs)" for l
    using pd(2) b(7) by (auto simp: heap_simps intro!: free_sized_upd)
  have I: "insertable ?m a e as p n cs"
    using assms t b(7) fs by (auto simp: heap_ok_def insertable_def heap_simps)
  from prvInsert_ok [OF I] obtain m' where m': "prvInsertBlockIntoFreeList p ?m = Some m'" "inserted ?m as p n cs m'"
    by blast
  have c: "coalesced as" "coalesced cs" using assms by (auto simp: heap_ok_def coalesced_append dest: coalesced_tl)
  have u: "used_marked ?m (as @ cs)"
    using assms pd(1) by (auto simp: heap_ok_def used_marked_append heap_simps intro!: used_marked_upd)
  have ff: "unat (xFreeBytesRemaining m) = free_sum as + free_sum cs"
    using assms by (simp add: heap_ok_def heap_simps)
  have "free_sum as + unat n + free_sum cs \<le> e" by (rule around_sum [OF t])
  then have "free_sum as + unat n + free_sum cs < 2 ^ 31" using b(5) by simp
  then have f: "unat (xFreeBytesRemaining m + n) = free_sum as + unat n + free_sum cs"
    using ff block_end(1) [of "xFreeBytesRemaining m" n] by simp
  have "heap_ok m' a e (release as p n cs)"
    using assms f b(9) by (intro release_heap_ok [OF I m'(2) c u]) (auto simp: heap_ok_def heap_simps word_le_nat_alt)
  moreover have "vPortFree (p + 8) m = Some m'"
    using b(2-6) h m'(1) allocated_bit [OF n] ALLOCATED_nz payload_nz [of p n e]
    by (simp add: vPortFree_def heap_simps)
  ultimately show ?thesis using m'(2) by (auto simp: inserted_def heap_simps)
qed


text \<open>
  C24: freeing an allocated block succeeds: the heap is again well formed, with the block merged
  into the free blocks next to it, its bytes counted as free and the minimum ever unchanged.
\<close>

theorem vPortFree_releases:
  assumes "heap_ok m a e (as @ (p, n, False) # cs)"
  shows "\<exists>m'. vPortFree (p + 8) m = Some m' \<and> heap_ok m' a e (release as p n cs) \<and>
    xFreeBytesRemaining m' = xFreeBytesRemaining m + n \<and>
    xMinimumEverFreeBytesRemaining m' = xMinimumEverFreeBytesRemaining m"
  by (rule free_ok [OF assms])

section \<open>Allocation\<close>

text \<open>The first free block large enough, with the blocks in front of it and behind it.\<close>

abbreviation fits :: "u32 \<Rightarrow> block \<Rightarrow> bool" where "fits w b \<equiv> is_free b \<and> w \<le> fst (snd b)"

lemma find_fit_ok:
  assumes "chain (nx m) (pr # frees bs @ [pxEnd m])" "free_sized m bs"
    and "\<forall>q \<in> set (frees bs) \<union> {pxEnd m}. addressable m q \<and> q \<noteq> 0"
    and "blk m (pxEnd m) = \<lparr>pxNextFreeBlock = 0, xBlockSize = 0\<rparr>"
  shows "find_fit m w pr (hd (frees bs @ [pxEnd m])) =
    Some (last (pr # frees (takeWhile (\<lambda>b. \<not> fits w b) bs)), hd (map fst (dropWhile (\<lambda>b. \<not> fits w b) bs) @ [pxEnd m]))"
  using assms
proof (induction bs arbitrary: pr)
  case Nil
  then show ?case by (subst find_fit.simps) (simp add: heap_simps)
next
  case (Cons b bs)
  obtain q n f where b: "b = (q, n, f)" by (cases b)
  show ?case
  proof (cases "f \<and> n < w")
    case True
    have q: "chain (nx m) (q # frees bs @ [pxEnd m])" "sz m q = n" "nx m pr = q" "addressable m q"
      using Cons.prems True b by (simp_all add: heap_simps)
    obtain v vs where v: "frees bs @ [pxEnd m] = v # vs" by (cases "frees bs") auto
    have "v \<in> set (frees bs) \<union> {pxEnd m}" using arg_cong [OF v, of set] by auto
    moreover have "nx m q = v" using q(1) v by simp
    ultimately have "nx m q = v" "v \<in> set (frees bs) \<union> {pxEnd m}" by simp_all
    then have "nx m q = hd (frees bs @ [pxEnd m])" "nx m q \<noteq> 0"
      using v Cons.prems(3) b by (auto simp: heap_simps split: if_splits)
    moreover have "find_fit m w q (hd (frees bs @ [pxEnd m])) =
        Some (last (q # frees (takeWhile (\<lambda>b. \<not> fits w b) bs)), hd (map fst (dropWhile (\<lambda>b. \<not> fits w b) bs) @ [pxEnd m]))"
      using Cons.prems True b q(1) by (intro Cons.IH) (simp_all add: heap_simps)
    moreover have "\<not> w \<le> n" using True by (simp add: not_le)
    ultimately show ?thesis using True b q by (subst find_fit.simps) (simp add: heap_simps)
  next
    case False
    show ?thesis
    proof (cases f)
      case True
      then have "w \<le> n" using False by (simp add: not_less)
      then show ?thesis using True False b Cons.prems by (subst find_fit.simps) (simp add: heap_simps)
    next
      case nf: False
      then show ?thesis using Cons.IH [of pr] Cons.prems b by (simp add: heap_simps)
    qed
  qed
qed

text \<open>Rounding: at least eight bytes more, to the next multiple of eight, without overflow.\<close>

lemma and_7: "unat (w AND 7 :: u32) = unat w mod 8"
proof -
  have "w AND 7 = take_bit 3 w" by (simp add: take_bit_eq_mask mask_eq_exp_minus_1)
  then have "w AND 7 = w mod 8" by (simp add: take_bit_eq_mod)
  then show ?thesis by (simp add: unat_mod)
qed

lemma round8: fixes n :: nat
  shows "8 * ((n + 15) div 8) = (if n mod 8 = 0 then n + 8 else n + 8 + (8 - n mod 8))"
proof -
  define q r where "q = n div 8" and "r = n mod 8"
  have n: "n = 8 * q + r" "r < 8" by (simp_all add: q_def r_def)
  have "(n + 15) div 8 = q + (r + 15) div 8" unfolding n(1) by (simp add: div_plus_div_distrib_dvd_left)
  moreover have "(r + 15) div 8 = (if r = 0 then 1 else 2)" using n(2) by (auto intro: div_nat_eqI)
  ultimately show ?thesis using n by (auto simp: r_def [symmetric])
qed

lemma round_up_ok:
  assumes "0 < w" "unat w < 2 ^ 31"
  shows "unat (round_up w) = 8 * ((unat w + 15) div 8)"
proof -
  have w8: "unat (w + 8) = unat w + 8" using block_end(1) [of w 8] assms by simp
  have m: "unat ((w + 8) AND 7) = unat w mod 8" using and_7 [of "w + 8"] w8 by simp
  then have z: "(w + 8) AND 7 = 0 \<longleftrightarrow> unat w mod 8 = 0" by (simp add: word_unat_eq_iff)
  show ?thesis
  proof (cases "unat w mod 8 = 0")
    case True
    then show ?thesis using True z assms w8 by (simp add: round_up_def Let_def round8)
  next
    case False
    have "unat (8 - ((w + 8) AND 7)) = 8 - unat w mod 8"
      using m by (subst unat_sub) (simp_all add: word_le_nat_alt)
    moreover from this have "unat (w + 8 + (8 - ((w + 8) AND 7))) = unat w + 8 + (8 - unat w mod 8)"
      using w8 assms block_end(1) [of "w + 8" "8 - ((w + 8) AND 7)"] by simp
    ultimately show ?thesis using z assms w8 False by (simp add: round_up_def Let_def round8)
  qed
qed


text \<open>The blocks after an allocation of \<open>w\<close> bytes in a free block.\<close>

definition carve :: "block list \<Rightarrow> u32 \<Rightarrow> u32 \<Rightarrow> u32 \<Rightarrow> block list \<Rightarrow> block list" where
  "carve as p n w cs = (if n - w > heapMINIMUM_BLOCK_SIZE
     then as @ (p, w, False) # (p + w, n - w, True) # cs else as @ (p, n, False) # cs)"

lemma carve_ok:
  assumes t: "tiles a (as @ (p, n, True) # cs) e" and c: "coalesced (as @ (p, n, True) # cs)"
    and w: "w \<le> n" "0 < w" "8 dvd unat w" and e: "e < 2 ^ 31"
  shows "tiles a (carve as p n w cs) e" "coalesced (carve as p n w cs)"
    "free_sum (carve as p n w cs) + unat (if n - w > heapMINIMUM_BLOCK_SIZE then w else n) = free_sum (as @ (p, n, True) # cs)"
proof -
  have d: "unat (n - w) = unat n - unat w" using w(1) by (simp add: unat_sub)
  have le: "unat w \<le> unat n" "0 < unat w" using w by (simp_all add: word_le_nat_alt word_less_nat_alt)
  have n: "unat p + unat n \<le> e" using t tiles_mem [of a _ e p n True] by auto
  have pw: "unat (p + w) = unat p + unat w" using block_end(1) [of p w] n le e by simp
  show "tiles a (carve as p n w cs) e"
    using t d pw le w by (auto simp: carve_def tiles_append dvd_diff_nat word_less_nat_alt)
  show "coalesced (carve as p n w cs)"
    using c by (cases cs) (auto simp: carve_def coalesced_append)
  show "free_sum (carve as p n w cs) + unat (if n - w > heapMINIMUM_BLOCK_SIZE then w else n) = free_sum (as @ (p, n, True) # cs)"
    using d le by (simp add: carve_def heap_simps)
qed


text \<open>The state in which \<open>take_block\<close> marks its block: taken out of the free list, with the rest released.\<close>

lemma marked_heap_ok:
  assumes t: "tiles a (as @ (p, w, False) # cs) e" "coalesced (as @ (p, w, False) # cs)"
    and m: "placed m a e" "pxEnd m = of_nat e" "free_list m (frees as @ frees cs)" "free_sized m (as @ cs)"
      "used_marked m (as @ cs)" "sz m p = w" "sz m (xStart m) = 0" "xBlockAllocatedBit m = ALLOCATED"
      "blk m (pxEnd m) = \<lparr>pxNextFreeBlock = 0, xBlockSize = 0\<rparr>"
    and f: "unat (xFreeBytesRemaining m) = free_sum as + unat w + free_sum cs"
      "xMinimumEverFreeBytesRemaining m \<le> xFreeBytesRemaining m"
    and l: "l = \<lparr>pxNextFreeBlock = 0, xBlockSize = w OR ALLOCATED\<rparr>"
    and x: "x = xFreeBytesRemaining m - w" "y \<le> x"
  shows "heap_ok ((upd p l m)\<lparr>xFreeBytesRemaining := x, xMinimumEverFreeBytesRemaining := y\<rparr>) a e (as @ (p, w, False) # cs)"
proof -
  have b: "a \<le> unat p" "unat p + unat w \<le> e" "0 < unat w" using tiles_mem [OF t(1), of p w False] by auto
  then have ne: "p \<noteq> xStart m" "p \<noteq> pxEnd m" using m(1,2) unat_end [OF m(1)] by (auto simp: placed_def)
  have pd: "p \<notin> fst ` set (as @ cs)" "p \<notin> set (frees as @ frees cs)"
    using tiles_distinct [OF t(1)] by (auto simp: frees_def)
  have "unat x = free_sum as + free_sum cs"
    unfolding x(1) using f(1) by (simp add: unat_sub word_le_nat_alt)
  moreover have "free_list (upd p l m) (frees as @ frees cs)" using m(3) ne pd by (simp add: heap_simps)
  moreover have "free_sized (upd p l m) as" "free_sized (upd p l m) cs"
    using m(4) pd by (auto simp: heap_simps intro!: free_sized_upd)
  moreover have "used_marked (upd p l m) as" "used_marked (upd p l m) cs"
    using m(5) pd by (auto simp: used_marked_append intro!: used_marked_upd)
  ultimately show ?thesis using t m(1,2,7,8,9) ne x(2) l
    by (simp add: heap_ok_def heap_simps used_marked_append)
qed


text \<open>The block is out of the free list.\<close>

lemma taken_out:
  assumes ok: "heap_ok m a e (as @ (p, n, True) # cs)"
  defines "pr \<equiv> last (xStart m # frees as)"
  defines "m1 \<equiv> upd pr \<lparr>pxNextFreeBlock = nx m p, xBlockSize = sz m pr\<rparr> m"
  shows "free_list m1 (frees as @ frees cs)" "free_sized m1 (as @ cs)" "used_marked m1 (as @ cs)" "sz m1 (xStart m) = 0"
    "blk m1 p = blk m p" "sz m p = n" "blk m1 (pxEnd m) = \<lparr>pxNextFreeBlock = 0, xBlockSize = 0\<rparr>" "nx m pr = p"
    "addressable m pr" "pr \<noteq> p" "p \<notin> fst ` set (as @ cs)"
proof -
  have t: "tiles a (as @ (p, n, True) # cs) e" using ok by (simp add: heap_ok_def)
  have d: "distinct (frees (as @ (p, n, True) # cs))" by (rule sorted_frees [OF t])
  have bnd: "q \<noteq> xStart m \<and> q \<noteq> pxEnd m \<and> addressable m q" if "q \<in> set (frees (as @ (p, n, True) # cs))" for q
    using that heap_ok_bounds [OF ok, of q] unfolding frees_iff by blast
  have pr: "pr \<in> set (xStart m # frees as)" unfolding pr_def by (rule last_in_set) simp
  have xe: "xStart m \<noteq> pxEnd m" using ok unat_end [of m a e] by (auto simp: heap_ok_def placed_def)
  have D: "distinct ((xStart m # frees as) @ p # (frees cs @ [pxEnd m]))"
    using d bnd xe by (auto simp: heap_simps)
  have ch: "chain (nx m) ((xStart m # frees as) @ p # (frees cs @ [pxEnd m]))"
  proof -
    have "free_list m (frees (as @ (p, n, True) # cs))" using ok by (simp add: heap_ok_def)
    then show ?thesis by (simp add: free_list_def frees_simps)
  qed
  note cut = chain_cut [OF ch D, folded pr_def, simplified]
  show "nx m pr = p" using cut by simp
  show ap: "addressable m pr" using pr bnd start_addressable by (auto simp: heap_simps)
  show np: "pr \<noteq> p" using D pr by auto
  have "nx m1 = (nx m)(pr := nx m p)" by (auto simp: m1_def heap_simps fun_eq_iff)
  then show "free_list m1 (frees as @ frees cs)" using cut(1) by (simp add: free_list_def m1_def heap_simps)
  have "free_sized m as" "free_sized m cs" "sz m p = n" using ok by (simp_all add: heap_ok_def heap_simps)
  then show "free_sized m1 (as @ cs)" "sz m p = n" by (auto simp: m1_def heap_simps intro!: free_sized_upd)
  show "sz m1 (xStart m) = 0" using ok by (auto simp: m1_def heap_ok_def heap_simps)
  show "blk m1 p = blk m p" using np by (simp add: m1_def heap_simps)
  have "pr \<noteq> pxEnd m" using pr bnd xe by (auto simp: heap_simps)
  moreover have "blk m (pxEnd m) = \<lparr>pxNextFreeBlock = 0, xBlockSize = 0\<rparr>" using ok unfolding heap_ok_def by blast
  ultimately show "blk m1 (pxEnd m) = \<lparr>pxNextFreeBlock = 0, xBlockSize = 0\<rparr>" by (simp add: m1_def heap_simps)
  show pd: "p \<notin> fst ` set (as @ cs)" using tiles_distinct [OF t] by auto
  have "blk m1 q = blk m q" if "(q, k, False) \<in> set (as @ cs)" for q k
  proof -
    have "q \<noteq> xStart m" using heap_ok_bounds(7) [OF ok, of q k False] that by auto
    moreover have "q \<notin> set (frees as)" using tiles_addr_unique [OF t, of q k False] that by (auto simp: frees_iff)
    ultimately show ?thesis using pr by (auto simp: m1_def heap_simps)
  qed
  then show "used_marked m1 (as @ cs)" using ok by (auto simp: heap_ok_def used_marked_iff)
qed


text \<open>The bookkeeping at the end of \<open>take_block\<close>.\<close>

definition mark_block :: "u32 \<Rightarrow> u32 \<Rightarrow> heap4 \<Rightarrow> heap4" where
  "mark_block p k m = (let x = xFreeBytesRemaining m - k in
     (upd p \<lparr>pxNextFreeBlock = 0, xBlockSize = k OR ALLOCATED\<rparr> m)\<lparr>xFreeBytesRemaining := x,
        xMinimumEverFreeBytesRemaining := min x (xMinimumEverFreeBytesRemaining m)\<rparr>)"

lemma mark_block_simps [heap_simps]: "xFreeBytesRemaining (mark_block p k m) = xFreeBytesRemaining m - k"
  "xMinimumEverFreeBytesRemaining (mark_block p k m) = min (xFreeBytesRemaining m - k) (xMinimumEverFreeBytesRemaining m)"
  by (simp_all add: mark_block_def Let_def)

lemma mark_allocated_eval:
  "addressable m p \<Longrightarrow> xBlockAllocatedBit m = ALLOCATED \<Longrightarrow> mark_allocated p m = Some (mark_block p (sz m p) m)"
  by (simp add: mark_allocated_def heap_simps mark_block_def Let_def min_def)

lemma take_block_whole:
  assumes ok: "heap_ok m a e (as @ (p, n, True) # cs)" and w: "\<not> n - w > heapMINIMUM_BLOCK_SIZE"
  defines "pr \<equiv> last (xStart m # frees as)"
  defines "m1 \<equiv> upd pr \<lparr>pxNextFreeBlock = nx m p, xBlockSize = sz m pr\<rparr> m"
  shows "take_block w pr p m = Some (p + 8, mark_block p n m1)"
    and "heap_ok (mark_block p n m1) a e (as @ (p, n, False) # cs)"
proof -
  note t = taken_out [OF ok, folded pr_def, folded m1_def]
  note b = heap_ok_bounds [OF ok, of p n True, simplified]
  have "tiles a (as @ (p, n, True) # cs) e" "coalesced (as @ (p, n, True) # cs)" using ok by (simp_all add: heap_ok_def)
  then have tl: "tiles a (as @ (p, n, False) # cs) e" "coalesced (as @ (p, n, False) # cs)"
    by (simp add: tiles_append, cases cs) (auto simp: coalesced_append)
  show "take_block w pr p m = Some (p + 8, mark_block p n m1)"
    using w t(5,6,8,9,10) b(6) ok unfolding heap_ok_def
    by (simp add: take_block_def heap_simps m1_def mark_allocated_eval)
  show "heap_ok (mark_block p n m1) a e (as @ (p, n, False) # cs)"
    unfolding mark_block_def Let_def
    using ok t by (intro marked_heap_ok [OF tl]) (simp_all add: m1_def heap_ok_def heap_simps)
qed


lemma take_block_split:
  assumes ok: "heap_ok m a e (as @ (p, n, True) # cs)" and w: "n - w > heapMINIMUM_BLOCK_SIZE"
    and w': "w \<le> n" "0 < w" "8 dvd unat w"
  defines "pr \<equiv> last (xStart m # frees as)"
  defines "m1 \<equiv> upd pr \<lparr>pxNextFreeBlock = nx m p, xBlockSize = sz m pr\<rparr> m"
  shows "\<exists>m3. take_block w pr p m = Some (p + 8, mark_block p w m3) \<and> xFreeBytesRemaining m3 = xFreeBytesRemaining m \<and>
    xMinimumEverFreeBytesRemaining m3 = xMinimumEverFreeBytesRemaining m \<and>
    heap_ok (mark_block p w m3) a e (as @ (p, w, False) # (p + w, n - w, True) # cs)"
proof -
  note t = taken_out [OF ok, folded pr_def, folded m1_def]
  note b = heap_ok_bounds [OF ok, of p n True, simplified]
  have o: "tiles a (as @ (p, n, True) # cs) e" "coalesced (as @ (p, n, True) # cs)" "e < 2 ^ 31"
    "placed m a e" "pxEnd m = of_nat e" "xBlockAllocatedBit m = ALLOCATED"
    using ok b(5) by (simp_all add: heap_ok_def)
  note c = carve_ok [OF o(1,2) w' o(3)]
  have cv: "carve as p n w cs = as @ (p, w, False) # (p + w, n - w, True) # cs" using w by (simp add: carve_def)
  have tl: "tiles a (as @ (p, w, False) # (p + w, n - w, False) # cs) e" using c(1) unfolding cv by (simp add: tiles_append)
  let ?q = "p + w"
  let ?m2 = "upd p \<lparr>pxNextFreeBlock = nx m p, xBlockSize = w\<rparr> (upd ?q \<lparr>pxNextFreeBlock = nx m1 ?q, xBlockSize = n - w\<rparr> m1)"
  have q: "?q \<noteq> p" "?q \<notin> set (frees as @ frees cs)" "?q \<notin> fst ` set (as @ cs)"
    using tiles_distinct [OF tl] by (auto simp: frees_def)
  have "a \<le> unat ?q \<and> unat ?q + unat (n - w) \<le> e" using tiles_mem [OF tl, of ?q "n - w" False] by simp
  then have aq: "addressable m ?q" "?q \<noteq> xStart m" using o(4) by (auto simp: placed_def addressable_def)
  have pd: "p \<notin> set (frees as @ frees cs)" using t(11) by (auto simp: frees_def)
  have fl: "free_list ?m2 (frees as @ frees cs)" using t(1) q aq(2) b(7) pd by (simp add: heap_simps m1_def)
  have fs: "free_sized ?m2 as" "free_sized ?m2 cs" using t(2) q pd by (auto simp: heap_simps intro!: free_sized_upd)
  have sx: "sz ?m2 (xStart ?m2) = 0" using t(4) q aq(2) b(7) by (auto simp: heap_simps m1_def)
  have I: "insertable ?m2 a e (as @ [(p, w, False)]) ?q (n - w) cs"
    using o(4,5) tl fl fs sx q(1) by (simp add: insertable_def heap_simps m1_def)
  from prvInsert_ok [OF I] obtain m3 where m3: "prvInsertBlockIntoFreeList ?q ?m2 = Some m3"
    "inserted ?m2 (as @ [(p, w, False)]) ?q (n - w) cs m3" by blast
  then obtain B where B: "m3 = ?m2\<lparr>blk := B\<rparr>" by (auto simp: inserted_def)
  have p3: "blk m3 p = \<lparr>pxNextFreeBlock = nx m p, xBlockSize = w\<rparr>"
    using m3(2) q(1) pd b(7) by (simp add: inserted_def heap_simps m1_def)
  have f3: "xFreeBytesRemaining m3 = xFreeBytesRemaining m" "addressable m3 r = addressable m r"
    "xMinimumEverFreeBytesRemaining m3 = xMinimumEverFreeBytesRemaining m" "xStart m3 = xStart m"
    "xBlockAllocatedBit m3 = ALLOCATED" "pxEnd m3 = pxEnd m" "placed m3 a e" for r
    using o(4,6) by (simp_all add: B heap_simps m1_def addressable_def placed_def)
  have "take_block w pr p m = Some (p + 8, mark_block p w m3)"
  proof -
    have "st_next pr (nx m p) m = Some m1" "ld m1 p = Some (blk m p)" "ld m pr = Some (blk m pr)" "ld m p = Some (blk m p)"
      using t(5,9) b(6) by (simp_all add: heap_simps m1_def)
    moreover have "st_size ?q (n - w) m1 = Some (upd ?q \<lparr>pxNextFreeBlock = nx m1 ?q, xBlockSize = n - w\<rparr> m1)"
      using aq(1) by (simp add: heap_simps m1_def)
    moreover have "st_size p w (upd ?q \<lparr>pxNextFreeBlock = nx m1 ?q, xBlockSize = n - w\<rparr> m1) = Some ?m2"
      using b(6) q(1) t(5) by (simp add: heap_simps) (simp add: m1_def heap_simps)
    moreover have "mark_allocated p m3 = Some (mark_block p w m3)"
      using mark_allocated_eval [of m3 p] f3 b(6) p3 by simp
    ultimately show ?thesis using w t(6,8) m3(1) by (simp add: take_block_def)
  qed
  moreover have "heap_ok (mark_block p w m3) a e (as @ (p, w, False) # (p + w, n - w, True) # cs)"
  proof -
    have "\<not> (cs \<noteq> [] \<and> is_free (hd cs))" using o(2) by (cases cs) (auto simp: coalesced_append)
    then have "absorb_right ?q (n - w) cs = (?q, n - w, True) # cs"
      by (cases rule: absorb_right_cases [of cs ?q "n - w"]) auto
    then have r: "release (as @ [(p, w, False)]) ?q (n - w) cs = as @ (p, w, False) # (?q, n - w, True) # cs"
      by (simp add: release_def)
    have i3: "free_list m3 (frees as @ ?q # frees cs)" "free_sized m3 (as @ (?q, n - w, True) # cs)" "sz m3 (xStart m) = 0"
      using m3(2) unfolding inserted_def r by (simp_all add: heap_simps m1_def)
    have "used_marked ?m2 (as @ cs)" using t(3,11) q(3) by (intro used_marked_upd) auto
    then have u3: "used_marked m3 (as @ cs)" by (intro inserted_used [OF I m3(2)]) auto
    have e3: "blk m3 (pxEnd m) = \<lparr>pxNextFreeBlock = 0, xBlockSize = 0\<rparr>" 
    proof -
      have "0 < unat (n - w)" using c(1) unfolding cv by (simp add: tiles_append)
      then have "?q \<noteq> pxEnd m"
        using unat_end [OF o(4)] o(5) tiles_mem [OF tl, of ?q "n - w" False] by auto
      moreover have "blk m3 (pxEnd m) = blk ?m2 (pxEnd m)"
        using inserted_end [OF I m3(2)] by (simp add: heap_simps m1_def)
      ultimately show ?thesis using b(9) t(7) by (simp add: heap_simps)
    qed
    have "unat (xFreeBytesRemaining m) = free_sum as + unat w + (unat (n - w) + free_sum cs)" "unat w + unat (n - w) = unat n"
      using ok w'(1) by (simp_all add: heap_ok_def heap_simps unat_sub word_le_nat_alt)
    then show ?thesis
      unfolding mark_block_def Let_def
      using c(1,2) i3 u3 e3 f3 p3 o(5) ok unfolding cv 
      by (intro marked_heap_ok) (auto simp: heap_simps used_marked_append heap_ok_def)
  qed
  ultimately show ?thesis using f3 by blast
qed


lemma and_ALLOCATED: "(w :: u32) AND ALLOCATED = 0 \<longleftrightarrow> unat w < 2 ^ 31"
proof
  assume "w AND ALLOCATED = 0"
  then have "\<not> bit w 31" using bit_and_iff [of w ALLOCATED 31] by (simp add: bit_ALLOCATED)
  then have "\<not> bit (unat w) 31" by (simp add: bit_unsigned_iff)
  then have "even (unat w div 2 ^ 31)" unfolding bit_iff_odd by simp
  moreover have "unat w div 2 ^ 31 < 2" using unat_u32_lt [of w] by (simp add: less_mult_imp_div_less)
  ultimately have "unat w div 2 ^ 31 = 0" by auto
  then show "unat w < 2 ^ 31" by (simp add: div_eq_0_iff)
qed (rule allocated_bit(1))

lemma malloc_eval:
  fixes w :: u32
  assumes ok: "heap_ok m a e bs"
  defines "P \<equiv> \<lambda>b. \<not> fits (round_up w) b"
  shows "pvPortMalloc w m = (if 0 < w \<and> unat w < 2 ^ 31 \<and> round_up w \<le> xFreeBytesRemaining m \<and> dropWhile P bs \<noteq> []
    then take_block (round_up w) (last (xStart m # frees (takeWhile P bs))) (fst (hd (dropWhile P bs))) m
    else Some (0, m))"
proof -
  have o: "free_list m (frees bs)" "free_sized m bs" "blk m (pxEnd m) = \<lparr>pxNextFreeBlock = 0, xBlockSize = 0\<rparr>"
    "xBlockAllocatedBit m = ALLOCATED" "placed m a e" "unat (pxEnd m) = e"
    using ok unat_end [of m a e] by (auto simp: heap_ok_def)
  have e: "pxEnd m \<noteq> 0" "addressable m (pxEnd m)" using o(5,6) by (auto simp: placed_def addressable_def)
  have ad: "\<forall>q \<in> set (frees bs) \<union> {pxEnd m}. addressable m q \<and> q \<noteq> 0"
  proof -
    have "addressable m q \<and> q \<noteq> 0" if "q \<in> set (frees bs)" for q
      using that heap_ok_bounds(6,8) [OF ok, of q] unfolding frees_iff by blast
    then show ?thesis using e by auto
  qed
  have ch: "chain (nx m) (xStart m # frees bs @ [pxEnd m])" using o(1) by (simp add: free_list_def)
  have st: "nx m (xStart m) = hd (frees bs @ [pxEnd m])"
    using chain_next [of "nx m" "[xStart m]" "frees bs @ [pxEnd m]"] ch by simp
  have ff: "find_fit m (round_up w) (xStart m) (nx m (xStart m)) = Some (last (xStart m # frees (takeWhile P bs)),
      hd (map fst (dropWhile P bs) @ [pxEnd m]))"
    unfolding st P_def by (rule find_fit_ok [OF ch o(2) ad o(3)])
  have ne: "fst (hd (dropWhile P bs)) \<noteq> pxEnd m" if "dropWhile P bs \<noteq> []"
    using that heap_ok_bounds(9) [OF ok] by (metis hd_in_set prod.collapse set_dropWhileD)
  have r0: "round_up 0 = 0" by (simp add: round_up_def)
  have r1: "0 < round_up w" if "0 < w" "unat w < 2 ^ 31"
    using round_up_ok [OF that] by (simp add: word_less_nat_alt)
  obtain D where D: "dropWhile P bs = D" by simp
  show ?thesis
  proof (cases D)
    case Nil
    then show ?thesis using e o(4) ff [unfolded D] start_addressable [of m]
      by (auto simp: D pvPortMalloc_def Let_def heap_simps)
  next
    case (Cons b D')
    then show ?thesis using e o(4) ff [unfolded D] start_addressable [of m] ne [unfolded D] r0 r1
      by (cases "w = 0") (auto simp: D pvPortMalloc_def Let_def heap_simps and_ALLOCATED word_gt_0)
  qed
qed

lemma malloc_none:
  assumes ok: "heap_ok m a e bs" and no: "w = 0 \<or> 2 ^ 31 \<le> unat w \<or> (\<forall>b \<in> set bs. \<not> fits (round_up w) b)"
  shows "pvPortMalloc w m = Some (0, m)"
proof -
  have "dropWhile (\<lambda>b. \<not> fits (round_up w) b) bs = []" if "\<forall>b \<in> set bs. \<not> fits (round_up w) b"
    using that unfolding dropWhile_eq_Nil_conv .
  then show ?thesis using malloc_eval [OF ok, of w] no by (auto simp del: dropWhile_eq_Nil_conv)
qed

lemma malloc_found:
  assumes ok: "heap_ok m a e (as @ (p, n, True) # cs)" and w: "0 < w" "unat w < 2 ^ 31" "round_up w \<le> n"
    and as: "\<forall>b \<in> set as. \<not> fits (round_up w) b"
  shows "\<exists>m'. pvPortMalloc w m = Some (p + 8, m') \<and> heap_ok m' a e (carve as p n (round_up w) cs)"
proof -
  let ?P = "\<lambda>b. \<not> fits (round_up w) b" and ?bs = "as @ (p, n, True) # cs"
  have d: "dropWhile ?P ?bs = (p, n, True) # cs" "takeWhile ?P ?bs = as"
    using as w(3) by (simp_all add: dropWhile_append takeWhile_append)
  have rw: "0 < round_up w" "8 dvd unat (round_up w)"
    using w round_up_ok [OF w(1,2)] by (simp_all add: word_less_nat_alt)
  have "unat n \<le> free_sum ?bs" by (simp add: heap_simps)
  then have "round_up w \<le> xFreeBytesRemaining m"
    using w(3) ok by (simp add: heap_ok_def word_le_nat_alt)
  then have ev: "pvPortMalloc w m = take_block (round_up w) (last (xStart m # frees as)) p m"
    using malloc_eval [OF ok, of w] w(1,2) unfolding d by simp
  show ?thesis
  proof (cases "n - round_up w > heapMINIMUM_BLOCK_SIZE")
    case True
    from take_block_split [OF ok True w(3) rw] show ?thesis using True ev by (auto simp: carve_def)
  next
    case whole: False
    from take_block_whole [OF ok whole] show ?thesis using whole ev by (auto simp: carve_def)
  qed
qed

lemma malloc_cases:
  assumes "heap_ok m a e bs" and no: "\<not> (w = 0 \<or> 2 ^ 31 \<le> unat w \<or> (\<forall>b \<in> set bs. \<not> fits (round_up w) b))"
  shows "\<exists>as p n cs m'. bs = as @ (p, n, True) # cs \<and> (\<forall>b \<in> set as. \<not> fits (round_up w) b) \<and>
    round_up w \<le> n \<and> pvPortMalloc w m = Some (p + 8, m') \<and> heap_ok m' a e (carve as p n (round_up w) cs)"
proof -
  from no have "\<exists>b \<in> set bs. fits (round_up w) b" by blast
  then obtain as b cs where bs: "bs = as @ b # cs" and b: "fits (round_up w) b" and as: "\<forall>b \<in> set as. \<not> fits (round_up w) b"
    using split_list_first_prop [of bs "fits (round_up w)"] by blast
  obtain p n f where bb: "b = (p, n, f)" by (cases b)
  from b have f: f and le: "round_up w \<le> n" unfolding bb fst_conv snd_conv by blast+
  have s: "bs = as @ (p, n, True) # cs" using bs bb f by simp
  have "w \<noteq> 0" "\<not> 2 ^ 31 \<le> unat w" using no by blast+
  then have w: "0 < w" "unat w < 2 ^ 31" by (simp_all add: word_gt_0)
  from malloc_found [OF assms(1) [unfolded s] w le as] show ?thesis using s as le by blast
qed

text \<open>
  C23: \<open>pvPortMalloc\<close> is first fit. It returns \<open>NULL\<close> and changes nothing exactly when the size is zero,
  has its top bit set, or no free block holds the rounded size; otherwise it returns the payload of the first
  free block that does, carved down to the request when more than a minimal block is left, and the heap stays well formed.
\<close>

theorem pvPortMalloc_first_fit:
  assumes "heap_ok m a e bs"
  shows "if w = 0 \<or> 2 ^ 31 \<le> unat w \<or> (\<forall>b \<in> set bs. \<not> fits (round_up w) b)
    then pvPortMalloc w m = Some (0, m)
    else \<exists>as p n cs m'. bs = as @ (p, n, True) # cs \<and> (\<forall>b \<in> set as. \<not> fits (round_up w) b) \<and>
      round_up w \<le> n \<and> pvPortMalloc w m = Some (p + 8, m') \<and> heap_ok m' a e (carve as p n (round_up w) cs)"
  using malloc_none [OF assms, of w] malloc_cases [OF assms, of w] by presburger

section \<open>Initialisation\<close>

lemma align_down: "unat ((x :: u32) AND NOT 7) = unat x div 8 * 8"
proof -
  have "x AND NOT 7 = push_bit 3 (drop_bit 3 x)"
  proof (rule bit_word_eqI)
    fix n assume "n < LENGTH(32)"
    have "bit (7 :: u32) n \<longleftrightarrow> n < 3"
      using bit_mask_iff [of 3 n, where 'a = u32] by (auto simp: mask_eq_exp_minus_1)
    then show "bit (x AND NOT 7) n \<longleftrightarrow> bit (push_bit 3 (drop_bit 3 x)) n"
      using \<open>n < LENGTH(32)\<close> by (auto simp: bit_simps)
  qed
  moreover have "push_bit 3 (drop_bit 3 x) = (x div 8) * 8" by (simp add: push_bit_eq_mult drop_bit_eq_div)
  moreover have "unat ((x div 8) * 8) = unat (x div 8) * unat (8 :: u32)"
    using unat_u32_lt [of x] by (intro unat_mult_lem [THEN iffD1]) (simp add: unat_div)
  ultimately show ?thesis by (simp add: unat_div)
qed

lemma upd_pxEnd: "upd a l (m\<lparr>pxEnd := v\<rparr>) = (upd a l m)\<lparr>pxEnd := v\<rparr>"
  "addressable (m\<lparr>pxEnd := v\<rparr>) q = addressable m q"
  by (simp_all add: upd_def addressable_def)

text \<open>The heap before its first use, where the linker may put it.\<close>

definition fresh :: "heap4 \<Rightarrow> bool" where
  "fresh m \<longleftrightarrow> pxEnd m = 0 \<and> 0 < unat (ucHeap m) \<and> unat (ucHeap m) + 32768 < 2 ^ 31 \<and>
     (unat (xStart m) + 8 \<le> unat (ucHeap m) \<or> unat (ucHeap m) + 32768 \<le> unat (xStart m))"

definition heap_base :: "heap4 \<Rightarrow> nat" where "heap_base m = (unat (ucHeap m) + 7) div 8 * 8"
definition heap_end :: "heap4 \<Rightarrow> nat" where "heap_end m = (unat (ucHeap m) + 32760) div 8 * 8"

lemma prvHeapInit_ok:
  assumes "fresh m"
  shows "\<exists>m'. prvHeapInit m = Some m' \<and> ucHeap m' = ucHeap m \<and>
    heap_ok m' (heap_base m) (heap_end m) [(of_nat (heap_base m), of_nat (heap_end m - heap_base m), True)]"
proof -
  let ?u = "ucHeap m" and ?a = "of_nat (heap_base m) :: u32" and ?e = "of_nat (heap_end m) :: u32"
  have f: "pxEnd m = 0" "0 < unat ?u" "unat ?u + 32768 < 2 ^ 31"
    "unat (xStart m) + 8 \<le> unat ?u \<or> unat ?u + 32768 \<le> unat (xStart m)" using assms by (auto simp: fresh_def)
  have r: "unat ?u \<le> heap_base m" "heap_base m < heap_end m" "heap_end m + 8 \<le> unat ?u + 32768"
    "8 dvd heap_base m" "8 dvd heap_end m"
  proof -
    show "unat ?u \<le> heap_base m" "heap_base m < heap_end m" "heap_end m + 8 \<le> unat ?u + 32768"
      unfolding heap_base_def heap_end_def by presburger+
  qed (simp_all add: heap_base_def heap_end_def)
  have ua: "unat ?a = heap_base m" "unat ?e = heap_end m" using r f(3) by (simp_all add: unat_of_nat)
  have base: "(if ?u AND 7 \<noteq> 0 then (?u + 7) AND NOT 7 else ?u) = ?a"
  proof (rule word_unat_eq_iff [THEN iffD2])
    have "unat (?u + 7) = unat ?u + 7" using block_end(1) [of ?u 7] f(3) by simp
    then have al: "unat ((?u + 7) AND NOT 7) = heap_base m" by (simp only: align_down heap_base_def)
    have c: "?u AND 7 \<noteq> 0 \<longleftrightarrow> unat ?u mod 8 \<noteq> 0" using and_7 [of ?u] by (auto simp: word_unat_eq_iff)
    have "unat ?u = heap_base m" if "unat ?u mod 8 = 0" using that unfolding heap_base_def by presburger
    then show "unat (if ?u AND 7 \<noteq> 0 then (?u + 7) AND NOT 7 else ?u) = unat ?a"
      unfolding c ua using al by (simp only: split: if_split) blast
  qed
  then have pair: "(if ?u AND 7 \<noteq> 0 then let a = (?u + 7) AND NOT 7 in (a, configTOTAL_HEAP_SIZE - (a - ?u))
      else (?u, configTOTAL_HEAP_SIZE)) = (?a, configTOTAL_HEAP_SIZE - (?a - ?u))"
    by (simp only: Let_def split: if_split_asm if_split) (auto simp del: of_nat_diff)
  have tot: "?a + (configTOTAL_HEAP_SIZE - (?a - ?u)) - 8 = ?u + 32760" by simp
  have fin: "(?u + 32760) AND NOT 7 = ?e"
  proof (rule word_unat_eq_iff [THEN iffD2])
    have "unat (?u + 32760) = unat ?u + 32760" using block_end(1) [of ?u 32760] f(3) by simp
    then show "unat ((?u + 32760) AND NOT 7) = unat ?e" unfolding align_down ua(2) unfolding heap_end_def by simp
  qed
  let ?l = "\<lparr>pxNextFreeBlock = ?e, xBlockSize = ?e - ?a\<rparr>"
  let ?m = "(upd ?a ?l (upd ?e \<lparr>pxNextFreeBlock = 0, xBlockSize = 0\<rparr> (upd (xStart m) \<lparr>pxNextFreeBlock = ?a, xBlockSize = 0\<rparr> m)))
    \<lparr>pxEnd := ?e, xMinimumEverFreeBytesRemaining := ?e - ?a, xFreeBytesRemaining := ?e - ?a, xBlockAllocatedBit := push_bit 31 1\<rparr>"
  have ne: "?a \<noteq> ?e" "xStart m \<noteq> ?a" "xStart m \<noteq> ?e" using ua r f(4) by auto
  have ad: "addressable m ?a" "addressable m ?e" "addressable m (xStart m)"
    using ua r by (simp_all add: addressable_def)
  have "prvHeapInit m = Some ?m"
    unfolding prvHeapInit_def pair unfolding Let_def prod.case tot fin using ad ne
    by (simp add: heap_simps upd_pxEnd del: of_nat_diff)
  moreover have d: "?e - ?a = of_nat (heap_end m - heap_base m)" "unat (?e - ?a) = heap_end m - heap_base m"
    using r(2) ua by (simp_all add: of_nat_diff unat_sub word_le_nat_alt)
  have "heap_ok ?m (heap_base m) (heap_end m) [(?a, ?e - ?a, True)]"
    using r f ua ne d(2) by (simp add: heap_ok_def placed_def heap_simps free_list_def free_sized_def used_marked_def ALLOCATED_def)
  ultimately show ?thesis using d(1) by (simp add: heap_simps)
qed

section \<open>Any sequence of calls\<close>

text \<open>
  The heap with the allocations it has handed out, as pointer and size. A step is a call of
  \<open>pvPortMalloc\<close>, a call of \<open>vPortFree\<close> on a live allocation, or a write of the program inside one,
  which may overwrite every header that overlaps it.
\<close>

inductive heap_use :: "heap4 \<Rightarrow> heap4 \<Rightarrow> (u32 \<times> u32) set \<Rightarrow> bool" for m0 where
  init: "heap_use m0 m0 {}"
| alloc: "heap_use m0 m L \<Longrightarrow> pvPortMalloc w m = Some (p, m') \<Longrightarrow> p \<noteq> 0 \<Longrightarrow> heap_use m0 m' (insert (p, w) L)"
| failed: "heap_use m0 m L \<Longrightarrow> pvPortMalloc w m = Some (0, m') \<Longrightarrow> heap_use m0 m' L"
| release: "heap_use m0 m L \<Longrightarrow> (p, w) \<in> L \<Longrightarrow> vPortFree p m = Some m' \<Longrightarrow> heap_use m0 m' (L - {(p, w)})"
| store: "heap_use m0 m L \<Longrightarrow> (p, w) \<in> L \<Longrightarrow>
    (\<And>q. unat q + 8 \<le> unat p \<or> unat p + unat w \<le> unat q \<Longrightarrow> B q = blk m q) \<Longrightarrow>
    heap_use m0 (m\<lparr>blk := B\<rparr>) L"

text \<open>The live allocations are the payloads of the blocks that are not free.\<close>

definition live :: "block list \<Rightarrow> (u32 \<times> u32) set \<Rightarrow> bool" where
  "live bs L \<longleftrightarrow> (\<forall>(p, w) \<in> L. \<exists>n. (p - 8, n, False) \<in> set bs \<and> unat w + 8 \<le> unat n) \<and>
     (\<forall>q n. (q, n, False) \<in> set bs \<longrightarrow> (\<exists>!w. (q + 8, w) \<in> L))"

lemma live_carve:
  assumes l: "live (as @ (p, n, True) # cs) L" and t: "tiles a (as @ (p, n, True) # cs) e"
    and w: "round_up w \<le> n" "unat w + 8 \<le> unat (round_up w)"
  shows "live (carve as p n (round_up w) cs) (insert (p + 8, w) L)"
proof -
  have no: "(p + 8, v) \<notin> L" for v
  proof
    assume "(p + 8, v) \<in> L"
    then obtain k where "(p, k, False) \<in> set (as @ (p, n, True) # cs)" using l by (fastforce simp: live_def)
    then show False using tiles_addr_unique [OF t, of p k False n True] by simp
  qed
  have used: "(q, k, False) \<in> set (carve as p n (round_up w) cs) \<longleftrightarrow>
      (q, k, False) \<in> set (as @ cs) \<or> q = p \<and> k = (if n - round_up w > 16 then round_up w else n)" for q k
    by (auto simp: carve_def)
  have k: "unat w + 8 \<le> unat (if n - round_up w > 16 then round_up w else n)"
    using w by (auto simp: word_le_nat_alt)
  have old: "(q, k, False) \<in> set (as @ (p, n, True) # cs) \<longleftrightarrow> (q, k, False) \<in> set (as @ cs)" for q k by auto
  have pd: "p \<notin> fst ` set (as @ cs)" using tiles_distinct [OF t] by auto
  show ?thesis unfolding live_def
  proof (intro conjI allI impI ballI, goal_cases)
    case (1 x)
    then show ?case using l k unfolding live_def used old by fastforce
  next
    case (2 q k')
    then show ?case
    proof (cases "q = p")
      case True
      then show ?thesis using no by auto
    next
      case False
      with 2 have "(q, k', False) \<in> set (as @ cs)" unfolding used by blast
      then have "\<exists>!v. (q + 8, v) \<in> L" using l unfolding live_def old by blast
      then show ?thesis using False by auto
    qed
  qed
qed

lemma live_release:
  assumes l: "live (as @ (p, n, False) # cs) L" and t: "tiles a (as @ (p, n, False) # cs) e" and pw: "(p + 8, w) \<in> L"
  shows "live (release as p n cs) (L - {(p + 8, w)})"
proof -
  have used: "(q, k, False) \<in> set (release as p n cs) \<longleftrightarrow> (q, k, False) \<in> set (as @ (p, n, False) # cs) \<and> q \<noteq> p" for q k
    using release_used [of False q k as p n cs] tiles_distinct [OF t] by (auto simp: image_iff)
  have "(p, n, False) \<in> set (as @ (p, n, False) # cs)" by simp
  then have "\<exists>!v. (p + 8, v) \<in> L" using l unfolding live_def by blast
  then have uniq: "v = w" if "(p + 8, v) \<in> L" for v using pw that by blast
  show ?thesis unfolding live_def
  proof (intro conjI allI impI ballI, goal_cases)
    case (1 x)
    then obtain q v where x: "x = (q, v)" "(q, v) \<in> L" "(q, v) \<noteq> (p + 8, w)" by (cases x) auto
    then have "q - 8 \<noteq> p" using uniq [of v] by (auto simp: diff_eq_eq)
    then show ?case using l x unfolding live_def used by fastforce
  next
    case (2 q k)
    then have "\<exists>!v. (q + 8, v) \<in> L" "q \<noteq> p" using l unfolding used live_def by blast+
    then show ?case by auto
  qed
qed


text \<open>The program's writes inside its allocations do not touch the heap's structure.\<close>

lemma write_heap_ok:
  assumes ok: "heap_ok m a e bs" and b: "(p - 8, n, False) \<in> set bs" "unat w + 8 \<le> unat n"
    and B: "\<And>q. unat q + 8 \<le> unat p \<or> unat p + unat w \<le> unat q \<Longrightarrow> B q = blk m q"
  shows "heap_ok (m\<lparr>blk := B\<rparr>) a e bs"
proof -
  note bb = heap_ok_bounds [OF ok b(1)]
  have p: "unat p = unat (p - 8) + 8" using block_end(1) [of "p - 8" 8] bb(2,5) b(2) by simp
  have t: "tiles a bs e" "placed m a e" "pxEnd m = of_nat e" using ok by (auto simp: heap_ok_def)
  have keep: "B q = blk m q" if "unat q \<le> unat (p - 8) \<or> unat (p - 8) + unat n \<le> unat q" for q
    using that B [of q] p b(2) by auto
  have blocks: "B q = blk m q" if "(q, k, f) \<in> set bs" for q k f
  proof (rule keep)
    obtain as cs where s: "bs = as @ (p - 8, n, False) # cs" using b(1) by (metis split_list)
    have tt: "tiles a as (unat (p - 8))" "tiles (unat (p - 8) + unat n) cs e" using t(1) s by (auto simp: tiles_append)
    show "unat q \<le> unat (p - 8) \<or> unat (p - 8) + unat n \<le> unat q"
      using that s tiles_mem [OF tt(1), of q k f] tiles_mem [OF tt(2), of q k f] by auto
  qed
  have start: "B (xStart m) = blk m (xStart m)" using t(2) bb(1,2) by (intro keep) (auto simp: placed_def)
  have fin: "B (pxEnd m) = blk m (pxEnd m)" using t(3) bb(2) unat_end [OF t(2)] by (intro keep) simp
  have "free_list (m\<lparr>blk := B\<rparr>) (frees bs) = free_list m (frees bs)"
    unfolding free_list_def using blocks start
    by (simp, intro chain_cong) (auto simp: butlast_append frees_iff)
  moreover have "free_sized (m\<lparr>blk := B\<rparr>) bs = free_sized m bs" "used_marked (m\<lparr>blk := B\<rparr>) bs = used_marked m bs"
    using blocks by (auto simp: free_sized_def used_marked_def)
  ultimately show ?thesis using ok start fin by (auto simp: heap_ok_def placed_def)
qed

definition heap_rep :: "heap4 \<Rightarrow> heap4 \<Rightarrow> (u32 \<times> u32) set \<Rightarrow> bool" where
  "heap_rep m0 m L \<longleftrightarrow> m = m0 \<and> L = {} \<or>
     (\<exists>bs. heap_ok m (heap_base m0) (heap_end m0) bs \<and> live bs L)"

lemma malloc_fresh: "fresh m \<Longrightarrow> prvHeapInit m = Some m' \<Longrightarrow> pxEnd m' \<noteq> 0 \<Longrightarrow> pvPortMalloc w m = pvPortMalloc w m'"
  by (simp add: fresh_def pvPortMalloc_def)

lemma malloc_rep:
  assumes ok: "heap_ok m a e bs" and l: "live bs L"
  obtains m' where "pvPortMalloc w m = Some (0, m')" "m' = m"
    | p m' bs' where "pvPortMalloc w m = Some (p, m')" "p \<noteq> 0" "heap_ok m' a e bs'" "live bs' (insert (p, w) L)"
proof (cases "w = 0 \<or> 2 ^ 31 \<le> unat w \<or> (\<forall>b \<in> set bs. \<not> fits (round_up w) b)")
  case True
  then show thesis using malloc_none [OF ok True] that(1) by blast
next
  case False
  then have w: "0 < w" "unat w < 2 ^ 31" by (auto simp: word_gt_0)
  from malloc_cases [OF ok False] obtain as p n cs m' where s: "bs = as @ (p, n, True) # cs" "round_up w \<le> n"
    "pvPortMalloc w m = Some (p + 8, m')" "heap_ok m' a e (carve as p n (round_up w) cs)" by blast
  have "unat w + 8 \<le> unat (round_up w)" unfolding round_up_ok [OF w] by presburger
  then have "live (carve as p n (round_up w) cs) (insert (p + 8, w) L)"
    using ok l s(1,2) by (intro live_carve) (auto simp: heap_ok_def)
  moreover have "p + 8 \<noteq> 0" using heap_ok_bounds [OF ok, of p n True] payload_nz [of p n e] s(1) by simp
  ultimately show thesis using that(2) s(3,4) by blast
qed


lemma free_rep:
  assumes ok: "heap_ok m a e bs" and l: "live bs L" and p: "(p, w) \<in> L"
  shows "\<exists>m' bs'. vPortFree p m = Some m' \<and> heap_ok m' a e bs' \<and> live bs' (L - {(p, w)})"
proof -
  from l p obtain n where "(p - 8, n, False) \<in> set bs" by (fastforce simp: live_def)
  then obtain as cs where s: "bs = as @ (p - 8, n, False) # cs" by (metis split_list)
  from free_ok [OF ok [unfolded s]] obtain m' where m': "vPortFree p m = Some m'"
    "heap_ok m' a e (release as (p - 8) n cs)" by auto
  have "tiles a bs e" using ok by (simp add: heap_ok_def)
  then have "live (release as (p - 8) n cs) (L - {(p, w)})"
    using live_release [of as "p - 8" n cs L a e w] l p s by simp
  with m' show ?thesis by blast
qed

text \<open>Before the first call of \<open>pvPortMalloc\<close> the heap behaves like the initialised one.\<close>

lemma heap_rep_ready:
  assumes r: "heap_rep m0 m L" and f: "fresh m0"
  obtains m1 bs where "heap_ok m1 (heap_base m0) (heap_end m0) bs" "live bs L" "pvPortMalloc w m = pvPortMalloc w m1"
    "L = {} \<or> m1 = m"
proof (cases "m = m0 \<and> L = {}")
  case True
  from prvHeapInit_ok [OF f] obtain m1 where m1: "prvHeapInit m0 = Some m1"
    "heap_ok m1 (heap_base m0) (heap_end m0) [(of_nat (heap_base m0), of_nat (heap_end m0 - heap_base m0), True)]" by blast
  then have "pxEnd m1 \<noteq> 0" using unat_end [of m1 "heap_base m0" "heap_end m0"] by (auto simp: heap_ok_def placed_def)
  then show thesis using True m1 malloc_fresh [OF f m1(1)] by (intro that [of m1]) (auto simp: live_def)
next
  case False
  then show thesis using r that unfolding heap_rep_def by blast
qed

lemma heap_use_rep:
  assumes "heap_use m0 m L" "fresh m0"
  shows "heap_rep m0 m L"
  using assms
proof (induction rule: heap_use.induct)
  case init
  then show ?case by (simp add: heap_rep_def)
next
  case (alloc m L w p m')
  from heap_rep_ready [OF alloc.IH [OF alloc.prems] alloc.prems, of w] obtain m1 bs where
    m1: "heap_ok m1 (heap_base m0) (heap_end m0) bs" "live bs L" "pvPortMalloc w m = pvPortMalloc w m1" by blast
  show ?case using malloc_rep [OF m1(1,2), of w] m1(3) alloc.hyps unfolding heap_rep_def by (metis option.inject prod.inject)
next
  case (failed m L w m')
  from heap_rep_ready [OF failed.IH [OF failed.prems] failed.prems, of w] obtain m1 bs where
    m1: "heap_ok m1 (heap_base m0) (heap_end m0) bs" "live bs L" "pvPortMalloc w m = pvPortMalloc w m1" by blast
  show ?case using malloc_rep [OF m1(1,2), of w] m1 failed.hyps unfolding heap_rep_def by (metis option.inject prod.inject)
next
  case (release m L p w m')
  then obtain bs where "heap_ok m (heap_base m0) (heap_end m0) bs" "live bs L" unfolding heap_rep_def by blast
  from free_rep [OF this release.hyps(2)] release.hyps(3) show ?case unfolding heap_rep_def by auto
next
  case (store m L p w B)
  then obtain bs where bs: "heap_ok m (heap_base m0) (heap_end m0) bs" "live bs L" unfolding heap_rep_def by blast
  from bs(2) store.hyps(2) obtain n where "(p - 8, n, False) \<in> set bs" "unat w + 8 \<le> unat n" by (fastforce simp: live_def)
  from write_heap_ok [OF bs(1) this store.hyps(3)] bs(2) show ?case unfolding heap_rep_def by blast
qed

lemma live_bounds:
  assumes ok: "heap_ok m a e bs" and l: "live bs L" and p: "(p, w) \<in> L"
  obtains q n where "(q, n, False) \<in> set bs" "q = p - 8" "unat p = unat q + 8" "unat w + 8 \<le> unat n"
proof -
  from l p obtain n where n: "(p - 8, n, False) \<in> set bs" "unat w + 8 \<le> unat n" by (fastforce simp: live_def)
  note b = heap_ok_bounds [OF ok n(1)]
  have "unat p = unat (p - 8) + 8" using block_end(1) [of "p - 8" 8] b(2,5) n(2) by simp
  with n show thesis by (intro that) auto
qed

lemma unat_of_word: "of_nat (unat (w :: u32)) = w" by simp

lemma all_free_single: "\<forall>b \<in> set bs. is_free b \<Longrightarrow> coalesced bs \<Longrightarrow> bs = [] \<or> (\<exists>b. bs = [b])"
  by (cases bs rule: coalesced.cases) auto

lemma tiles_aligned: "tiles a bs e \<Longrightarrow> (q, n, f) \<in> set bs \<Longrightarrow> 8 dvd a \<Longrightarrow> 8 dvd unat q"
  by (induction a bs e rule: tiles.induct) auto

lemma tiles_apart: "tiles a bs e \<Longrightarrow> (p, n, f) \<in> set bs \<Longrightarrow> (q, k, g) \<in> set bs \<Longrightarrow> p \<noteq> q \<Longrightarrow>
    unat p + unat n \<le> unat q \<or> unat q + unat k \<le> unat p"
proof (induction a bs e rule: tiles.induct)
  case (2 a r j h bs e)
  then show ?case using tiles_mem [of "a + unat j" bs e p n f] tiles_mem [of "a + unat j" bs e q k g] by auto
qed simp

lemma heap_rep_alloc:
  assumes "heap_rep m0 m L" "fresh m0"
  shows "\<exists>p m'. pvPortMalloc w m = Some (p, m') \<and> (if p = 0 then heap_rep m0 m' L else heap_rep m0 m' (insert (p, w) L))"
proof -
  from heap_rep_ready [OF assms, of w] obtain m1 bs where
    m1: "heap_ok m1 (heap_base m0) (heap_end m0) bs" "live bs L" "pvPortMalloc w m = pvPortMalloc w m1" by blast
  show ?thesis
  proof (cases rule: malloc_rep [OF m1(1,2), of w])
    case (1 m')
    then show ?thesis using m1 by (auto simp: heap_rep_def)
  next
    case (2 p m' bs')
    then show ?thesis using m1(3) by (auto simp: heap_rep_def)
  qed
qed

lemma heap_rep_apart:
  assumes "heap_rep m0 m L" "(p, w) \<in> L" "(q, v) \<in> L" "(p, w) \<noteq> (q, v)"
  shows "unat p + unat w \<le> unat q \<or> unat q + unat v \<le> unat p"
proof -
  from assms obtain bs where bs: "heap_ok m (heap_base m0) (heap_end m0) bs" "live bs L" by (auto simp: heap_rep_def)
  from live_bounds [OF bs assms(2)] obtain p' k where p': "(p', k, False) \<in> set bs" "p' = p - 8" "unat p = unat p' + 8" "unat w + 8 \<le> unat k"
    by metis
  from live_bounds [OF bs assms(3)] obtain q' j where q': "(q', j, False) \<in> set bs" "q' = q - 8" "unat q = unat q' + 8" "unat v + 8 \<le> unat j"
    by metis
  have t: "tiles (heap_base m0) bs (heap_end m0)" using bs(1) by (simp add: heap_ok_def)
  have "p' \<noteq> q'"
  proof
    assume "p' = q'"
    then have "q' + 8 = p" "q' + 8 = q" using p'(2) q'(2) by (simp_all add: diff_eq_eq)
    moreover have "\<exists>!w. (q' + 8, w) \<in> L" using bs(2) q'(1) unfolding live_def by blast
    ultimately show False using assms(2-4) by auto
  qed
  then show ?thesis using tiles_apart [OF t p'(1) q'(1)] p' q' by auto
qed

text \<open>
  C21: whatever calls were made and whatever the program wrote into its allocations, the live
  allocations lie in \<open>ucHeap\<close>, are aligned to eight bytes and do not overlap, and no call of the
  allocator leaves its memory: \<open>pvPortMalloc\<close> and the release of a live allocation are defined.
\<close>

theorem heap_allocations_disjoint:
  assumes "heap_use m0 m L" and "fresh m0"
  shows "(\<forall>(p, w) \<in> L. 8 dvd unat p \<and> unat (ucHeap m0) + 8 \<le> unat p \<and> unat p + unat w \<le> unat (ucHeap m0) + 32768 \<and>
      vPortFree p m \<noteq> None) \<and>
    (\<forall>(p, w) \<in> L. \<forall>(q, v) \<in> L. (p, w) \<noteq> (q, v) \<longrightarrow> unat p + unat w \<le> unat q \<or> unat q + unat v \<le> unat p) \<and>
    (\<forall>w. pvPortMalloc w m \<noteq> None)"
proof -
  note r = heap_use_rep [OF assms]
  have 1: "8 dvd unat p \<and> unat (ucHeap m0) + 8 \<le> unat p \<and> unat p + unat w \<le> unat (ucHeap m0) + 32768 \<and>
      vPortFree p m \<noteq> None" if pw: "(p, w) \<in> L" for p w
  proof -
    from pw obtain bs where bs: "heap_ok m (heap_base m0) (heap_end m0) bs" "live bs L" using r by (auto simp: heap_rep_def)
    from live_bounds [OF bs pw] obtain q n where q: "(q, n, False) \<in> set bs" "unat p = unat q + 8" "unat w + 8 \<le> unat n"
      by metis
    have t: "tiles (heap_base m0) bs (heap_end m0)" "8 dvd heap_base m0" using bs(1) by (auto simp: heap_ok_def placed_def)
    have "unat (ucHeap m0) \<le> heap_base m0" "heap_end m0 + 8 \<le> unat (ucHeap m0) + 32768"
      unfolding heap_base_def heap_end_def by presburger+
    moreover have "8 dvd unat q" by (rule tiles_aligned [OF t(1) q(1) t(2)])
    moreover have "vPortFree p m \<noteq> None" using free_rep [OF bs pw] by auto
    ultimately show ?thesis using q heap_ok_bounds(1,2) [OF bs(1) q(1)] by simp
  qed
  have 2: "unat p + unat w \<le> unat q \<or> unat q + unat v \<le> unat p"
    if "(p, w) \<in> L" "(q, v) \<in> L" "(p, w) \<noteq> (q, v)" for p w q v
    using heap_rep_apart [OF r that] .
  have 3: "pvPortMalloc w m \<noteq> None" for w using heap_rep_alloc [OF r assms(2), of w] by auto
  show ?thesis using 1 2 3 by blast
qed


section \<open>The allocator as an interface\<close>

text \<open>What the kernel objects rely on when they are created and deleted.\<close>

locale allocator =
  fixes alloc :: "u32 \<Rightarrow> 'h \<Rightarrow> (u32 \<times> 'h) option"
    and release :: "u32 \<Rightarrow> 'h \<Rightarrow> 'h option"
    and rep :: "'h \<Rightarrow> (u32 \<times> u32) set \<Rightarrow> bool"
  assumes alloc_ok: "rep h L \<Longrightarrow> \<exists>p h'. alloc w h = Some (p, h') \<and> (if p = 0 then rep h' L else rep h' (insert (p, w) L))"
    and release_ok: "rep h L \<Longrightarrow> (p, w) \<in> L \<Longrightarrow> \<exists>h'. release p h = Some h' \<and> rep h' (L - {(p, w)})"
    and apart: "rep h L \<Longrightarrow> (p, w) \<in> L \<Longrightarrow> (q, v) \<in> L \<Longrightarrow> (p, w) \<noteq> (q, v) \<Longrightarrow>
      unat p + unat w \<le> unat q \<or> unat q + unat v \<le> unat p"
begin

text \<open>A block that is allocated and given back leaves the live allocations as they were.\<close>

lemma alloc_release:
  assumes "rep h L" "alloc w h = Some (p, h')" "p \<noteq> 0" "(p, w) \<notin> L"
  shows "\<exists>h''. release p h' = Some h'' \<and> rep h'' L"
proof -
  from alloc_ok [OF assms(1), of w] assms(2,3) have r: "rep h' (insert (p, w) L)" by simp
  from release_ok [OF this, of p w] assms(4) show ?thesis by simp
qed

lemma alloc_total: "rep h L \<Longrightarrow> alloc w h \<noteq> None"
  using alloc_ok [of h L w] by auto

end

definition heap_alive :: "heap4 \<Rightarrow> (u32 \<times> u32) set \<Rightarrow> bool" where
  "heap_alive m L \<longleftrightarrow> (\<exists>m0. fresh m0 \<and> heap_rep m0 m L)"

interpretation heap4: allocator pvPortMalloc vPortFree heap_alive
proof (unfold_locales, goal_cases)
  case (1 h L w)
  then show ?case unfolding heap_alive_def using heap_rep_alloc by (metis (full_types))
next
  case (2 h L p w)
  then obtain m0 bs where m0: "fresh m0" "heap_ok h (heap_base m0) (heap_end m0) bs" "live bs L"
    by (auto simp: heap_alive_def heap_rep_def)
  from free_rep [OF m0(2,3) 2(2)] m0(1) show ?case by (auto simp: heap_alive_def heap_rep_def)
next
  case (3 h L p w q v)
  then show ?case unfolding heap_alive_def using heap_rep_apart by blast
qed

section \<open>Examples\<close>

text \<open>A heap with one allocation of 16 bytes, and one before its first use.\<close>

definition demo_fresh :: heap4 where
  "demo_fresh = \<lparr>ucHeap = 0x20000000, xStart = 0x1FFFFF00, blk = (\<lambda>_. \<lparr>pxNextFreeBlock = 0, xBlockSize = 0\<rparr>), pxEnd = 0,
     xFreeBytesRemaining = 0, xMinimumEverFreeBytesRemaining = 0, xBlockAllocatedBit = 0\<rparr>"

definition demo_heap :: heap4 where
  "demo_heap = demo_fresh\<lparr>blk := (blk demo_fresh)(0x1FFFFF00 := \<lparr>pxNextFreeBlock = 0x20000018, xBlockSize = 0\<rparr>,
       0x20000000 := \<lparr>pxNextFreeBlock = 0, xBlockSize = 0x80000018\<rparr>,
       0x20000018 := \<lparr>pxNextFreeBlock = 0x20007FF8, xBlockSize = 0x7FE0\<rparr>),
     pxEnd := 0x20007FF8, xFreeBytesRemaining := 0x7FE0, xMinimumEverFreeBytesRemaining := 0x7FE0,
     xBlockAllocatedBit := 0x80000000\<rparr>"

lemma demo_heap_ok: "heap_ok demo_heap 0x20000000 0x20007FF8 [(0x20000000, 24, False), (0x20000018, 0x7FE0, True)]"
  by (simp add: demo_heap_def demo_fresh_def heap_ok_def placed_def free_list_def frees_def free_sized_def used_marked_def
      free_sum_def ALLOCATED_def)

lemma demo_fresh_ok: "fresh demo_fresh"
  by (simp add: fresh_def demo_fresh_def)

lemma vPortFree_releases_witness:
  "\<exists>m'. vPortFree 0x20000008 demo_heap = Some m' \<and> heap_ok m' 0x20000000 0x20007FF8 [(0x20000000, 0x7FF8, True)]"
  using vPortFree_releases [of demo_heap "0x20000000" "0x20007FF8" "[]" "0x20000000" 24 "[(0x20000018, 0x7FE0, True)]"]
    demo_heap_ok by (auto simp: release_def)

lemma pvPortMalloc_first_fit_witness:
  "\<exists>m'. pvPortMalloc 100 demo_heap = Some (0x20000020, m') \<and> heap_ok m' 0x20000000 0x20007FF8
     [(0x20000000, 24, False), (0x20000018, 112, False), (0x20000088, 0x7F70, True)]"
  using pvPortMalloc_first_fit [OF demo_heap_ok, of 100]
  by (auto simp: round_up_def carve_def Cons_eq_append_conv)

lemma demo_init:
  obtains m where "prvHeapInit demo_fresh = Some m" "pxEnd m \<noteq> 0"
    "heap_ok m 0x20000000 0x20007FF8 [(0x20000000, 0x7FF8, True)]"
proof -
  have b: "heap_base demo_fresh = 0x20000000" "heap_end demo_fresh = 0x20007FF8"
    by (simp_all add: heap_base_def heap_end_def demo_fresh_def)
  from prvHeapInit_ok [OF demo_fresh_ok, unfolded b] obtain m where m: "prvHeapInit demo_fresh = Some m"
    "heap_ok m 0x20000000 0x20007FF8 [(0x20000000, 0x7FF8, True)]" by auto
  moreover from m(2) have "pxEnd m \<noteq> 0" by (simp add: heap_ok_def)
  ultimately show thesis using that by blast
qed

lemma heap_allocations_disjoint_witness:
  "\<exists>m p. heap_use demo_fresh m {(p, 16)} \<and> 8 dvd unat p"
proof -
  obtain m1 where m1: "prvHeapInit demo_fresh = Some m1" "pxEnd m1 \<noteq> 0"
    "heap_ok m1 0x20000000 0x20007FF8 [(0x20000000, 0x7FF8, True)]" by (rule demo_init)
  from malloc_cases [OF m1(3), of 16] obtain m where "pvPortMalloc 16 m1 = Some (0x20000008, m)"
    by (auto simp: round_up_def Cons_eq_append_conv)
  then have u: "heap_use demo_fresh m {(0x20000008, 16)}"
    using heap_use.alloc [OF heap_use.init, of 16 demo_fresh "0x20000008" m] malloc_fresh [OF demo_fresh_ok m1(1,2)] by simp
  have "8 dvd unat (0x20000008 :: u32)" using heap_allocations_disjoint [OF u demo_fresh_ok] by blast
  with u show ?thesis by blast
qed


end
