(* ===== verification/RTOS_Create.thy ===== *)
theory RTOS_Create
  imports RTOS_Queue RTOS_Heap4
begin

text \<open>
  Creating and deleting queues, semaphores and mutexes on the heap, and the queue registry: the part
  of \<open>queue.c\<close> where it meets \<open>heap_4.c\<close>. The queue structure and its storage are one allocation.
\<close>

section \<open>Creation\<close>

text \<open>The size of \<open>Queue_t\<close> on the target, with the trace fields and without static allocation.\<close>

abbreviation (input) sizeof_Queue_t :: u32 where "sizeof_Queue_t \<equiv> 80"

text \<open>
  What the allocated memory holds before it is written: \<open>ram\<close> are its bytes, \<open>junk\<close> the fields of the
  structure. The two event lists lie in the structure, so its address names them.
\<close>

definition raw_queue :: "(u32 \<Rightarrow> u8) \<Rightarrow> queue \<Rightarrow> u32 \<Rightarrow> u32 \<Rightarrow> queue" where
  "raw_queue ram junk p n = junk\<lparr>xTasksWaitingToSend := 2 * unat p, xTasksWaitingToReceive := 2 * unat p + 1,
     storage := map (\<lambda>i. ram (p + sizeof_Queue_t + of_nat i)) [0..<unat n]\<rparr>"

definition xQueueGenericCreate ::
    "(u32 \<Rightarrow> u8) \<Rightarrow> queue \<Rightarrow> u32 \<Rightarrow> u32 \<Rightarrow> heap4 \<Rightarrow> kernel \<Rightarrow> ((u32 \<times> queue) option \<times> heap4 \<times> kernel) option" where
  "xQueueGenericCreate ram junk uxQueueLength uxItemSize' h K = do {
     let xQueueSizeInBytes = (if uxItemSize' = 0 then 0 else uxQueueLength * uxItemSize');
     (pxNewQueue, h) \<leftarrow> pvPortMalloc (sizeof_Queue_t + xQueueSizeInBytes) h;
     if pxNewQueue \<noteq> 0
     then do {
       (q, K) \<leftarrow> prvInitialiseNewQueue uxQueueLength uxItemSize' (pxNewQueue + sizeof_Queue_t) pxNewQueue
         (raw_queue ram junk pxNewQueue xQueueSizeInBytes) K;
       Some (Some (pxNewQueue, q), h, K) }
     else Some (None, h, K) }"

definition xQueueCreateMutex ::
    "(u32 \<Rightarrow> u8) \<Rightarrow> queue \<Rightarrow> heap4 \<Rightarrow> kernel \<Rightarrow> ((u32 \<times> queue) option \<times> heap4 \<times> kernel) option" where
  "xQueueCreateMutex ram junk h K = do {
     (r, h, K) \<leftarrow> xQueueGenericCreate ram junk 1 0 h K;
     case r of
       None \<Rightarrow> Some (None, h, K)
     | Some (p, q) \<Rightarrow> do { (q, K) \<leftarrow> prvInitialiseMutex q K; Some (Some (p, q), h, K) } }"

definition xQueueCreateCountingSemaphore ::
    "(u32 \<Rightarrow> u8) \<Rightarrow> queue \<Rightarrow> u32 \<Rightarrow> u32 \<Rightarrow> heap4 \<Rightarrow> kernel \<Rightarrow> ((u32 \<times> queue) option \<times> heap4 \<times> kernel) option" where
  "xQueueCreateCountingSemaphore ram junk uxMaxCount uxInitialCount h K = do {
     (r, h, K) \<leftarrow> xQueueGenericCreate ram junk uxMaxCount 0 h K;
     Some (case r of None \<Rightarrow> None | Some (p, q) \<Rightarrow> Some (p, q\<lparr>uxMessagesWaiting := uxInitialCount\<rparr>), h, K) }"

section \<open>The registry\<close>

text \<open>Eight pairs of a name and a handle; a slot is free when its name is \<open>NULL\<close>.\<close>

type_synonym registry = "(u32 \<times> u32) list"

fun vQueueAddToRegistry :: "u32 \<Rightarrow> u32 \<Rightarrow> registry \<Rightarrow> registry" where
  "vQueueAddToRegistry x nm [] = []"
| "vQueueAddToRegistry x nm ((n, h) # r) = (if n = 0 then (nm, x) # r else (n, h) # vQueueAddToRegistry x nm r)"

fun pcQueueGetName :: "u32 \<Rightarrow> registry \<Rightarrow> u32" where
  "pcQueueGetName x [] = 0"
| "pcQueueGetName x ((n, h) # r) = (if h = x then n else pcQueueGetName x r)"

fun vQueueUnregisterQueue :: "u32 \<Rightarrow> registry \<Rightarrow> registry" where
  "vQueueUnregisterQueue x [] = []"
| "vQueueUnregisterQueue x ((n, h) # r) = (if h = x then (0, 0) # r else (n, h) # vQueueUnregisterQueue x r)"

definition vQueueDelete :: "u32 \<Rightarrow> registry \<Rightarrow> heap4 \<Rightarrow> (registry \<times> heap4) option" where
  "vQueueDelete pxQueue r h = do {
     let r = vQueueUnregisterQueue pxQueue r;
     h \<leftarrow> vPortFree pxQueue h;
     Some (r, h) }"

section \<open>What creation gives\<close>

lemma unat_less_mult: "unat L * unat s < 2 ^ 32 \<Longrightarrow> unat (L * s) = unat L * unat (s :: u32)"
  by (rule unat_mult_lem [THEN iffD1]) simp

lemma sum_fits: "unat n < 2 ^ 31 - 80 \<Longrightarrow> unat (80 + n :: u32) = 80 + unat n"
  by (subst unat_add_lem [THEN iffD1]) simp_all




text \<open>
  C17: The size of the storage is computed in 32 bits and the product of length and item size is not
  checked: when it overflows to less than one item, creation succeeds and the very first send writes
  behind the end of the allocation.
\<close>

theorem queue_size_overflow:
  assumes o: "2 ^ 32 \<le> unat L * unat s" "unat L * unat s mod 2 ^ 32 < unat s" and x: "length x = unat s"
    and m: "pvPortMalloc (80 + L * s) h = Some (p, h')" "p \<noteq> 0"
  shows "\<exists>q K'. xQueueGenericCreate ram junk L s h K = Some (Some (p, q), h', K') \<and>
    uxLength q = L \<and> uxItemSize q = s \<and> length (storage q) < unat s \<and>
    xQueueGenericSendFromISR x queueSEND_TO_BACK q K' = None"
proof -
  have nz: "s \<noteq> 0" "L \<noteq> 0" using o(1) by auto
  then have L0: "0 < L" by (simp add: word_neq_0_conv)
  have "unat (L * s) = unat L * unat s mod 2 ^ 32" by (simp add: unat_word_ariths)
  then have u: "unat (L * s) < unat s" using o(2) by simp
  let ?q = "(raw_queue ram junk p (L * s))\<lparr>pcHead := p + 80, uxLength := L, uxItemSize := s,
    un := QueuePointers (p + 80 + L * s) (p + 80 + (L - 1) * s), uxMessagesWaiting := 0, pcWriteTo := p + 80,
    cRxLock := queueUNLOCKED, cTxLock := queueUNLOCKED\<rparr>"
  let ?K = "K\<lparr>events := (events K)(2 * unat p := [], Suc (2 * unat p) := [])\<rparr>"
  have "xQueueGenericCreate ram junk L s h K = Some (Some (p, ?q), h', ?K)"
    using m nz by (simp add: xQueueGenericCreate_def prvInitialiseNewQueue_def xQueueGenericReset_def raw_queue_def Let_def)
  moreover have l: "length (storage ?q) < unat s" using u by (simp add: raw_queue_def)
  moreover have "xQueueGenericSendFromISR x queueSEND_TO_BACK ?q ?K = None"
    using L0 nz l x by (simp add: xQueueGenericSendFromISR_def prvCopyDataToQueue_def store_item_def rd_bytes_def wr_bytes_def)
  ultimately show ?thesis by auto
qed

lemma queue_size_overflow_witness:
  "\<exists>q h' K'. xQueueGenericCreate (\<lambda>_. 0) demo_queue 0x10000 0x10000 demo_heap demo_boot = Some (Some (0x20000020, q), h', K') \<and>
    xQueueGenericSendFromISR (replicate 0x10000 0) queueSEND_TO_BACK q K' = None"
proof -
  have "\<exists>h'. pvPortMalloc 80 demo_heap = Some (0x20000020, h')"
    using malloc_cases [OF demo_heap_ok, of 80] by (auto simp: round_up_def Cons_eq_append_conv)
  moreover have "(80 + 0x10000 * 0x10000 :: u32) = 80" by simp
  ultimately obtain h' where "pvPortMalloc (80 + 0x10000 * 0x10000) demo_heap = Some (0x20000020, h')" by metis
  from queue_size_overflow [OF _ _ _ this, of "replicate 0x10000 0" "\<lambda>_. 0" demo_queue demo_boot] show ?thesis by fastforce
qed

text \<open>The registry: a name that was added is found until it is taken out, if there was room.\<close>

lemma registry_lookup:
  assumes "x \<noteq> 0" "nm \<noteq> 0" "\<forall>e \<in> set r. snd e \<noteq> x" "\<exists>e \<in> set r. fst e = 0"
  shows "pcQueueGetName x (vQueueAddToRegistry x nm r) = nm"
    "pcQueueGetName x (vQueueUnregisterQueue x (vQueueAddToRegistry x nm r)) = 0"
proof -
  show "pcQueueGetName x (vQueueAddToRegistry x nm r) = nm" using assms by (induction r) force+
  have "pcQueueGetName x r = 0" if "\<forall>e \<in> set r. snd e \<noteq> x" for r using that by (induction r) auto
  then show "pcQueueGetName x (vQueueUnregisterQueue x (vQueueAddToRegistry x nm r)) = 0"
    using assms by (induction r) force+
qed

end
