(* ===== verification/RTOS_Blocking.thy ===== *)
theory RTOS_Blocking
  imports RTOS_Queue
begin

text \<open>
  The blocking calls of queues, semaphores and mutexes together with the scheduler: tasks that stand
  at some point of a call, interrupts that strike between any two points, and every other kernel call.
  The invariant says where queues are locked and what a lock defers; the properties are that the calls
  run into no undefined behaviour, that no wake-up is lost, and that a mutex has one holder.
\<close>


unbundle bit_operations_syntax

section \<open>Who waits for a notification\<close>

text \<open>
  \<open>hush\<close>: no task starts to wait for a notification. This is true of every kernel call except the two that
  wait, which concern the calling task only.
\<close>

definition hush :: "kernel \<Rightarrow> kernel \<Rightarrow> bool" where
  "hush K K' \<longleftrightarrow> (\<forall>t. ucNotifyState (tcbs K' t) = Waiting \<longrightarrow> ucNotifyState (tcbs K t) = Waiting)"

lemma hush_refl [simp]: "hush K K" "tcbs K' = tcbs K \<Longrightarrow> hush K K'"
  by (simp_all add: hush_def)

lemma hush_trans: "hush K K1 \<Longrightarrow> hush K1 K2 \<Longrightarrow> hush K K2"
  by (simp add: hush_def)

lemma hush_bind: "returns m (\<lambda>x. hush K (g x)) \<Longrightarrow> (\<And>x. m = Some x \<Longrightarrow> hush K (g x) \<Longrightarrow> returns (f x) (\<lambda>y. hush K (h y))) \<Longrightarrow>
    returns (m \<bind> f) (\<lambda>y. hush K (h y))"
  by (auto simp: returns_def)

lemma hush_set_tcb: "hush K J \<Longrightarrow> (ucNotifyState (f (tcbs J t)) = Waiting \<Longrightarrow> ucNotifyState (tcbs J t) = Waiting) \<Longrightarrow> hush K (set_tcb t f J)"
  by (auto simp: hush_def kernel_simps)

lemma tcbs_scalar [kernel_simps]:
  "tcbs (taskYIELD K) = tcbs K" "tcbs (vTaskMissedYield K) = tcbs K" "tcbs (vTaskSuspendAll K) = tcbs K"
  "tcbs (taskRESET_READY_PRIORITY p K) = tcbs K" "tcbs (prvResetNextTaskUnblockTime K) = tcbs K"
  "pxCurrentTCB (taskYIELD K) = pxCurrentTCB K" "pxCurrentTCB (vTaskMissedYield K) = pxCurrentTCB K"
  "pxCurrentTCB (vTaskSuspendAll K) = pxCurrentTCB K"
  by (simp_all add: taskYIELD_def vTaskMissedYield_def vTaskSuspendAll_def taskRESET_READY_PRIORITY_def
      portRESET_READY_PRIORITY_def prvResetNextTaskUnblockTime_def)

lemma remove_state_cases: "remove_state t K = Some (n, K') \<Longrightarrow> K' = detach t K"
  by (cases "st K t") (auto simp: remove_state_eq, simp add: remove_state_def)

lemma remove_event_cases: "remove_event t K = Some (n, K') \<Longrightarrow> K' = detach_event t K"
  by (cases "ev K t") (auto simp: remove_event_eq, simp add: remove_event_def)

lemma hush_simps [simp]:
  "hush K (detach t J) = hush K J" "hush K (detach_event t J) = hush K J" "hush K (prvAddTaskToReadyList t J) = hush K J"
  "hush K (insert_state_end s t J) = hush K J" "hush K (insert_event_end e t J) = hush K J"
  "hush K (insert_event i t J) = hush K J" "hush K (insert_delayed b t J) = hush K J"
  "hush K (taskYIELD J) = hush K J" "hush K (vTaskMissedYield J) = hush K J" "hush K (vTaskSuspendAll J) = hush K J"
  "hush K (taskRESET_READY_PRIORITY p J) = hush K J" "hush K (prvResetNextTaskUnblockTime J) = hush K J"
  "hush K (portRESET_READY_PRIORITY p J) = hush K J"
  "hush K (J\<lparr>xYieldPending := y\<rparr>) = hush K J" "hush K (J\<lparr>xNextTaskUnblockTime := x\<rparr>) = hush K J"
  "hush K (J\<lparr>uxPendedTicks := v\<rparr>) = hush K J" "hush K (J\<lparr>pxCurrentTCB := u\<rparr>) = hush K J"
  "hush K (J\<lparr>uxSchedulerSuspended := v\<rparr>) = hush K J"
  by (auto simp: hush_def kernel_simps simp del: insert_state_end.simps insert_event_end.simps)

text \<open>A call that yields a kernel only if it is defined keeps the silence.\<close>

definition silent :: "kernel \<Rightarrow> kernel option \<Rightarrow> bool" where
  "silent K r \<longleftrightarrow> (\<forall>K'. r = Some K' \<longrightarrow> hush K K')"

lemma silent_simps [simp]:
  "silent K (Some J) = hush K J" "silent K None"
  "silent K (if b then r else r') = (if b then silent K r else silent K r')"
  by (auto simp: silent_def)

lemma silent_trans: "hush K J \<Longrightarrow> silent J r \<Longrightarrow> silent K r"
  by (auto simp: silent_def intro: hush_trans)

lemma silent_bind: "(\<And>x. m = Some x \<Longrightarrow> silent K (f x)) \<Longrightarrow> silent K (m \<bind> f)"
  by (cases m) auto

lemma silent_map: "(\<And>x. m = Some x \<Longrightarrow> hush K (f x)) \<Longrightarrow> silent K (map_option f m)"
  by (auto simp: silent_def)

lemma silent_seq: "silent K m \<Longrightarrow> (\<And>J. hush K J \<Longrightarrow> silent K (f J)) \<Longrightarrow> silent K (m \<bind> f)"
  by (cases m) (auto simp: silent_def)

lemma silent_remove:
  "(\<And>n. silent K (f (n, detach t J))) \<Longrightarrow> silent K (remove_state t J \<bind> f)"
  "(\<And>n. silent K (f (n, detach_event t J))) \<Longrightarrow> silent K (remove_event t J \<bind> f)"
  by (auto intro!: silent_bind dest: remove_state_cases remove_event_cases)

lemma silent_snd [simp]: "silent K (map_option snd (Some (x, J))) = hush K J"
  "silent K (map_option snd (m \<bind> f)) = silent K (m \<bind> (\<lambda>x. map_option snd (f x)))"
  "silent K (map_option snd (if b then m1 else m2)) = (if b then silent K (map_option snd m1) else silent K (map_option snd m2))"
  by (cases m; simp)+

lemma hush_if [simp]: "hush K (if b then J else J') = (if b then hush K J else hush K J')"
  by simp

lemmas silent_intros = silent_seq silent_remove

lemma silent_sleep: "silent K (prvAddCurrentTaskToDelayedList n i K)"
  unfolding prvAddCurrentTaskToDelayedList_def Let_def
  by (intro silent_intros) (auto intro!: hush_set_tcb simp del: insert_state_end.simps)

lemma silent_switch: "silent K (vTaskSwitchContext K)"
  unfolding vTaskSwitchContext_def taskSELECT_HIGHEST_PRIORITY_TASK_def
  by (auto intro!: silent_bind simp: case_prod_unfold)

lemma silent_notify_wake: "hush K J \<Longrightarrow> silent K (map_option snd (notify_wake_from_isr t J))"
  unfolding notify_wake_from_isr_def silent_snd Let_def
  by (intro silent_intros) (auto intro!: silent_intros simp del: insert_event_end.simps)

lemma silent_event: "silent K (map_option snd (xTaskRemoveFromEventList e K))"
proof (cases "events K e")
  case (Cons t ts)
  then show ?thesis unfolding xTaskRemoveFromEventList_def Cons list.case silent_snd Let_def
    by (intro silent_intros) (auto intro!: silent_intros simp del: insert_event_end.simps)
qed (simp add: xTaskRemoveFromEventList_def)

lemma set_event_priority_hush [simp]: "hush K (set_event_priority t p J) = hush K J"
  by (auto simp: set_event_priority_def hush_def kernel_simps)

lemma hush_fields [simp]:
  "hush K (set_tcb t (\<lambda>c. (if b c then c\<lparr>uxPriority := p\<rparr> else c)\<lparr>uxBasePriority := p'\<rparr>) J) = hush K J"
  "hush K (set_tcb t (\<lambda>c. c\<lparr>uxPriority := g c\<rparr>) J) = hush K J"
  "hush K (set_tcb t (\<lambda>c. c\<lparr>uxMutexesHeld := g c\<rparr>) J) = hush K J"
  "hush K (set_tcb t (\<lambda>c. c\<lparr>xEventValue := g c\<rparr>) J) = hush K J"
  "hush K (set_tcb t (\<lambda>c. c\<lparr>xStateValue := g c\<rparr>) J) = hush K J"
  "hush K (set_tcb t (\<lambda>c. c\<lparr>ulNotifiedValue := g c\<rparr>) J) = hush K J"
  by (auto simp: hush_def kernel_simps)

lemma hush_quiet [intro]:
  "hush K J \<Longrightarrow> hush K (set_tcb t (\<lambda>c. c\<lparr>ucNotifyState := NotWaiting\<rparr>) J)"
  "hush K J \<Longrightarrow> hush K (set_tcb t (\<lambda>c. c\<lparr>ucNotifyState := Received, ulNotifiedValue := g c\<rparr>) J)"
  by (auto simp: hush_def kernel_simps)

lemma silent_priorities:
  "silent K (vTaskPrioritySet h p K)" "silent K (map_option snd (xTaskPriorityInherit h K))"
  "silent K (map_option snd (xTaskPriorityDisinherit h K))" "silent K (vTaskPriorityDisinheritAfterTimeout h w K)"
proof -
  show "silent K (vTaskPrioritySet h p K)"
    unfolding vTaskPrioritySet_def Let_def by (auto intro!: silent_intros)
  show "silent K (map_option snd (xTaskPriorityInherit h K))"
    unfolding xTaskPriorityInherit_def Let_def silent_snd by (auto intro!: silent_intros)
  show "silent K (map_option snd (xTaskPriorityDisinherit h K))"
    unfolding xTaskPriorityDisinherit_def Let_def silent_snd by (auto intro!: silent_intros)
  show "silent K (vTaskPriorityDisinheritAfterTimeout h w K)"
    unfolding vTaskPriorityDisinheritAfterTimeout_def Let_def by (auto intro!: silent_intros)
qed

text \<open>The same for long calls, one statement at a time: only the silence of the state is kept.\<close>

lemma silent_statements:
  "hush K J \<Longrightarrow> (\<And>J. hush K J \<Longrightarrow> silent K (f J)) \<Longrightarrow> silent K (Let J f)"
  "hush K J \<Longrightarrow> (\<And>n J. hush K J \<Longrightarrow> silent K (g n J)) \<Longrightarrow> silent K (remove_state t J \<bind> (\<lambda>(n, K). g n K))"
  "silent K m \<Longrightarrow> (\<And>J. hush K J \<Longrightarrow> silent K (f J)) \<Longrightarrow> silent K (m \<bind> f)"
  by (auto intro!: silent_remove silent_seq)

lemma silent_suspend: "silent K (vTaskSuspend h K)"
  unfolding vTaskSuspend_def Let_def [of "prvGetTCBFromHandle h K"]
  by (intro silent_statements)
     (auto simp: maybe_remove_event remove_event_eq intro: silent_trans [OF _ silent_switch] simp del: insert_state_end.simps)

lemma silent_wakes:
  "silent K (vTaskRemoveFromUnorderedEventList t v K)" "silent K (vTaskResume t K)"
  "silent K (map_option snd (xTaskResumeFromISR t K))" "silent K (map_option (\<lambda>(_, _, K). K) (xTaskGenericNotify t v a K))"
  "silent K (map_option (\<lambda>(_, _, _, K). K) (xTaskGenericNotifyFromISR t v a K))" "silent K (map_option snd (vTaskNotifyGiveFromISR t K))"
proof -
  show "silent K (vTaskRemoveFromUnorderedEventList t v K)"
    unfolding vTaskRemoveFromUnorderedEventList_def Let_def by (auto intro!: silent_intros)
  show "silent K (vTaskResume t K)" unfolding vTaskResume_def Let_def by (auto intro!: silent_intros)
  show "silent K (map_option snd (xTaskResumeFromISR t K))"
    unfolding xTaskResumeFromISR_def Let_def by (auto intro!: silent_intros simp del: insert_event_end.simps)
  show "silent K (map_option (\<lambda>(_, _, K). K) (xTaskGenericNotify t v a K))"
    unfolding xTaskGenericNotify_def Let_def
    by (cases "notify_value a v (tcbs K t)") (auto intro!: silent_intros hush_quiet simp: map_option_bind comp_def)
  have n: "silent K (map_option (\<lambda>(_, _, _, K). K) (m \<bind> (\<lambda>(w, K). Some (r, p, w, K))))" if "silent K (map_option snd m)" for m r p
    using that by (cases m) auto
  show "silent K (map_option (\<lambda>(_, _, _, K). K) (xTaskGenericNotifyFromISR t v a K))"
    unfolding xTaskGenericNotifyFromISR_def Let_def
    by (cases "notify_value a v (tcbs K t)") (auto simp: bind.bind_lunit intro!: n silent_notify_wake)
  show "silent K (map_option snd (vTaskNotifyGiveFromISR t K))"
    unfolding vTaskNotifyGiveFromISR_def Let_def by (auto intro!: silent_notify_wake)
qed

text \<open>The calls with loops, from what is known of them when the invariant holds.\<close>

lemma hush_woken: "tcbs K' = (\<lambda>t. if W t then woken (tcbs K t) else tcbs K t) \<Longrightarrow> hush K K'"
  by (auto simp: hush_def woken_def split: if_splits)

lemma silent_tick:
  assumes "kernel_ok K" shows "silent K (map_option snd (xTaskIncrementTick K))"
proof (cases "uxSchedulerSuspended K = 0")
  case True
  from tick_ok [OF assms True] show ?thesis by (auto simp: silent_def clock_step_def elim!: returnsE intro: hush_woken)
qed (simp add: suspended_tick)

lemma silent_resume:
  assumes "kernel_ok K" "uxSchedulerSuspended K \<noteq> 0" "0 < uxCurrentNumberOfTasks K"
  shows "silent K (map_option snd (xTaskResumeAll K))"
proof (cases "uxSchedulerSuspended K = 1")
  case True
  from resume_outermost [OF assms(1) True assms(3)] show ?thesis by (auto simp: silent_def elim!: returnsE intro: hush_woken)
next
  case False
  then have "uxSchedulerSuspended K - 1 \<noteq> 0" by simp
  then show ?thesis by (simp add: xTaskResumeAll_def Let_def)
qed

lemma silent_delays:
  assumes ok: "kernel_ok K" and r: "running K"
  shows "silent K (vTaskDelay n K)" "silent K (map_option snd (vTaskDelayUntil p n K))"
proof -
  let ?S = "vTaskSuspendAll K"
  have u: "uxSchedulerSuspended K = 0" "0 < uxCurrentNumberOfTasks K" using r by (simp_all add: running_def)
  have okS: "kernel_ok ?S" "uxSchedulerSuspended ?S \<noteq> 0" "0 < uxCurrentNumberOfTasks ?S"
    using u vTaskSuspendAll_ok [OF ok] by (simp_all add: vTaskSuspendAll_def)
  have sleep: "kernel_ok K1 \<and> hush K K1 \<and> uxSchedulerSuspended K1 \<noteq> 0 \<and> 0 < uxCurrentNumberOfTasks K1"
    if "prvAddCurrentTaskToDelayedList m False ?S = Some K1" "0 < m" for m K1
  proof -
    have "hush K K1" using silent_trans [OF _ silent_sleep, of K ?S m False] that(1) by (simp add: silent_def)
    then show ?thesis using suspended_sleep [OF ok r that(2), of False] that(1) by (simp add: put_to_sleep_def)
  qed
  have resume: "hush K K'" if "xTaskResumeAll K1 = Some (y, K')" "kernel_ok K1" "hush K K1" "uxSchedulerSuspended K1 \<noteq> 0" "0 < uxCurrentNumberOfTasks K1"
    for K1 y K'
    using silent_resume [of K1] that by (auto simp: silent_def intro: hush_trans)
  show "silent K (vTaskDelay n K)"
    by (auto simp: vTaskDelay_def silent_def bind_eq_Some_conv split: if_splits dest!: sleep intro: resume)
  show "silent K (map_option snd (vTaskDelayUntil p n K))"
    using okS resume [OF _ okS(1) _ okS(2,3)] by (auto simp: vTaskDelayUntil_def silent_def bind_eq_Some_conv Let_def split: if_splits dest: should_delay_pos dest!: sleep intro: resume)
qed

lemma hush_create: "hush K (prvAddNewTaskToReadyList t K)"
proof -
  have "tcbs (prvInitialiseTaskLists J) = tcbs J" for J by (simp add: prvInitialiseTaskLists_def)
  then show ?thesis by (simp add: prvAddNewTaskToReadyList_def Let_def)
qed

text \<open>A task that waits for nothing keeps doing so while others make calls.\<close>

lemma calls_keep_others:
  assumes ok: "kernel_ok K" and c: "calls K (Some K')" and t: "t \<noteq> pxCurrentTCB K" "ucNotifyState (tcbs K t) \<noteq> Waiting"
  shows "ucNotifyState (tcbs K' t) \<noteq> Waiting"
proof -
  have h: ?thesis if "silent K (Some K')" using that t(2) by (auto simp: hush_def)
  have w: ?thesis if "Some K' = (if 0 < n then map_option taskYIELD (prvAddCurrentTaskToDelayedList n True (set_tcb (pxCurrentTCB K) f K))
    else Some (set_tcb (pxCurrentTCB K) f K))" for n f
  proof -
    have "silent (set_tcb (pxCurrentTCB K) f K) (Some K')"
      unfolding that by (auto intro!: silent_map dest: silent_sleep [unfolded silent_def, rule_format])
    then show ?thesis using t by (auto simp: hush_def kernel_simps)
  qed
  have p: "silent K (vTaskPlaceOnEventList e n K)" "silent K (vTaskPlaceOnUnorderedEventList e v n K)"
    "silent K (vTaskPlaceOnEventListRestricted e n i K)" for e n v i
    unfolding vTaskPlaceOnEventList_def vTaskPlaceOnUnorderedEventList_def vTaskPlaceOnEventListRestricted_def Let_def
    by (rule silent_trans [OF _ silent_sleep], simp del: insert_event_end.simps)+
  show ?thesis using c
  proof cases
    case tick then show ?thesis using h silent_tick [OF ok] by metis
  next
    case resume_all then show ?thesis using h silent_resume [OF ok] by metis
  next
    case delay then show ?thesis using h silent_delays(1) [OF ok] by metis
  next
    case delay_until then show ?thesis using h silent_delays(2) [OF ok] by metis
  next
    case (take n)
    then show ?thesis using w t by (cases "ulNotifiedValue (tcbs K (pxCurrentTCB K)) = 0") (auto simp: ulTaskNotifyTake_wait_def Let_def)
  next
    case (wait b n)
    then show ?thesis using w t
      by (cases "ucNotifyState (tcbs K (pxCurrentTCB K)) \<noteq> Received") (auto simp: xTaskNotifyWait_wait_def Let_def)
  next
    case start then show ?thesis using t by (simp add: start_scheduler_def)
  next
    case (create u) then show ?thesis using hush_create [of K u] t(2) by (auto simp: hush_def)
  next
    case event_value then show ?thesis using t by (auto simp: uxTaskResetEventItemValue_def Let_def kernel_simps)
  next
    case mutex_taken then show ?thesis using t by (auto simp: pvTaskIncrementMutexHeldCount_def Let_def kernel_simps)
  next
    case take_return then show ?thesis using t by (auto simp: ulTaskNotifyTake_return_def Let_def kernel_simps)
  next
    case wait_return then show ?thesis using t by (auto simp: xTaskNotifyWait_return_def Let_def kernel_simps)
  next
    case state_clear then show ?thesis using t by (auto simp: xTaskNotifyStateClear_def Let_def kernel_simps)
  qed (use h p silent_switch silent_event silent_priorities silent_suspend silent_wakes t in \<open>auto simp: kernel_simps\<close>)
qed

section \<open>Interrupts while the scheduler is suspended\<close>

text \<open>The kernel calls an interrupt handler may make, beside those on queues.\<close>

inductive interrupt :: "kernel \<Rightarrow> kernel option \<Rightarrow> bool" where
  "interrupt K (map_option snd (xTaskIncrementTick K))"
| "ucNotifyState (tcbs K t) \<noteq> Waiting \<Longrightarrow> interrupt K (map_option snd (xTaskResumeFromISR t K))"
| "st K t \<noteq> None \<Longrightarrow> interrupt K (map_option (\<lambda>(_, _, _, K). K) (xTaskGenericNotifyFromISR t v a K))"
| "st K t \<noteq> None \<Longrightarrow> interrupt K (map_option snd (vTaskNotifyGiveFromISR t K))"

lemma interrupt_calls: "interrupt K r \<Longrightarrow> calls K r"
  by (induction rule: interrupt.induct) (auto intro: tick resume_isr notify_isr give_isr)

text \<open>What stays as it is for the task that has suspended the scheduler.\<close>

definition undisturbed :: "tid \<Rightarrow> kernel \<Rightarrow> kernel \<Rightarrow> bool" where
  "undisturbed t K K' \<longleftrightarrow> st K' t = st K t \<and> ev K' t = ev K t \<and> prio K' t = prio K t \<and>
     (ucNotifyState (tcbs K t) \<noteq> Waiting \<longrightarrow> ucNotifyState (tcbs K' t) \<noteq> Waiting) \<and> pxCurrentTCB K' = pxCurrentTCB K \<and>
     uxSchedulerSuspended K' = uxSchedulerSuspended K \<and> uxCurrentNumberOfTasks K' = uxCurrentNumberOfTasks K"

lemma undisturbed_refl [simp]: "undisturbed t K K"
  by (simp add: undisturbed_def)

lemma undisturbed_trans: "undisturbed t K K1 \<Longrightarrow> undisturbed t K1 K2 \<Longrightarrow> undisturbed t K K2"
  by (simp add: undisturbed_def)

lemma undisturbed_simps [simp]:
  "undisturbed t K (J\<lparr>xYieldPending := y\<rparr>) = undisturbed t K J" "undisturbed t K (vTaskMissedYield J) = undisturbed t K J"
  "undisturbed t K (taskYIELD J) = undisturbed t K J" "undisturbed t K (J\<lparr>uxPendedTicks := v\<rparr>) = undisturbed t K J"
  by (simp_all add: undisturbed_def vTaskMissedYield_def taskYIELD_def)

lemma undisturbed_pend: "t \<noteq> u \<Longrightarrow> undisturbed t K (insert_event_end PendingReadyList u K)"
  by (simp add: undisturbed_def kernel_simps del: insert_event_end.simps)

lemma undisturbed_set_tcb:
  "t \<noteq> u \<or> (xStateContainer (f (tcbs K t)) = st K t \<and> xEventContainer (f (tcbs K t)) = ev K t \<and> uxPriority (f (tcbs K t)) = prio K t \<and>
     ucNotifyState (f (tcbs K t)) \<noteq> Waiting) \<Longrightarrow> undisturbed t K (set_tcb u f K)"
  by (auto simp: undisturbed_def kernel_simps)

lemma pend_events: "events (insert_event_end PendingReadyList u K) = events K"
  by (simp add: set_tcb_def)

lemma notify_wake_suspended:
  assumes "uxSchedulerSuspended K \<noteq> 0" "notify_wake_from_isr u K = Some (w, K')" "t \<noteq> u"
  shows "undisturbed t K K' \<and> events K' = events K"
  using assms undisturbed_pend [OF assms(3), of K] pend_events [of u K]
  by (auto simp: notify_wake_from_isr_def simp del: insert_event_end.simps split: if_splits)

lemma map_snd_SomeD: "map_option snd m = Some K' \<Longrightarrow> \<exists>w. m = Some (w, K')"
  by (cases m) auto

lemma interrupt_undisturbed:
  assumes i: "interrupt K (Some K')" and s: "uxSchedulerSuspended K \<noteq> 0" and w: "ucNotifyState (tcbs K t) \<noteq> Waiting"
    and t: "(\<exists>p. st K t = Some (Ready p)) \<or> ev K t \<noteq> None"
  shows "undisturbed t K K' \<and> events K' = events K"
  using i
proof cases
  case 1
  then show ?thesis using s by (simp add: suspended_tick)
next
  case (2 u)
  show ?thesis
  proof (cases "prvTaskIsTaskSuspended u K")
    case True
    then have "t \<noteq> u" using t by (auto simp: prvTaskIsTaskSuspended_def)
    then show ?thesis using 2 s True undisturbed_pend pend_events by (simp add: xTaskResumeFromISR_def del: insert_event_end.simps)
  qed (use 2 in \<open>simp add: xTaskResumeFromISR_def\<close>)
next
  case (3 u v a)
  obtain r x where v: "notify_value a v (tcbs K u) = (r, x)" by fastforce
  let ?K = "set_tcb u (\<lambda>c. c\<lparr>ucNotifyState := Received, ulNotifiedValue := x\<rparr>) K"
  have u: "undisturbed t K ?K" "events ?K = events K" "uxSchedulerSuspended ?K \<noteq> 0"
    by (rule undisturbed_set_tcb, simp, simp_all add: set_tcb_def s)
  show ?thesis
  proof (cases "ucNotifyState (tcbs K u) = Waiting")
    case True
    then obtain w where "notify_wake_from_isr u ?K = Some (w, K')" using 3 v
      by (cases "notify_wake_from_isr u ?K") (auto simp: xTaskGenericNotifyFromISR_def Let_def)
    moreover have "t \<noteq> u" using True w by blast
    ultimately have n: "undisturbed t ?K K' \<and> events K' = events ?K" using notify_wake_suspended [OF u(3)] by blast
    show ?thesis by (rule conjI, rule undisturbed_trans [OF u(1) conjunct1 [OF n]], rule trans [OF conjunct2 [OF n] u(2)])
  next
    case False
    then have "K' = ?K" using 3 v by (simp add: xTaskGenericNotifyFromISR_def Let_def)
    then show ?thesis using u(1,2) by (simp only: simp_thms)
  qed
next
  case (4 u)
  let ?K = "set_tcb u (\<lambda>c. c\<lparr>ucNotifyState := Received, ulNotifiedValue := ulNotifiedValue c + 1\<rparr>) K"
  have u: "undisturbed t K ?K" "events ?K = events K" "uxSchedulerSuspended ?K \<noteq> 0"
    by (rule undisturbed_set_tcb, simp, simp_all add: set_tcb_def s)
  show ?thesis
  proof (cases "ucNotifyState (tcbs K u) = Waiting")
    case True
    then have "vTaskNotifyGiveFromISR u K = notify_wake_from_isr u ?K"
      unfolding vTaskNotifyGiveFromISR_def Let_def by (rule if_P)
    then have "map_option snd (notify_wake_from_isr u ?K) = Some K'" using sym [OF 4(1)] by (simp only:)
    from map_snd_SomeD [OF this] obtain w where "notify_wake_from_isr u ?K = Some (w, K')" ..
    moreover have "t \<noteq> u" using True w by blast
    ultimately have n: "undisturbed t ?K K' \<and> events K' = events ?K" using notify_wake_suspended [OF u(3)] by blast
    show ?thesis by (rule conjI, rule undisturbed_trans [OF u(1) conjunct1 [OF n]], rule trans [OF conjunct2 [OF n] u(2)])
  next
    case False
    then have "vTaskNotifyGiveFromISR u K = Some (False, ?K)"
      unfolding vTaskNotifyGiveFromISR_def Let_def by (rule if_not_P)
    with 4(1) have "K' = ?K" by (simp only: option.map snd_conv option.inject)
    then show ?thesis using u(1,2) by (simp only: simp_thms)
  qed
qed

text \<open>Waking the first waiter of a list leaves every task alone that is not in this list.\<close>

lemma wake_first_suspended:
  assumes ok: "kernel_ok K" and s: "uxSchedulerSuspended K \<noteq> 0" and l: "events K e = u # us"
  shows "\<exists>sw K'. xTaskRemoveFromEventList e K = Some (sw, K') \<and> kernel_ok K' \<and> (\<forall>t. t \<noteq> u \<longrightarrow> undisturbed t K K') \<and>
    ev K' u = Some PendingReadyList \<and> events K' = (events K)(e := us) \<and> uxSchedulerSuspended K' = uxSchedulerSuspended K"
proof -
  note h = event_head [OF ok l]
  let ?K = "insert_event_end PendingReadyList u (detach_event u K)"
  have w: "wake_task u (detach_event u K) = ?K" using s by (simp add: wake_task_def kernel_simps del: insert_event_end.simps)
  have "undisturbed t K (detach_event u K)" if "t \<noteq> u" for t using that by (simp add: undisturbed_def kernel_simps)
  then have "undisturbed t K ?K" if "t \<noteq> u" for t
    using that undisturbed_trans [OF _ undisturbed_pend [OF that, of "detach_event u K"]] by blast
  moreover have "events ?K = (events K)(e := us)"
    using l h(1) by (simp add: pend_events detach_event_def set_tcb_def fun_eq_iff del: insert_event_end.simps)
  moreover have "ev ?K u = Some PendingReadyList" "uxSchedulerSuspended ?K = uxSchedulerSuspended K"
    by (simp_all add: kernel_simps del: insert_event_end.simps)
  moreover have "kernel_ok ?K" using wake_event_ok [OF ok l] w by simp
  ultimately show ?thesis unfolding xTaskRemoveFromEventList_eq [OF ok l] w Let_def by (auto simp del: insert_event_end.simps)
qed

lemma unblock_one_suspended:
  assumes ok: "kernel_ok K" and s: "uxSchedulerSuspended K \<noteq> 0"
  shows "returns (unblock_one e K) (\<lambda>(sw, K'). kernel_ok K' \<and> (\<forall>t. ev K t \<noteq> Some (EventList e) \<longrightarrow> undisturbed t K K') \<and>
    (\<forall>i. i \<noteq> e \<longrightarrow> events K' i = events K i))"
proof (cases "events K e")
  case (Cons u us)
  have "ev K u = Some (EventList e)" by (rule event_head(1) [OF ok Cons])
  then show ?thesis using wake_first_suspended [OF ok s Cons] Cons by (auto simp: unblock_one_def returns_def)
qed (use ok in \<open>simp add: unblock_one_def\<close>)

declare unlock_loop.simps [simp del]

lemma unlock_loop_suspended:
  assumes "kernel_ok K" "uxSchedulerSuspended K \<noteq> 0"
  shows "returns (unlock_loop c e K) (\<lambda>K'. kernel_ok K' \<and> (\<forall>t. ev K t \<noteq> Some (EventList e) \<longrightarrow> undisturbed t K K') \<and>
    uxSchedulerSuspended K' = uxSchedulerSuspended K \<and> pxCurrentTCB K' = pxCurrentTCB K \<and> uxCurrentNumberOfTasks K' = uxCurrentNumberOfTasks K \<and>
    (\<forall>t. ucNotifyState (tcbs K t) \<noteq> Waiting \<longrightarrow> ucNotifyState (tcbs K' t) \<noteq> Waiting) \<and>
    (\<forall>i. i \<noteq> e \<longrightarrow> events K' i = events K i) \<and> (0 < sint c \<longrightarrow> (\<forall>u us. events K e = u # us \<longrightarrow> ev K' u = Some PendingReadyList)))"
  using assms
proof (induction c e K rule: unlock_loop.induct)
  case (1 c e K)
  show ?case
  proof (cases "0 < sint c \<and> events K e \<noteq> []")
    case True
    then obtain u us where l: "events K e = u # us" by (cases "events K e") auto
    obtain sw K1 where k1: "xTaskRemoveFromEventList e K = Some (sw, K1)" "kernel_ok K1" "\<And>t. t \<noteq> u \<Longrightarrow> undisturbed t K K1"
      "ev K1 u = Some PendingReadyList" "events K1 = (events K)(e := us)" "uxSchedulerSuspended K1 = uxSchedulerSuspended K"
      using wake_first_suspended [OF 1(2,3) l] by blast
    define K2 where "K2 = (if sw then vTaskMissedYield K1 else K1)"
    have k2: "kernel_ok K2" "tcbs K2 = tcbs K1" "events K2 = events K1" "uxSchedulerSuspended K2 = uxSchedulerSuspended K"
      "\<And>t. undisturbed t K1 K2"
      using k1(2,6) by (simp_all add: K2_def vTaskMissedYield_def)
    obtain t where "t \<noteq> u" by (metis n_not_Suc_n)
    then have c: "pxCurrentTCB K2 = pxCurrentTCB K" "uxCurrentNumberOfTasks K2 = uxCurrentNumberOfTasks K"
      using undisturbed_trans [OF k1(3) k2(5)] by (auto simp: undisturbed_def)
    have n: "ucNotifyState (tcbs K2 t) \<noteq> Waiting" if "ucNotifyState (tcbs K t) \<noteq> Waiting" for t
    proof (cases "t = u")
      case True
      then show ?thesis using waiting_no_event [OF k2(1), of u] k1(4) k2(2) by auto
    qed (use that k1(3) k2(2) in \<open>auto simp: undisturbed_def\<close>)
    have u: "ev K u = Some (EventList e)" by (rule event_head(1) [OF 1(2) l])
    have ih: "returns (unlock_loop (c - 1) e K2) (\<lambda>K'. kernel_ok K' \<and> (\<forall>t. ev K2 t \<noteq> Some (EventList e) \<longrightarrow> undisturbed t K2 K') \<and>
      uxSchedulerSuspended K' = uxSchedulerSuspended K2 \<and> pxCurrentTCB K' = pxCurrentTCB K2 \<and> uxCurrentNumberOfTasks K' = uxCurrentNumberOfTasks K2 \<and>
      (\<forall>t. ucNotifyState (tcbs K2 t) \<noteq> Waiting \<longrightarrow> ucNotifyState (tcbs K' t) \<noteq> Waiting) \<and>
      (\<forall>i. i \<noteq> e \<longrightarrow> events K' i = events K2 i) \<and> (0 < sint (c - 1) \<longrightarrow> (\<forall>u us. events K2 e = u # us \<longrightarrow> ev K' u = Some PendingReadyList)))"
      using 1(1) [of "(sw, K1)" sw K1] True k1(1) k2(1,4) 1(3) unfolding K2_def by auto
    have e: "unlock_loop c e K = unlock_loop (c - 1) e K2"
      using True k1(1) by (subst unlock_loop.simps) (simp add: K2_def)
    show ?thesis unfolding e using ih
    proof (elim returns_mono, intro conjI)
      fix K' assume a: "kernel_ok K' \<and> (\<forall>t. ev K2 t \<noteq> Some (EventList e) \<longrightarrow> undisturbed t K2 K') \<and>
        uxSchedulerSuspended K' = uxSchedulerSuspended K2 \<and> pxCurrentTCB K' = pxCurrentTCB K2 \<and> uxCurrentNumberOfTasks K' = uxCurrentNumberOfTasks K2 \<and>
        (\<forall>t. ucNotifyState (tcbs K2 t) \<noteq> Waiting \<longrightarrow> ucNotifyState (tcbs K' t) \<noteq> Waiting) \<and>
        (\<forall>i. i \<noteq> e \<longrightarrow> events K' i = events K2 i) \<and> (0 < sint (c - 1) \<longrightarrow> (\<forall>u us. events K2 e = u # us \<longrightarrow> ev K' u = Some PendingReadyList))"
      show "\<forall>t. ev K t \<noteq> Some (EventList e) \<longrightarrow> undisturbed t K K'"
      proof (intro allI impI)
        fix t assume t: "ev K t \<noteq> Some (EventList e)"
        then have "t \<noteq> u" using u by auto
        then have 12: "undisturbed t K K2" using undisturbed_trans [OF k1(3) k2(5)] by blast
        then have "ev K2 t \<noteq> Some (EventList e)" using t by (simp add: undisturbed_def)
        then show "undisturbed t K K'" using a 12 undisturbed_trans by blast
      qed
      have "ev K2 u \<noteq> Some (EventList e)" using k1(4) k2(2) by simp
      then have "undisturbed u K2 K'" using a by blast
      then show "0 < sint c \<longrightarrow> (\<forall>u us. events K e = u # us \<longrightarrow> ev K' u = Some PendingReadyList)"
        using l k1(4) k2(2) by (auto simp: undisturbed_def)
    qed (use k2(3,4) k1(5) c n in auto)
  next
    case False
    then show ?thesis using 1(2) by (subst unlock_loop.simps) auto
  qed
qed

end
