(* ===== verification/RTOS_Calls.thy ===== *)
theory RTOS_Calls
  imports RTOS_Blocking
begin

text \<open>
  Tasks in the middle of calls: queues, the kernel and the tasks that stand at some point of a call of
  \<open>queue.c\<close>. The invariant says at which points a queue is locked, what the lock counts defer, and who
  holds a mutex; every step of a call, of an interrupt and of the scheduler keeps it.
\<close>

unbundle bit_operations_syntax


section \<open>Tasks in calls\<close>

datatype request = Send bytes copy_position | Receive | Take | Peek

fun next_frame :: "'a progress \<Rightarrow> call_frame option" where
  "next_frame (Return x) = None"
| "next_frame (Continue f) = Some f"

definition finish :: "('a progress \<times> queue \<times> kernel) option \<Rightarrow> (call_frame option \<times> queue \<times> kernel) option" where
  "finish m = map_option (\<lambda>(r, s). (next_frame r, s)) m"

fun call_step :: "request \<Rightarrow> call_frame \<Rightarrow> queue \<Rightarrow> kernel \<Rightarrow> (call_frame option \<times> queue \<times> kernel) option" where
  "call_step (Send x p) f q K = finish (xQueueGenericSend x p f q K)"
| "call_step Receive f q K = finish (xQueueReceive f q K)"
| "call_step Take f q K = finish (xQueueSemaphoreTake f q K)"
| "call_step Peek f q K = finish (xQueuePeek f q K)"

fun wait_list :: "request \<Rightarrow> queue \<Rightarrow> nat" where
  "wait_list (Send x p) q = xTasksWaitingToSend q"
| "wait_list _ q = xTasksWaitingToReceive q"

text \<open>Where in a call the scheduler is suspended, and where the queue is locked.\<close>

fun suspended_at :: "call_point \<Rightarrow> bool" where
  "suspended_at Attempt = False" | "suspended_at SuspendAll = False" | "suspended_at Expired = False"
| "suspended_at Disinherit = False" | "suspended_at _ = True"

fun before_place :: "call_point \<Rightarrow> bool" where
  "before_place LockQueue = True" | "before_place CheckTimeOut = True" | "before_place TestQueue = True"
| "before_place Inherit = True" | "before_place PlaceOnList = True" | "before_place _ = False"

fun tx_locked :: "call_point \<Rightarrow> bool" where
  "tx_locked CheckTimeOut = True" | "tx_locked TestQueue = True" | "tx_locked Inherit = True"
| "tx_locked PlaceOnList = True" | "tx_locked (UnlockTx a) = True" | "tx_locked _ = False"

fun rx_locked :: "call_point \<Rightarrow> bool" where
  "rx_locked (UnlockRx a) = True" | "rx_locked p = tx_locked p"

definition held :: "8 word \<Rightarrow> bool \<Rightarrow> bool" where
  "held c b \<longleftrightarrow> (if b then unat c < 128 else c = queueUNLOCKED)"

definition lock_state :: "queue \<Rightarrow> call_point \<Rightarrow> bool" where
  "lock_state q p \<longleftrightarrow> held (cTxLock q) (tx_locked p) \<and> held (cRxLock q) (rx_locked p)"

text \<open>
  The state of semaphores and mutexes. A mutex is there to take exactly when it has no holder.
\<close>

fun holder :: "queue_union \<Rightarrow> tid" where
  "holder (SemaphoreData h c) = h"
| "holder (QueuePointers t r) = NULL"

definition semaphore_ok :: "queue \<Rightarrow> bool" where
  "semaphore_ok q \<longleftrightarrow> uxItemSize q = 0 \<and> uxMessagesWaiting q \<le> uxLength q \<and>
     (is_mutex q \<longrightarrow> uxLength q = 1 \<and> (\<exists>h c. un q = SemaphoreData h c \<and> (uxMessagesWaiting q = 0 \<longleftrightarrow> h \<noteq> NULL)))"

definition any_queue_ok :: "queue \<Rightarrow> bool" where
  "any_queue_ok q \<longleftrightarrow> (if uxItemSize q = 0 then semaphore_ok q else queue_ok q)"

fun request_ok :: "request \<Rightarrow> tid \<Rightarrow> queue \<Rightarrow> bool" where
  "request_ok (Send x p) t q = (if uxItemSize q = 0 then p = queueSEND_TO_BACK \<and> (is_mutex q \<longrightarrow> holder (un q) = t)
     else length x = isize q \<and> (p = queueOVERWRITE \<longrightarrow> uxLength q = 1))"
| "request_ok Receive t q = (uxItemSize q \<noteq> 0)"
| "request_ok Peek t q = (uxItemSize q \<noteq> 0)"
| "request_ok Take t q = (uxItemSize q = 0)"

text \<open>
  \<open>deferred\<close>: between the test that made the task wait and the unlocking of the queue, the lock count has
  counted whatever came for it.
\<close>

fun deferred :: "request \<Rightarrow> queue \<Rightarrow> bool" where
  "deferred (Send x p) q = (unat (uxLength q - uxMessagesWaiting q) \<le> unat (cRxLock q))"
| "deferred _ q = (unat (uxMessagesWaiting q) \<le> unat (cTxLock q))"

fun is_send :: "request \<Rightarrow> bool" where
  "is_send (Send x p) = True" | "is_send _ = False"

definition frame_ok :: "kernel \<Rightarrow> queue \<Rightarrow> request \<Rightarrow> call_frame \<Rightarrow> bool" where
  "frame_ok K q r f \<longleftrightarrow>
     (suspended_at (point f) \<longrightarrow> uxSchedulerSuspended K = 1 \<and> 0 < uxCurrentNumberOfTasks K) \<and>
     (before_place (point f) \<longrightarrow> able K) \<and>
     (point f \<in> {TestQueue, Inherit, PlaceOnList} \<longrightarrow> 0 < xTicksToWait f) \<and>
     (point f \<in> {Inherit, PlaceOnList, UnlockTx Blocked} \<or> point f = UnlockRx Blocked \<and> is_send r \<longrightarrow> deferred r q) \<and>
     (point f = UnlockTx Blocked \<or> point f = UnlockRx Blocked \<and> is_send r \<longrightarrow>
       ev K (pxCurrentTCB K) = Some (EventList (wait_list r q)))"

definition inherit_ok :: "request \<Rightarrow> call_frame \<Rightarrow> queue \<Rightarrow> bool" where
  "inherit_ok r f q \<longleftrightarrow> (xInheritanceOccurred f \<or> point f \<in> {Inherit, Disinherit} \<longrightarrow> r = Take \<and> is_mutex q)"

text \<open>What no step of a call changes: everything about the queue but its items, its holder and its locks.\<close>

definition shape :: "queue \<Rightarrow> u32 \<times> nat \<times> nat \<times> u32 \<times> u32" where
  "shape q = (pcHead q, xTasksWaitingToSend q, xTasksWaitingToReceive q, uxLength q, uxItemSize q)"

lemma shape_fields:
  assumes "shape q' = shape q"
  shows "pcHead q' = pcHead q" "xTasksWaitingToSend q' = xTasksWaitingToSend q"
    "xTasksWaitingToReceive q' = xTasksWaitingToReceive q" "uxLength q' = uxLength q" "uxItemSize q' = uxItemSize q"
  using assms by (simp_all add: shape_def)

lemma control_shape: "control q' = control q \<Longrightarrow> shape q' = shape q"
  by (simp add: shape_def control_def)

text \<open>How a mutex changes hands: from nobody to the task that takes it, from the task that gives it to nobody.\<close>

fun handover :: "request \<Rightarrow> tid \<Rightarrow> tid \<Rightarrow> tid \<Rightarrow> bool" where
  "handover Take t h h' = (h = NULL \<and> h' = t)"
| "handover (Send x p) t h h' = (h = t \<and> h' = NULL)"
| "handover _ t h h' = False"

definition good :: "request \<Rightarrow> queue \<Rightarrow> kernel \<Rightarrow> call_frame option \<Rightarrow> queue \<Rightarrow> kernel \<Rightarrow> bool" where
  "good r q K fo q' K' \<longleftrightarrow> kernel_ok K' \<and> any_queue_ok q' \<and> shape q' = shape q \<and> pxCurrentTCB K' = pxCurrentTCB K \<and> hush K K' \<and>
     (holder (un q') = holder (un q) \<or> fo = None \<and> is_mutex q \<and> handover r (pxCurrentTCB K) (holder (un q)) (holder (un q'))) \<and>
     (case fo of None \<Rightarrow> lock_state q' Attempt | Some f \<Rightarrow> lock_state q' (point f) \<and> frame_ok K' q' r f \<and> inherit_ok r f q')"

lemma less_diff_pos: "(e :: u32) < n \<Longrightarrow> 0 < n - e"
  by uint_arith

lemma timeout_ticks: "xTaskCheckForTimeOut K to n = (False, to', n') \<Longrightarrow> 0 < n'"
  by (auto simp: xTaskCheckForTimeOut_def Let_def less_diff_pos split: if_splits)

lemma hush_suspendAll: "hush K (vTaskSuspendAll K)"
  by simp

lemma locks_any [simp]:
  "any_queue_ok (q\<lparr>cTxLock := c\<rparr>) = any_queue_ok q" "any_queue_ok (q\<lparr>cRxLock := c\<rparr>) = any_queue_ok q"
  "shape (q\<lparr>cTxLock := c\<rparr>) = shape q" "shape (q\<lparr>cRxLock := c\<rparr>) = shape q"
  by (simp_all add: any_queue_ok_def semaphore_ok_def shape_def)

lemma lock_queue:
  assumes "lock_state q LockQueue"
  shows "prvLockQueue q = q\<lparr>cRxLock := 0, cTxLock := 0\<rparr>"
  using assms by (simp add: lock_state_def held_def prvLockQueue_def Let_def)

lemma able_suspendAll: "able (vTaskSuspendAll K) = able K"
  by (simp add: able_def vTaskSuspendAll_def)

lemma wait_step_good:
  assumes ok: "kernel_ok K" "any_queue_ok q" and f: "frame_ok K q r f" "lock_state q (point f)" "inherit_ok r f q"
    and run: "\<not> suspended_at (point f) \<Longrightarrow> running K"
    and l: "xTasksWaitingToSend q \<noteq> xTasksWaitingToReceive q"
    and p: "point f \<notin> {Attempt, TestQueue, Inherit, PlaceOnList, Expired, Disinherit}"
  shows "returns (wait_step f q K) (\<lambda>(f', q', K'). good r q K (Some f') q' K')"
proof (cases "point f")
  case SuspendAll
  have "running K" using run SuspendAll by simp
  then have "kernel_ok (vTaskSuspendAll K)" "able (vTaskSuspendAll K)" "uxSchedulerSuspended (vTaskSuspendAll K) = 1"
    "0 < uxCurrentNumberOfTasks (vTaskSuspendAll K)" "pxCurrentTCB (vTaskSuspendAll K) = pxCurrentTCB K"
    using vTaskSuspendAll_ok [OF ok(1)] running_able [OF ok(1)]
    by (simp_all add: able_suspendAll) (simp_all add: running_def vTaskSuspendAll_def)
  then show ?thesis using SuspendAll ok f
    by (simp add: wait_step_def good_def frame_ok_def lock_state_def inherit_ok_def)
next
  case LockQueue
  then show ?thesis using ok f lock_queue [of q]
    by (simp add: wait_step_def good_def frame_ok_def lock_state_def inherit_ok_def held_def)
next
  case CheckTimeOut
  obtain e to n where t: "xTaskCheckForTimeOut K (xTimeOut f) (xTicksToWait f) = (e, to, n)" by (metis prod_cases3)
  then show ?thesis using CheckTimeOut ok f timeout_ticks [of K "xTimeOut f" "xTicksToWait f" to n]
    by (cases e) (simp_all add: wait_step_def good_def frame_ok_def lock_state_def inherit_ok_def)
next
  case (UnlockTx a)
  have s: "uxSchedulerSuspended K = 1" "0 < uxCurrentNumberOfTasks K" using f UnlockTx by (simp_all add: frame_ok_def)
  then have "uxSchedulerSuspended K \<noteq> 0" by simp
  from unlock_loop_suspended [OF ok(1) this, of "cTxLock q" "xTasksWaitingToReceive q"]
  obtain K' where k: "unlock_loop (cTxLock q) (xTasksWaitingToReceive q) K = Some K'" "kernel_ok K'"
    "\<And>t. ev K t \<noteq> Some (EventList (xTasksWaitingToReceive q)) \<Longrightarrow> undisturbed t K K'"
    "uxSchedulerSuspended K' = uxSchedulerSuspended K" "pxCurrentTCB K' = pxCurrentTCB K"
    "uxCurrentNumberOfTasks K' = uxCurrentNumberOfTasks K"
    "\<And>t. ucNotifyState (tcbs K t) \<noteq> Waiting \<Longrightarrow> ucNotifyState (tcbs K' t) \<noteq> Waiting"
    by (rule returnsE) blast
  have "hush K K'" using k(7) by (auto simp: hush_def)
  moreover have "ev K' (pxCurrentTCB K) = Some (EventList (xTasksWaitingToSend q))" if "a = Blocked" "is_send r"
  proof -
    have "ev K (pxCurrentTCB K) = Some (EventList (xTasksWaitingToSend q))"
      using f UnlockTx that by (cases r) (simp_all add: frame_ok_def)
    then show ?thesis using k(3) [of "pxCurrentTCB K"] l by (simp add: undisturbed_def)
  qed
  ultimately show ?thesis using UnlockTx k(1,2,4-6) ok f s
    by (cases r) (simp_all add: wait_step_def unlock_tx_def good_def frame_ok_def lock_state_def inherit_ok_def held_def)
next
  case (UnlockRx a)
  have s: "uxSchedulerSuspended K = 1" "0 < uxCurrentNumberOfTasks K" using f UnlockRx by (simp_all add: frame_ok_def)
  then have "uxSchedulerSuspended K \<noteq> 0" by simp
  from unlock_loop_suspended [OF ok(1) this, of "cRxLock q" "xTasksWaitingToSend q"]
  obtain K' where k: "unlock_loop (cRxLock q) (xTasksWaitingToSend q) K = Some K'" "kernel_ok K'"
    "uxSchedulerSuspended K' = uxSchedulerSuspended K" "pxCurrentTCB K' = pxCurrentTCB K"
    "uxCurrentNumberOfTasks K' = uxCurrentNumberOfTasks K"
    "\<And>t. ucNotifyState (tcbs K t) \<noteq> Waiting \<Longrightarrow> ucNotifyState (tcbs K' t) \<noteq> Waiting"
    by (rule returnsE) blast
  have "hush K K'" using k(6) by (auto simp: hush_def)
  then show ?thesis using UnlockRx k(1-5) ok f s
    by (simp add: wait_step_def unlock_rx_def good_def frame_ok_def lock_state_def inherit_ok_def held_def)
next
  case (ResumeAll a)
  have s: "uxSchedulerSuspended K = 1" "0 < uxCurrentNumberOfTasks K" using f ResumeAll by (simp_all add: frame_ok_def)
  from resume_outermost [OF ok(1) s] obtain y K' where k: "xTaskResumeAll K = Some (y, K')" "kernel_ok K'" "pxCurrentTCB K' = pxCurrentTCB K"
    by (auto simp: returns_def)
  have "hush K K'" using silent_resume [OF ok(1)] s k(1) by (simp add: silent_def)
  then show ?thesis using ResumeAll k ok f
    by (simp add: wait_step_def good_def frame_ok_def lock_state_def inherit_ok_def kernel_simps)
qed (use p in auto)


lemma hush_yield_if: "silent K (map_option snd m) \<Longrightarrow> yield_if m = Some K' \<Longrightarrow> hush K K'"
  by (cases m) (auto simp: yield_if_def silent_def)

lemma silent_unblock_one: "silent K (map_option snd (unblock_one e K))"
  using silent_event [of K e] by (simp add: unblock_one_def)

lemma remove_same_task:
  assumes "kernel_ok K" "xTaskRemoveFromEventList e K = Some (sw, K')"
  shows "pxCurrentTCB K' = pxCurrentTCB K"
proof (cases "events K e")
  case (Cons t ts)
  then show ?thesis using assms(2) unfolding xTaskRemoveFromEventList_eq [OF assms(1) Cons] Let_def
    by (auto simp: kernel_simps split: if_splits)
qed (use assms(2) in \<open>simp add: xTaskRemoveFromEventList_def\<close>)

text \<open>Waking a waiter at the end of a successful call.\<close>

lemma wake_good:
  assumes "kernel_ok K"
  shows "returns (yield_if (unblock_one e K)) (\<lambda>K'. kernel_ok K' \<and> pxCurrentTCB K' = pxCurrentTCB K \<and> hush K K')"
proof -
  obtain K' where k: "yield_if (unblock_one e K) = Some K'" "kernel_ok K'"
    using yield_if_ok [OF unblock_one_ok [OF assms]] by (rule returnsE)
  have "hush K K'" by (rule hush_yield_if [OF silent_unblock_one k(1)])
  moreover have "pxCurrentTCB K' = pxCurrentTCB K"
    using k(1) remove_same_task [OF assms, of e]
    by (auto simp: yield_if_def unblock_one_def kernel_simps split: if_splits)
  ultimately show ?thesis using k by simp
qed

lemma note_time_good:
  assumes "kernel_ok K" "any_queue_ok q" "lock_state q Attempt" "inherit_ok r f q" "point f = Attempt"
  shows "good r q K (Some (note_time f K)) q K"
  using assms by (simp add: good_def note_time_def lock_state_def frame_ok_def inherit_ok_def)

text \<open>Sending: to a data queue, to a semaphore, and giving a mutex.\<close>

lemma count_plus1: "uxMessagesWaiting q < uxLength q \<Longrightarrow> uxMessagesWaiting q + 1 \<le> uxLength q"
  by (simp add: inc_le)

lemma disinherit_current:
  assumes ok: "kernel_ok K" and r: "st K h = Some (Ready p)" and d: "xTaskPriorityDisinherit h K = Some (y, K')"
  shows "pxCurrentTCB K' = pxCurrentTCB K"
proof (cases "h = NULL")
  case False
  let ?K = "set_tcb h (\<lambda>c. c\<lparr>uxMutexesHeld := uxMutexesHeld c - 1\<rparr>) K"
  have "disinherited (c\<lparr>xStateContainer := s\<rparr>) = (disinherited c)\<lparr>xStateContainer := s\<rparr>" for c s
    using keeps_place_disinherited by (simp add: keeps_place_def)
  then have "ctl (reprioritise h disinherited ?K) = ctl K" by (simp add: reprioritise_simps(2) set_tcb_ctl)
  from ctl_fields(1) [OF this] show ?thesis
    using d by (auto simp: xTaskPriorityDisinherit_eq [OF ok r False] Let_def kernel_simps split: if_splits)
qed (use d in \<open>simp add: xTaskPriorityDisinherit_def\<close>)

lemma send_copy:
  assumes ok: "kernel_ok K" "any_queue_ok q" and r: "request_ok (Send x p) (pxCurrentTCB K) q" and run: "running K"
    and room: "uxMessagesWaiting q < uxLength q \<or> p = queueOVERWRITE"
  shows "\<exists>y q' K'. prvCopyDataToQueue x p q K = Some (y, q', K') \<and> kernel_ok K' \<and> any_queue_ok q' \<and> control q' = control q \<and>
    pxCurrentTCB K' = pxCurrentTCB K \<and> hush K K' \<and>
    (holder (un q') = holder (un q) \<or> is_mutex q \<and> holder (un q) = pxCurrentTCB K \<and> holder (un q') = NULL)"
proof (cases "uxItemSize q = 0")
  case False
  then have q: "queue_ok q" using ok(2) by (simp add: any_queue_ok_def)
  then obtain k where k: "ring_ok q k" by (auto simp: queue_ok_def)
  have x: "length x = isize q" and o: "p = queueOVERWRITE \<Longrightarrow> uxLength q = 1" using r False by simp_all
  have "\<exists>q'. prvCopyDataToQueue x p q K = Some (False, q', K) \<and> queue_ok q' \<and> control q' = control q"
    using send_back [OF k x, of K] send_front [OF k x, of K] send_overwrite [OF k x, of K] o room
    by (cases p) (auto simp: queue_ok_def)
  then obtain q' where q': "prvCopyDataToQueue x p q K = Some (False, q', K)" "queue_ok q'" "control q' = control q" by blast
  have "uxItemSize q' \<noteq> 0" using control_fields(5) [OF q'(3)] False by simp
  moreover have "holder (un q') = NULL" if "queue_ok q'" for q' using that by (auto simp: queue_ok_def ring_ok_def)
  ultimately have "any_queue_ok q'" "holder (un q') = holder (un q)" using q' q by (simp_all add: any_queue_ok_def)
  then show ?thesis using q' ok(1) hush_refl(1) by blast
next
  case True
  then have s: "semaphore_ok q" and p: "p = queueSEND_TO_BACK" using ok(2) r by (simp_all add: any_queue_ok_def)
  then have n: "uxMessagesWaiting q < uxLength q" using room by simp
  show ?thesis
  proof (cases "is_mutex q")
    case False
    then show ?thesis using True s ok(1) count_plus1 [OF n]
      by (auto simp: prvCopyDataToQueue_def control_def any_queue_ok_def semaphore_ok_def)
  next
    case mutex: True
    then obtain h c where u: "un q = SemaphoreData h c" "uxMessagesWaiting q = 0 \<longleftrightarrow> h \<noteq> NULL" "uxLength q = 1"
      using s by (auto simp: semaphore_ok_def)
    have h: "h = pxCurrentTCB K" using r True mutex u(1) by simp
    then have "\<exists>p. st K h = Some (Ready p)" using run by (simp add: running_def)
    then have "keeps (xTaskPriorityDisinherit h K)" using xTaskPriorityDisinherit_ok [OF ok(1)] by blast
    then obtain y K' where k: "xTaskPriorityDisinherit h K = Some (y, K')" "kernel_ok K'" by (rule returnsE) auto
    have "hush K K'" using silent_priorities(3) [of K h] k(1) by (simp add: silent_def)
    moreover have "pxCurrentTCB K' = pxCurrentTCB K" using disinherit_current [OF ok(1) _ k(1)] run h by (simp add: running_def)
    moreover have "uxMessagesWaiting q = 0" using n u(3) by (simp add: word_less_nat_alt unat_eq_zero)
    ultimately show ?thesis using True mutex u k h
      by (simp add: prvCopyDataToQueue_def control_def any_queue_ok_def semaphore_ok_def)
  qed
qed


lemma finish_waiting: "finish (keep_waiting f q K) = map_option (\<lambda>(f, q, K). (Some f, q, K)) (wait_step f q K)"
  by (cases "wait_step f q K") (auto simp: finish_def keep_waiting_def)

lemma place_good:
  assumes ok: "kernel_ok K" "any_queue_ok q" and f: "frame_ok K q r f" "lock_state q (point f)" "inherit_ok r f q"
    and p: "point f = PlaceOnList" and w: "ucNotifyState (tcbs K (pxCurrentTCB K)) \<noteq> Waiting"
  shows "returns (vTaskPlaceOnEventList (wait_list r q) (xTicksToWait f) K) (\<lambda>K'. good r q K (Some (f\<lparr>point := UnlockTx Blocked\<rparr>)) q K')"
proof -
  let ?t = "pxCurrentTCB K" and ?e = "wait_list r q"
  have a: "able K" "0 < xTicksToWait f" "uxSchedulerSuspended K = 1" "0 < uxCurrentNumberOfTasks K" "deferred r q"
    using f(1) p by (simp_all add: frame_ok_def)
  from vTaskPlaceOnEventList_ok [OF ok(1) a(1,2) w, of ?e]
  obtain K' where k: "vTaskPlaceOnEventList ?e (xTicksToWait f) K = Some K'" "kernel_ok K'" "ctl K' = ctl (insert_event ?e ?t K)"
    "tcbs K' = (tcbs (insert_event ?e ?t K))(?t := asleep (xTicksToWait f) True (insert_event ?e ?t K) (tcbs (insert_event ?e ?t K) ?t))"
    by (auto simp: returns_def put_to_sleep_def kernel_simps)
  note c = ctl_fields [OF k(3)]
  have "ev K' ?t = Some (EventList ?e)" unfolding k(4) by (simp add: asleep_def kernel_simps)
  moreover have "hush K K'" using silent_trans [OF _ silent_sleep, of K "insert_event ?e ?t K"] k(1)
    by (auto simp: vTaskPlaceOnEventList_def silent_def)
  ultimately show ?thesis using k(1,2) c a(3-5) f p ok(2)
    by (simp add: good_def frame_ok_def lock_state_def inherit_ok_def kernel_simps)
qed

text \<open>The steps that only test the queue.\<close>

lemma test_good:
  assumes "kernel_ok K" "any_queue_ok q" "frame_ok K q r f" "lock_state q TestQueue" "inherit_ok r f q" "point f = TestQueue"
    and "p = UnlockTx Retry \<or> (p = PlaceOnList \<or> p = Inherit \<and> r = Take \<and> is_mutex q) \<and> deferred r q"
  shows "good r q K (Some (f\<lparr>point := p\<rparr>)) q K"
  using assms by (auto simp: good_def frame_ok_def lock_state_def inherit_ok_def)

lemma expired_good:
  assumes "kernel_ok K" "any_queue_ok q" "lock_state q Expired" "inherit_ok r f q" "point f = Expired"
    and "p = Attempt \<or> p = Disinherit \<and> xInheritanceOccurred f"
  shows "good r q K (Some (f\<lparr>point := p\<rparr>)) q K" "good r q K None q K"
  using assms by (auto simp: good_def frame_ok_def lock_state_def inherit_ok_def)

lemma lock_state_same:
  assumes "control q' = control q" shows "lock_state q' p = lock_state q p"
  using control_fields [OF assms] by (simp add: lock_state_def)

lemma good_return:
  assumes "kernel_ok K'" "any_queue_ok q'" "control q' = control q" "pxCurrentTCB K' = pxCurrentTCB K" "hush K K'" "lock_state q Attempt"
    and "holder (un q') = holder (un q) \<or> is_mutex q \<and> handover r (pxCurrentTCB K) (holder (un q)) (holder (un q'))"
  shows "good r q K None q' K'"
  unfolding good_def using assms control_shape [OF assms(3)] lock_state_same [OF assms(3)] by simp

lemma call_waits:
  assumes "point f \<notin> {Attempt, TestQueue, Inherit, PlaceOnList, Expired, Disinherit}"
  shows "call_step r f q K = map_option (\<lambda>(f, q, K). (Some f, q, K)) (wait_step f q K)"
proof (cases r)
  case (Send x p)
  have "xQueueGenericSend x p f q K = keep_waiting f q K" using assms by (simp add: xQueueGenericSend_def split: call_point.split)
  then show ?thesis using Send by (simp add: finish_waiting)
next
  case Receive
  have "xQueueReceive f q K = keep_waiting f q K" using assms by (simp add: xQueueReceive_def split: call_point.split)
  then show ?thesis using Receive by (simp add: finish_waiting)
next
  case Take
  have "xQueueSemaphoreTake f q K = keep_waiting f q K" using assms by (simp add: xQueueSemaphoreTake_def split: call_point.split)
  then show ?thesis using Take by (simp add: finish_waiting)
next
  case Peek
  have "xQueuePeek f q K = keep_waiting f q K" using assms by (simp add: xQueuePeek_def split: call_point.split)
  then show ?thesis using Peek by (simp add: finish_waiting)
qed

lemma call_places:
  assumes "point f = PlaceOnList"
  shows "call_step r f q K = map_option (\<lambda>K. (Some (f\<lparr>point := UnlockTx Blocked\<rparr>), q, K)) (vTaskPlaceOnEventList (wait_list r q) (xTicksToWait f) K)"
proof (cases "vTaskPlaceOnEventList (wait_list r q) (xTicksToWait f) K")
  case None
  then show ?thesis using assms
    by (cases r) (simp_all add: finish_def xQueueGenericSend_def xQueueReceive_def xQueueSemaphoreTake_def xQueuePeek_def)
next
  case (Some K')
  then show ?thesis using assms
    by (cases r) (simp_all add: finish_def xQueueGenericSend_def xQueueReceive_def xQueueSemaphoreTake_def xQueuePeek_def)
qed

lemma waiting_good:
  assumes ok: "kernel_ok K" "any_queue_ok q" and f: "frame_ok K q r f" "lock_state q (point f)" "inherit_ok r f q"
    and run: "\<not> suspended_at (point f) \<Longrightarrow> running K" and l: "xTasksWaitingToSend q \<noteq> xTasksWaitingToReceive q"
    and w: "ucNotifyState (tcbs K (pxCurrentTCB K)) \<noteq> Waiting"
    and p: "point f \<notin> {Attempt, TestQueue, Inherit, Expired, Disinherit}"
  shows "returns (call_step r f q K) (\<lambda>(fo, q', K'). good r q K fo q' K')"
proof (cases "point f = PlaceOnList")
  case True
  from place_good [OF ok f True w] show ?thesis unfolding call_places [OF True] by (auto simp: returns_def)
next
  case False
  then have p: "point f \<notin> {Attempt, TestQueue, Inherit, PlaceOnList, Expired, Disinherit}" using p by simp
  from wait_step_good [OF ok f run l p] show ?thesis unfolding call_waits [OF p] by (auto simp: returns_def)
qed

lemma send_good:
  assumes ok: "kernel_ok K" "any_queue_ok q" and r: "request_ok (Send x p) (pxCurrentTCB K) q"
    and f: "frame_ok K q (Send x p) f" "lock_state q (point f)" "inherit_ok (Send x p) f q"
    and run: "\<not> suspended_at (point f) \<Longrightarrow> running K" and l: "xTasksWaitingToSend q \<noteq> xTasksWaitingToReceive q"
    and w: "ucNotifyState (tcbs K (pxCurrentTCB K)) \<noteq> Waiting"
  shows "returns (call_step (Send x p) f q K) (\<lambda>(fo, q', K'). good (Send x p) q K fo q' K')"
proof -
  consider "point f = Attempt" | "point f = TestQueue" | "point f = Expired" | "point f \<notin> {Attempt, TestQueue, Inherit, Expired, Disinherit}"
    using f(3) by (auto simp: inherit_ok_def)
  then show ?thesis
  proof cases
    case 1
    then have run: "running K" and lk: "lock_state q Attempt" using run f(2) by simp_all
    show ?thesis
    proof (cases "uxMessagesWaiting q < uxLength q \<or> p = queueOVERWRITE")
      case True
      from send_copy [OF ok r run True] obtain y q' K' where k: "prvCopyDataToQueue x p q K = Some (y, q', K')" "kernel_ok K'"
        "any_queue_ok q'" "control q' = control q" "pxCurrentTCB K' = pxCurrentTCB K" "hush K K'"
        and h: "holder (un q') = holder (un q) \<or> is_mutex q \<and> holder (un q) = pxCurrentTCB K \<and> holder (un q') = NULL" by blast
      let ?m = "if events K' (xTasksWaitingToReceive q') \<noteq> [] then yield_if (xTaskRemoveFromEventList (xTasksWaitingToReceive q') K')
        else Some (if y then taskYIELD K' else K')"
      have "returns ?m (\<lambda>K2. kernel_ok K2 \<and> pxCurrentTCB K2 = pxCurrentTCB K' \<and> hush K' K2)"
        using wake_good [OF k(2), of "xTasksWaitingToReceive q'"] k(2)
        by (cases "events K' (xTasksWaitingToReceive q') = []") (simp_all add: unblock_one_def kernel_simps)
      then obtain K2 where k2: "?m = Some K2" "kernel_ok K2" "pxCurrentTCB K2 = pxCurrentTCB K'" "hush K' K2" by (rule returnsE) blast
      have e: "call_step (Send x p) f q K = Some (None, q', K2)"
        using 1 True k(1) k2(1) unfolding call_step.simps xQueueGenericSend_def finish_def by simp
      have "good (Send x p) q K None q' K2"
        using h by (intro good_return k2(2) k(3,4) trans [OF k2(3) k(5)] hush_trans [OF k(6) k2(4)] lk) auto
      then show ?thesis unfolding e by simp
    next
      case False
      have "good (Send x p) q K None q K" using ok lk by (simp add: good_def)
      then show ?thesis using 1 False note_time_good [OF ok lk f(3) 1] by (simp add: xQueueGenericSend_def finish_def)
    qed
  next
    case 2
    have "deferred (Send x p) q" if "prvIsQueueFull q" using that by (simp add: prvIsQueueFull_def)
    then show ?thesis using 2 f by (auto simp: xQueueGenericSend_def finish_def intro!: test_good [OF ok])
  next
    case 3
    then show ?thesis using f expired_good(2) [OF ok _ f(3) 3, of Attempt] by (simp add: xQueueGenericSend_def finish_def)
  next
    case 4
    show ?thesis by (rule waiting_good [OF ok f run l w 4])
  qed
qed

lemma ring_no_holder: "queue_ok q \<Longrightarrow> holder (un q) = NULL"
  by (auto simp: queue_ok_def ring_ok_def)

lemma receive_good:
  assumes ok: "kernel_ok K" "any_queue_ok q" and r: "request_ok Receive (pxCurrentTCB K) q"
    and f: "frame_ok K q Receive f" "lock_state q (point f)" "inherit_ok Receive f q"
    and run: "\<not> suspended_at (point f) \<Longrightarrow> running K" and l: "xTasksWaitingToSend q \<noteq> xTasksWaitingToReceive q"
    and w: "ucNotifyState (tcbs K (pxCurrentTCB K)) \<noteq> Waiting"
  shows "returns (call_step Receive f q K) (\<lambda>(fo, q', K'). good Receive q K fo q' K')"
proof -
  have q: "queue_ok q" using ok(2) r by (simp add: any_queue_ok_def)
  consider "point f = Attempt" | "point f = TestQueue" | "point f = Expired" | "point f \<notin> {Attempt, TestQueue, Inherit, Expired, Disinherit}"
    using f(3) by (auto simp: inherit_ok_def)
  then show ?thesis
  proof cases
    case 1
    then have lk: "lock_state q Attempt" using f(2) by simp
    show ?thesis
    proof (cases "0 < uxMessagesWaiting q")
      case True
      obtain k where "ring_ok q k" using q by (auto simp: queue_ok_def)
      from receive_item [OF this True] obtain q1 where q1: "prvCopyDataFromQueue q = Some (hd (contents q), q1)" "control q1 = control q"
        "queue_ok (q1\<lparr>uxMessagesWaiting := uxMessagesWaiting q - 1\<rparr>)" by blast
      let ?q = "q1\<lparr>uxMessagesWaiting := uxMessagesWaiting q - 1\<rparr>"
      have c: "control ?q = control q" using q1(2) by (simp add: control_def)
      from wake_good [OF ok(1), of "xTasksWaitingToSend q"] obtain K' where k: "yield_if (unblock_one (xTasksWaitingToSend q) K) = Some K'"
        "kernel_ok K'" "pxCurrentTCB K' = pxCurrentTCB K" "hush K K'" by (rule returnsE) blast
      have e: "call_step Receive f q K = Some (None, ?q, K')"
        using 1 True q1(1) k(1) control_fields(2) [OF q1(2)] unfolding call_step.simps xQueueReceive_def finish_def by simp
      have "any_queue_ok ?q" using q1(3) r control_fields(5) [OF c] by (simp add: any_queue_ok_def)
      moreover have "holder (un ?q) = holder (un q)" using ring_no_holder [OF q] ring_no_holder [OF q1(3)] by simp
      ultimately have "good Receive q K None ?q K'" by (intro good_return k c lk disjI1)
      then show ?thesis unfolding e by simp
    next
      case False
      have "good Receive q K None q K" using ok lk by (simp add: good_def)
      then show ?thesis using 1 False note_time_good [OF ok lk f(3) 1] by (simp add: xQueueReceive_def finish_def)
    qed
  next
    case 2
    have "deferred Receive q" if "prvIsQueueEmpty q" using that by (simp add: prvIsQueueEmpty_def)
    then show ?thesis using 2 f by (auto simp: xQueueReceive_def finish_def intro!: test_good [OF ok])
  next
    case 3
    then show ?thesis using f expired_good [OF ok _ f(3) 3, of Attempt] by (simp add: xQueueReceive_def finish_def)
  next
    case 4
    show ?thesis by (rule waiting_good [OF ok f run l w 4])
  qed
qed

lemma peek_good:
  assumes ok: "kernel_ok K" "any_queue_ok q" and r: "request_ok Peek (pxCurrentTCB K) q"
    and f: "frame_ok K q Peek f" "lock_state q (point f)" "inherit_ok Peek f q"
    and run: "\<not> suspended_at (point f) \<Longrightarrow> running K" and l: "xTasksWaitingToSend q \<noteq> xTasksWaitingToReceive q"
    and w: "ucNotifyState (tcbs K (pxCurrentTCB K)) \<noteq> Waiting"
  shows "returns (call_step Peek f q K) (\<lambda>(fo, q', K'). good Peek q K fo q' K')"
proof -
  have q: "queue_ok q" using ok(2) r by (simp add: any_queue_ok_def)
  consider "point f = Attempt" | "point f = TestQueue" | "point f = Expired" | "point f \<notin> {Attempt, TestQueue, Inherit, Expired, Disinherit}"
    using f(3) by (auto simp: inherit_ok_def)
  then show ?thesis
  proof cases
    case 1
    then have lk: "lock_state q Attempt" using f(2) by simp
    show ?thesis
    proof (cases "0 < uxMessagesWaiting q")
      case True
      obtain k where k: "ring_ok q k" using q by (auto simp: queue_ok_def)
      then have u: "un q = QueuePointers (slot_addr q (capacity q)) (slot_addr q k)" by (simp add: ring_ok_def)
      have same: "q\<lparr>un := QueuePointers (slot_addr q (capacity q)) (slot_addr q k)\<rparr> = q" by (simp flip: u)
      from wake_good [OF ok(1), of "xTasksWaitingToReceive q"] obtain K' where k': "yield_if (unblock_one (xTasksWaitingToReceive q) K) = Some K'"
        "kernel_ok K'" "pxCurrentTCB K' = pxCurrentTCB K" "hush K K'" by (rule returnsE) blast
      have "call_step Peek f q K = Some (None, q, K')"
        using 1 True copy_from(1) [OF k True] k'(1) unfolding call_step.simps xQueuePeek_def finish_def by (simp add: u same)
      then show ?thesis using k' ok(2) lk by (simp add: good_def)
    next
      case False
      have "good Peek q K None q K" using ok lk by (simp add: good_def)
      then show ?thesis using 1 False note_time_good [OF ok lk f(3) 1] by (simp add: xQueuePeek_def finish_def)
    qed
  next
    case 2
    have "deferred Peek q" if "prvIsQueueEmpty q" using that by (simp add: prvIsQueueEmpty_def)
    then show ?thesis using 2 f by (auto simp: xQueuePeek_def finish_def intro!: test_good [OF ok])
  next
    case 3
    then show ?thesis using f expired_good [OF ok _ f(3) 3, of Attempt] by (simp add: xQueuePeek_def finish_def)
  next
    case 4
    show ?thesis by (rule waiting_good [OF ok f run l w 4])
  qed
qed

text \<open>Inheriting: the running task itself stays as it is.\<close>

lemma inherit_current:
  assumes ok: "kernel_ok K"
  shows "returns (xTaskPriorityInherit h K) (\<lambda>(y, K'). kernel_ok K' \<and> ctl K' = ctl K \<and> tcbs K' (pxCurrentTCB K) = tcbs K (pxCurrentTCB K) \<and> hush K K')"
proof -
  let ?t = "pxCurrentTCB K"
  obtain y K' where k: "xTaskPriorityInherit h K = Some (y, K')" "kernel_ok K'"
    using xTaskPriorityInherit_ok [OF ok, of h] by (auto elim: returnsE)
  have u: "hush K K'" using silent_priorities(2) [of K h] k(1) by (simp add: silent_def)
  have "ctl K' = ctl K \<and> tcbs K' ?t = tcbs K ?t"
  proof (cases "h \<noteq> NULL \<and> prio K h < prio K ?t")
    case True
    then have n: "h \<noteq> ?t" by auto
    show ?thesis
    proof (cases "\<exists>p. st K h = Some (Ready p)")
      case r: True
      then obtain p where r: "st K h = Some (Ready p)" by blast
      have e: "K' = reprioritise h (\<lambda>c. c\<lparr>uxPriority := prio K ?t\<rparr>) (set_tcb h (event_priority (prio K ?t)) K)"
        using k(1) xTaskPriorityInherit_eq [OF ok r] True by simp
      show ?thesis unfolding e using n by (simp add: reprioritise_simps set_tcb_simps set_tcb_ctl)
    next
      case False
      then have e: "K' = set_tcb h (\<lambda>b. b\<lparr>uxPriority := prio K ?t\<rparr>) (set_tcb h (event_priority (prio K ?t)) K)"
        using k(1) True by (simp add: xTaskPriorityInherit_def Let_def set_event_priority_eq kernel_simps)
      show ?thesis unfolding e using n by (simp add: set_tcb_simps set_tcb_ctl)
    qed
  next
    case False
    then show ?thesis using k(1) by (auto simp: xTaskPriorityInherit_def Let_def split: if_splits)
  qed
  then show ?thesis using k u by simp
qed

lemma set_tcb_current: "pxCurrentTCB (set_tcb t f K) = pxCurrentTCB K"
  by (rule ctl_fields(1) [OF set_tcb_ctl])

lemma disinherit_timeout_current:
  assumes ok: "kernel_ok K" and k: "vTaskPriorityDisinheritAfterTimeout h w K = Some K'"
  shows "pxCurrentTCB K' = pxCurrentTCB K"
proof (cases "h \<noteq> NULL \<and> prio K h \<noteq> max (uxBasePriority (tcbs K h)) w \<and> uxMutexesHeld (tcbs K h) = 1")
  case go: True
  show ?thesis
  proof (cases "\<exists>p. st K h = Some (Ready p)")
    case True
    then obtain p where "st K h = Some (Ready p)" by blast
    define q where "q = max (uxBasePriority (tcbs K h)) w"
    define U where "U = set_tcb h (\<lambda>c. event_priority q (c\<lparr>uxPriority := q\<rparr>)) (detach h K)"
    have e: "K' = prvAddTaskToReadyList h (if items (ready (detach h K) (prio K h)) = [] then taskRESET_READY_PRIORITY q U else U)"
      using disinherit_timeout_eq [OF ok \<open>st K h = Some (Ready p)\<close>, of w] go k unfolding U_def q_def by simp
    have "ctl (detach h K) = ctl K"
      by (cases "st K h"; cases "the (st K h)") (simp_all add: detach_def ctl_def set_tcb_def)
    then have u: "ctl U = ctl K" by (simp add: U_def kernel_simps)
    have "ctl (taskRESET_READY_PRIORITY q U) = ctl U"
      by (simp add: taskRESET_READY_PRIORITY_def portRESET_READY_PRIORITY_def ctl_def)
    then have "ctl K' = ctl K" unfolding e by (simp add: kernel_simps u)
    then show ?thesis by (rule ctl_fields(1))
  next
    case False
    then show ?thesis using k go
      by (auto simp: vTaskPriorityDisinheritAfterTimeout_def Let_def set_event_priority_eq set_tcb_twice kernel_simps set_tcb_current)
  qed
next
  case False
  then show ?thesis using k by (auto simp: vTaskPriorityDisinheritAfterTimeout_def Let_def)
qed

text \<open>
  Taking back an inherited priority after a timeout may clear the wrong bit (\<open>timeout_leaves_stale_bit\<close>);
  it does not when another task is ready at the holder's priority.
\<close>

fun hazard_free :: "request \<Rightarrow> call_frame \<Rightarrow> queue \<Rightarrow> kernel \<Rightarrow> bool" where
  "hazard_free Take f q K = (point f = Disinherit \<longrightarrow> prvGetDisinheritPriorityAfterTimeout q K < configMAX_PRIORITIES \<and>
     (\<forall>p. st K (holder (un q)) = Some (Ready p) \<longrightarrow> (\<exists>u. u \<noteq> holder (un q) \<and> st K u = Some (Ready p))))"
| "hazard_free _ f q K = True"

lemma take_good:
  assumes ok: "kernel_ok K" "any_queue_ok q" and r: "request_ok Take (pxCurrentTCB K) q"
    and f: "frame_ok K q Take f" "lock_state q (point f)" "inherit_ok Take f q"
    and run: "\<not> suspended_at (point f) \<Longrightarrow> running K" and l: "xTasksWaitingToSend q \<noteq> xTasksWaitingToReceive q"
    and w: "ucNotifyState (tcbs K (pxCurrentTCB K)) \<noteq> Waiting" and z: "hazard_free Take f q K"
  shows "returns (call_step Take f q K) (\<lambda>(fo, q', K'). good Take q K fo q' K')"
proof -
  have s: "semaphore_ok q" "uxItemSize q = 0" using ok(2) r by (simp_all add: any_queue_ok_def)
  consider "point f = Attempt" | "point f = TestQueue" | "point f = Inherit" | "point f = Expired" | "point f = Disinherit"
    | "point f \<notin> {Attempt, TestQueue, Inherit, Expired, Disinherit}" by auto
  then show ?thesis
  proof cases
    case 1
    then have run: "running K" and lk: "lock_state q Attempt" using run f(2) by simp_all
    then have t: "pxCurrentTCB K \<noteq> NULL"
      using tasks_okD(3) [OF core_okD(2) [OF kernel_okD(1) [OF ok(1)]]] by (auto simp: running_def)
    show ?thesis
    proof (cases "0 < uxMessagesWaiting q")
      case True
      let ?n = "uxMessagesWaiting q - 1"
      have n: "?n \<le> uxLength q" using s(1) True by (simp add: semaphore_ok_def) uint_arith
      define m where "m = (if is_mutex q
        then do { (_, c) \<leftarrow> semaphore_data (un q); let (h, K) = pvTaskIncrementMutexHeldCount K;
          Some (q\<lparr>uxMessagesWaiting := ?n, un := SemaphoreData h c\<rparr>, K) }
        else Some (q\<lparr>uxMessagesWaiting := ?n\<rparr>, K))"
      have "\<exists>q' K'. m = Some (q', K') \<and> any_queue_ok q' \<and> control q' = control q \<and> kernel_ok K' \<and>
        pxCurrentTCB K' = pxCurrentTCB K \<and> hush K K' \<and> (holder (un q') = holder (un q) \<or> is_mutex q \<and> holder (un q) = NULL \<and> holder (un q') = pxCurrentTCB K)"
      proof (cases "is_mutex q")
        case False
        then show ?thesis using s n ok(1) by (simp add: m_def any_queue_ok_def semaphore_ok_def control_def)
      next
        case mutex: True
        then obtain h c where u: "un q = SemaphoreData h c" "uxMessagesWaiting q = 0 \<longleftrightarrow> h \<noteq> NULL" "uxLength q = 1"
          using s(1) by (auto simp: semaphore_ok_def)
        have m1: "uxMessagesWaiting q = 1" using s(1) u(3) True by (simp add: semaphore_ok_def) uint_arith
        let ?K = "snd (pvTaskIncrementMutexHeldCount K)"
        have k: "pvTaskIncrementMutexHeldCount K = (pxCurrentTCB K, ?K)" "pxCurrentTCB ?K = pxCurrentTCB K" "hush K ?K"
          by (simp_all add: pvTaskIncrementMutexHeldCount_def Let_def set_tcb_current hush_set_tcb)
        have "m = Some (q\<lparr>uxMessagesWaiting := ?n, un := SemaphoreData (pxCurrentTCB K) c\<rparr>, ?K)"
          unfolding m_def if_P [OF mutex] u(1) semaphore_data.simps bind.bind_lunit prod.case Let_def by (subst k(1)) simp
        then show ?thesis using mutex s u m1 t k(2,3) pvTaskIncrementMutexHeldCount_ok [OF ok(1)]
          by (simp add: any_queue_ok_def semaphore_ok_def control_def)
      qed
      then obtain q' K' where k: "m = Some (q', K')" "any_queue_ok q'" "control q' = control q" "kernel_ok K'"
        "pxCurrentTCB K' = pxCurrentTCB K" "hush K K'" and h: "holder (un q') = holder (un q) \<or> is_mutex q \<and> holder (un q) = NULL \<and> holder (un q') = pxCurrentTCB K" by blast
      from wake_good [OF k(4), of "xTasksWaitingToSend q'"] obtain K2 where k2: "yield_if (unblock_one (xTasksWaitingToSend q') K') = Some K2"
        "kernel_ok K2" "pxCurrentTCB K2 = pxCurrentTCB K'" "hush K' K2" by (rule returnsE) blast
      have "xQueueSemaphoreTake f q K = do { (q, K) \<leftarrow> m; K \<leftarrow> yield_if (unblock_one (xTasksWaitingToSend q) K); Some (Return True, q, K) }"
        using 1 True unfolding xQueueSemaphoreTake_def m_def by (simp add: Let_def)
      then have e: "call_step Take f q K = Some (None, q', K2)" using k(1) k2(1) by (simp add: finish_def)
      have "good Take q K None q' K2"
        using h by (intro good_return k2(2) k(2,3) trans [OF k2(3) k(5)] hush_trans [OF k(6) k2(4)] lk) auto
      then show ?thesis unfolding e by simp
    next
      case False
      have "good Take q K None q K" using ok lk by (simp add: good_def)
      then show ?thesis using 1 False note_time_good [OF ok lk f(3) 1] by (simp add: xQueueSemaphoreTake_def finish_def)
    qed
  next
    case 2
    have "deferred Take q" if "prvIsQueueEmpty q" using that by (simp add: prvIsQueueEmpty_def)
    then show ?thesis using 2 f by (auto simp: xQueueSemaphoreTake_def finish_def intro!: test_good [OF ok])
  next
    case 3
    then have "is_mutex q" using f(3) by (simp add: inherit_ok_def)
    then obtain h c where u: "un q = SemaphoreData h c" using s(1) by (auto simp: semaphore_ok_def)
    from inherit_current [OF ok(1), of h] obtain y K' where k: "xTaskPriorityInherit h K = Some (y, K')" "kernel_ok K'"
      "ctl K' = ctl K" "tcbs K' (pxCurrentTCB K) = tcbs K (pxCurrentTCB K)" "hush K K'" by (auto elim: returnsE)
    note c = ctl_fields [OF k(3)]
    have "able K' = able K" using k(4) c(1) by (simp add: able_def)
    then have "good Take q K (Some (f\<lparr>point := PlaceOnList, xInheritanceOccurred := y\<rparr>)) q K'"
      using k(2,5) c f 3 ok(2) \<open>is_mutex q\<close> by (simp add: good_def frame_ok_def lock_state_def inherit_ok_def)
    then show ?thesis using 3 u k(1) by (simp add: xQueueSemaphoreTake_def finish_def)
  next
    case 4
    then show ?thesis using f expired_good [OF ok _ f(3) 4] by (simp add: xQueueSemaphoreTake_def finish_def)
  next
    case 5
    then have "is_mutex q" using f(3) by (simp add: inherit_ok_def)
    then obtain h c where u: "un q = SemaphoreData h c" using s(1) by (auto simp: semaphore_ok_def)
    let ?w = "prvGetDisinheritPriorityAfterTimeout q K"
    have "returns (vTaskPriorityDisinheritAfterTimeout h ?w K) kernel_ok"
      using z 5 u by (intro vTaskPriorityDisinheritAfterTimeout_ok [OF ok(1)]) simp_all
    then obtain K' where k: "vTaskPriorityDisinheritAfterTimeout h ?w K = Some K'" "kernel_ok K'" by (rule returnsE)
    have "hush K K'" using silent_priorities(4) [of K h ?w] k(1) by (simp add: silent_def)
    then have "good Take q K None q K'" using k(2) disinherit_timeout_current [OF ok(1) k(1)] ok(2) f(2) 5
      by (simp add: good_def lock_state_def)
    then show ?thesis using 5 u k(1) by (simp add: xQueueSemaphoreTake_def finish_def)
  next
    case 6
    show ?thesis by (rule waiting_good [OF ok f run l w 6])
  qed
qed

lemma call_step_good:
  assumes "kernel_ok K" "any_queue_ok q" "request_ok r (pxCurrentTCB K) q"
    and "frame_ok K q r f" "lock_state q (point f)" "inherit_ok r f q"
    and "\<not> suspended_at (point f) \<Longrightarrow> running K" "xTasksWaitingToSend q \<noteq> xTasksWaitingToReceive q"
    and "ucNotifyState (tcbs K (pxCurrentTCB K)) \<noteq> Waiting" "hazard_free r f q K"
  shows "returns (call_step r f q K) (\<lambda>(fo, q', K'). good r q K fo q' K')"
proof (cases r)
  case (Send x p) show ?thesis using assms unfolding Send by (intro send_good)
next
  case Receive show ?thesis using assms unfolding Receive by (intro receive_good)
next
  case Take show ?thesis using assms unfolding Take by (intro take_good)
next
  case Peek show ?thesis using assms unfolding Peek by (intro peek_good)
qed

section \<open>Queue calls from interrupts\<close>

datatype isr_call = IsrSend bytes copy_position | IsrGive | IsrReceive

fun isr_step :: "isr_call \<Rightarrow> queue \<Rightarrow> kernel \<Rightarrow> (queue \<times> kernel) option" where
  "isr_step (IsrSend x p) q K = map_option (\<lambda>(_, _, s). s) (xQueueGenericSendFromISR x p q K)"
| "isr_step IsrGive q K = map_option (\<lambda>(_, _, s). s) (xQueueGiveFromISR q K)"
| "isr_step IsrReceive q K = map_option (\<lambda>(_, _, s). s) (xQueueReceiveFromISR q K)"

text \<open>
  What the documentation asks of the caller, and one condition it does not state: a lock count must not
  overflow, that is, no more than 127 such calls may fall into the time a task keeps the queue locked.
\<close>

fun isr_allowed :: "isr_call \<Rightarrow> queue \<Rightarrow> bool" where
  "isr_allowed (IsrSend x p) q = (uxItemSize q \<noteq> 0 \<and> length x = isize q \<and> (p = queueOVERWRITE \<longrightarrow> uxLength q = 1) \<and> cTxLock q \<noteq> 127)"
| "isr_allowed IsrGive q = (uxItemSize q = 0 \<and> \<not> is_mutex q \<and> cTxLock q \<noteq> 127)"
| "isr_allowed IsrReceive q = (\<not> is_mutex q \<and> cRxLock q \<noteq> 127)"

lemma isr_wake:
  assumes "kernel_ok K"
  shows "returns (if l = queueUNLOCKED then map_option snd (unblock_one e K) else Some K) (\<lambda>K'. kernel_ok K' \<and> hush K K' \<and>
    pxCurrentTCB K' = pxCurrentTCB K \<and>
    (uxSchedulerSuspended K \<noteq> 0 \<longrightarrow> (\<forall>t. (l = queueUNLOCKED \<longrightarrow> ev K t \<noteq> Some (EventList e)) \<longrightarrow> undisturbed t K K')))"
proof (cases "l = queueUNLOCKED")
  case True
  obtain sw K' where k: "unblock_one e K = Some (sw, K')" "kernel_ok K'" using unblock_one_ok [OF assms, of e] by (auto elim: returnsE)
  have "hush K K'" using silent_unblock_one [of K e] k(1) by (simp add: silent_def)
  moreover have "pxCurrentTCB K' = pxCurrentTCB K"
    using k(1) remove_same_task [OF assms, of e] by (auto simp: unblock_one_def split: if_splits)
  moreover have "\<forall>t. ev K t \<noteq> Some (EventList e) \<longrightarrow> undisturbed t K K'" if "uxSchedulerSuspended K \<noteq> 0"
    using unblock_one_suspended [OF assms that, of e] k(1) by (simp add: returns_def)
  ultimately show ?thesis using True k by simp
qed (use assms in simp)

definition puts :: "queue \<Rightarrow> queue \<Rightarrow> bool" where
  "puts q q' \<longleftrightarrow> fill q \<le> fill q' \<and> fill q' \<le> capacity q \<and> fill q' \<le> fill q + 1"

lemma isr_put_copy:
  assumes ok: "any_queue_ok q" "kernel_ok K" and c: "isr_allowed c q" "c \<noteq> IsrReceive"
  obtains "isr_step c q K = Some (q, K)" | q' where "any_queue_ok q'" "control q' = control q" "holder (un q') = holder (un q)" "puts q q'"
    "isr_step c q K = map_option (Pair (if cTxLock q = queueUNLOCKED then q' else q'\<lparr>cTxLock := cTxLock q + 1\<rparr>))
       (if cTxLock q = queueUNLOCKED then map_option snd (unblock_one (xTasksWaitingToReceive q) K) else Some K)"
proof (cases c)
  case (IsrSend x p)
  then have q: "queue_ok q" and x: "length x = isize q" and p: "p = queueOVERWRITE \<Longrightarrow> uxLength q = 1" and s: "uxItemSize q \<noteq> 0"
    using ok(1) c by (simp_all add: any_queue_ok_def)
  obtain k where k: "ring_ok q k" using q by (auto simp: queue_ok_def)
  have f: "fill q \<le> capacity q" using k by (simp add: ring_ok_def)
  show ?thesis
  proof (cases "uxMessagesWaiting q < uxLength q \<or> p = queueOVERWRITE")
    case True
    have "\<exists>q'. prvCopyDataToQueue x p q K = Some (False, q', K) \<and> queue_ok q' \<and> control q' = control q \<and> puts q q'"
    proof (cases p)
      case queueSEND_TO_BACK
      then obtain q' where q': "prvCopyDataToQueue x p q K = Some (False, q', K)" "ring_ok q' k" "control q' = control q" "contents q' = contents q @ [x]"
        using send_back [OF k x, of K] True by auto
      have "puts q q'" using arg_cong [OF q'(4), of length] True queueSEND_TO_BACK by (simp add: puts_def word_less_nat_alt)
      then show ?thesis using q' by (auto simp: queue_ok_def)
    next
      case queueSEND_TO_FRONT
      then obtain q' where q': "prvCopyDataToQueue x p q K = Some (False, q', K)" "queue_ok q'" "control q' = control q" "contents q' = x # contents q"
        using send_front [OF k x, of K] True by auto
      have "puts q q'" using arg_cong [OF q'(4), of length] True queueSEND_TO_FRONT by (simp add: puts_def word_less_nat_alt)
      then show ?thesis using q' by blast
    next
      case queueOVERWRITE
      then have l: "uxLength q = 1" using p by simp
      then obtain q' where q': "prvCopyDataToQueue x p q K = Some (False, q', K)" "queue_ok q'" "control q' = control q" "contents q' = [x]"
        using send_overwrite [OF k x, of K] queueOVERWRITE by auto
      have "puts q q'" using arg_cong [OF q'(4), of length] f l by (simp add: puts_def)
      then show ?thesis using q' by blast
    qed
    then obtain q' where q': "prvCopyDataToQueue x p q K = Some (False, q', K)" "queue_ok q'" "control q' = control q" "puts q q'" by blast
    have "any_queue_ok q'" "holder (un q') = holder (un q)"
      using q'(2) s control_fields(5) [OF q'(3)] ring_no_holder [OF q'(2)] ring_no_holder [OF q] by (simp_all add: any_queue_ok_def)
    moreover have "isr_step c q K = map_option (Pair (if cTxLock q = queueUNLOCKED then q' else q'\<lparr>cTxLock := cTxLock q + 1\<rparr>))
       (if cTxLock q = queueUNLOCKED then map_option snd (unblock_one (xTasksWaitingToReceive q) K) else Some K)"
      unfolding IsrSend isr_step.simps xQueueGenericSendFromISR_def Let_def if_P [OF True] q'(1) bind.bind_lunit prod.case
      unfolding control_fields(3) [OF q'(3)]
      by (cases "cTxLock q = queueUNLOCKED"; cases "unblock_one (xTasksWaitingToReceive q) K") (simp_all add: case_prod_unfold)
    ultimately show ?thesis using that(2) [of q'] q'(3,4) by simp
  next
    case False
    then show ?thesis using that IsrSend by (simp add: xQueueGenericSendFromISR_def)
  qed
next
  case IsrGive
  then have s: "semaphore_ok q" "\<not> is_mutex q" "uxItemSize q = 0" using ok(1) c by (simp_all add: any_queue_ok_def)
  show ?thesis
  proof (cases "uxMessagesWaiting q < uxLength q")
    case True
    let ?q = "q\<lparr>uxMessagesWaiting := uxMessagesWaiting q + 1\<rparr>"
    have "any_queue_ok ?q" using s count_plus1 [OF True] by (simp add: any_queue_ok_def semaphore_ok_def)
    moreover have "control ?q = control q" by (simp add: control_def)
    moreover have "unat (uxMessagesWaiting q + 1) = Suc (unat (uxMessagesWaiting q))" using True by (rule unat_plus1)
    then have "puts q ?q" using True by (simp add: puts_def word_less_nat_alt)
    moreover have "isr_step c q K = map_option (Pair (if cTxLock q = queueUNLOCKED then ?q else ?q\<lparr>cTxLock := cTxLock q + 1\<rparr>))
       (if cTxLock q = queueUNLOCKED then map_option snd (unblock_one (xTasksWaitingToReceive q) K) else Some K)"
      unfolding IsrGive isr_step.simps xQueueGiveFromISR_def Let_def if_P [OF True]
      by (cases "cTxLock q = queueUNLOCKED"; cases "unblock_one (xTasksWaitingToReceive q) K") (simp_all add: case_prod_unfold)
    ultimately show ?thesis by (intro that(2) [of ?q]) simp_all
  next
    case False
    then show ?thesis using that IsrGive by (simp add: xQueueGiveFromISR_def)
  qed
qed (use c in simp)

lemma isr_get_copy:
  assumes ok: "any_queue_ok q" "kernel_ok K" and c: "isr_allowed IsrReceive q"
  obtains "isr_step IsrReceive q K = Some (q, K)" | q' where "any_queue_ok q'" "control q' = control q" "holder (un q') = holder (un q)"
    "fill q = Suc (fill q')" "fill q \<le> capacity q"
    "isr_step IsrReceive q K = map_option (Pair (if cRxLock q = queueUNLOCKED then q' else q'\<lparr>cRxLock := cRxLock q + 1\<rparr>))
       (if cRxLock q = queueUNLOCKED then map_option snd (unblock_one (xTasksWaitingToSend q) K) else Some K)"
proof (cases "0 < uxMessagesWaiting q")
  case True
  have f: "fill q = Suc (unat (uxMessagesWaiting q - 1))" using True by (simp add: unat_minus1 word_less_nat_alt)
  have "\<exists>q1 xs. prvCopyDataFromQueue q = Some (xs, q1) \<and> control q1 = control q \<and> any_queue_ok (q1\<lparr>uxMessagesWaiting := uxMessagesWaiting q - 1\<rparr>) \<and>
    holder (un q1) = holder (un q) \<and> fill q \<le> capacity q"
  proof (cases "uxItemSize q = 0")
    case z: True
    then have "prvCopyDataFromQueue q = Some ([], q)" by (simp add: prvCopyDataFromQueue_def)
    moreover have "uxMessagesWaiting q - 1 \<le> uxLength q" "fill q \<le> capacity q"
      using ok(1) z True f by (simp_all add: any_queue_ok_def semaphore_ok_def word_le_nat_alt)
    ultimately show ?thesis using z ok(1) c by (simp add: any_queue_ok_def semaphore_ok_def)
  next
    case False
    then have q: "queue_ok q" using ok(1) by (simp add: any_queue_ok_def)
    then obtain k where k: "ring_ok q k" by (auto simp: queue_ok_def)
    from receive_item [OF this True] obtain q1 where q1: "prvCopyDataFromQueue q = Some (hd (contents q), q1)" "control q1 = control q"
      "queue_ok (q1\<lparr>uxMessagesWaiting := uxMessagesWaiting q - 1\<rparr>)" by blast
    have "fill q \<le> capacity q" using k by (simp add: ring_ok_def)
    then show ?thesis using q1 False control_fields(5) [OF q1(2)] ring_no_holder [OF q] ring_no_holder [OF q1(3)]
      by (auto simp: any_queue_ok_def)
  qed
  then obtain q1 xs where q1: "prvCopyDataFromQueue q = Some (xs, q1)" "control q1 = control q" "holder (un q1) = holder (un q)"
    "any_queue_ok (q1\<lparr>uxMessagesWaiting := uxMessagesWaiting q - 1\<rparr>)" "fill q \<le> capacity q" by blast
  let ?q = "q1\<lparr>uxMessagesWaiting := uxMessagesWaiting q - 1\<rparr>"
  have "control ?q = control q" using q1(2) by (simp add: control_def)
  moreover have "isr_step IsrReceive q K = map_option (Pair (if cRxLock q = queueUNLOCKED then ?q else ?q\<lparr>cRxLock := cRxLock q + 1\<rparr>))
     (if cRxLock q = queueUNLOCKED then map_option snd (unblock_one (xTasksWaitingToSend q) K) else Some K)"
    unfolding isr_step.simps xQueueReceiveFromISR_def Let_def if_P [OF True] q1(1) bind.bind_lunit prod.case
    by (cases "unblock_one (xTasksWaitingToSend q) K") (auto simp: control_fields(2) [OF q1(2)])
  ultimately show ?thesis using that(2) [of ?q] q1 f by simp
next
  case False
  then show ?thesis using that by (simp add: xQueueReceiveFromISR_def)
qed

lemma plus1_count: "(c :: 8 word) \<noteq> 127 \<Longrightarrow> unat c < 128 \<Longrightarrow> unat (c + 1) = Suc (unat c) \<and> unat c < 127"
  by (simp add: unat_word_ariths word_unat_eq_iff)

lemma unlocked_unat [simp]: "unat (- 1 :: 8 word) = 255"
  by (simp add: unsigned_minus_1_eq_mask mask_eq_exp_minus_1)

text \<open>The lists whose waiting tasks a call from an interrupt may wake.\<close>

definition touched :: "isr_call \<Rightarrow> queue \<Rightarrow> nat set" where
  "touched c q = (if c = IsrReceive then (if cRxLock q = queueUNLOCKED then {xTasksWaitingToSend q} else {})
     else if cTxLock q = queueUNLOCKED then {xTasksWaitingToReceive q} else {})"

definition isr_good :: "isr_call \<Rightarrow> queue \<Rightarrow> kernel \<Rightarrow> call_point \<Rightarrow> queue \<Rightarrow> kernel \<Rightarrow> bool" where
  "isr_good c q K p q' K' \<longleftrightarrow> kernel_ok K' \<and> any_queue_ok q' \<and> shape q' = shape q \<and> holder (un q') = holder (un q) \<and>
     lock_state q' p \<and> hush K K' \<and> pxCurrentTCB K' = pxCurrentTCB K \<and>
     (tx_locked p \<and> rx_locked p \<longrightarrow> (\<forall>r. deferred r q \<longrightarrow> deferred r q')) \<and>
     (rx_locked p \<longrightarrow> (\<forall>r. is_send r \<longrightarrow> deferred r q \<longrightarrow> deferred r q')) \<and>
     (uxSchedulerSuspended K \<noteq> 0 \<longrightarrow> (\<forall>t. (\<forall>e\<in>touched c q. ev K t \<noteq> Some (EventList e)) \<longrightarrow> undisturbed t K K'))"

lemma unat_gap: "unat (a - b) = unat a - unat (b :: u32)" if "unat b \<le> unat a"
  using that by (simp add: unat_sub word_le_nat_alt)

lemma puts_deferred:
  assumes "puts q q'" "control q' = control q" and t: "cTxLock q \<noteq> 127" "unat (cTxLock q) < 128"
  shows "deferred r q \<Longrightarrow> deferred r (q'\<lparr>cTxLock := cTxLock q + 1\<rparr>)" 
    and "is_send r \<Longrightarrow> deferred r q \<Longrightarrow> deferred r q'"
proof -
  have "unat (uxLength q' - uxMessagesWaiting q') \<le> unat (uxLength q - uxMessagesWaiting q)"
    using assms(1) control_fields(4) [OF assms(2)] by (simp add: puts_def unat_gap diff_le_mono2)
  then show "deferred r q \<Longrightarrow> deferred r (q'\<lparr>cTxLock := cTxLock q + 1\<rparr>)" "is_send r \<Longrightarrow> deferred r q \<Longrightarrow> deferred r q'"
    using assms(1) control_fields(6) [OF assms(2)] plus1_count [OF t] by (cases r; simp add: puts_def)+
qed

lemma isr_step_good:
  assumes ok: "kernel_ok K" "any_queue_ok q" and c: "isr_allowed c q" and l: "lock_state q p"
  shows "returns (isr_step c q K) (\<lambda>(q', K'). isr_good c q K p q' K')"
proof (cases "c = IsrReceive")
  case False
  have t: "cTxLock q \<noteq> 127" using c False by (cases c) auto
  show ?thesis
  proof (rule isr_put_copy [OF ok(2,1) c False])
    assume "isr_step c q K = Some (q, K)"
    then show ?thesis using ok l by (simp add: isr_good_def)
  next
    fix q1 assume q1: "any_queue_ok q1" "control q1 = control q" "holder (un q1) = holder (un q)" "puts q q1"
      and e: "isr_step c q K = map_option (Pair (if cTxLock q = queueUNLOCKED then q1 else q1\<lparr>cTxLock := cTxLock q + 1\<rparr>))
        (if cTxLock q = queueUNLOCKED then map_option snd (unblock_one (xTasksWaitingToReceive q) K) else Some K)"
    let ?q = "if cTxLock q = queueUNLOCKED then q1 else q1\<lparr>cTxLock := cTxLock q + 1\<rparr>"
    from isr_wake [OF ok(1), of "cTxLock q" "xTasksWaitingToReceive q"]
    obtain K' where k: "(if cTxLock q = queueUNLOCKED then map_option snd (unblock_one (xTasksWaitingToReceive q) K) else Some K) = Some K'"
      "kernel_ok K'" "hush K K'" "pxCurrentTCB K' = pxCurrentTCB K"
      and u: "uxSchedulerSuspended K \<noteq> 0 \<longrightarrow> (\<forall>t. (cTxLock q = queueUNLOCKED \<longrightarrow> ev K t \<noteq> Some (EventList (xTasksWaitingToReceive q))) \<longrightarrow> undisturbed t K K')"
      by (rule returnsE) blast
    have "any_queue_ok ?q" "shape ?q = shape q" "holder (un ?q) = holder (un q)" using q1 control_shape [OF q1(2)] by simp_all
    moreover have "lock_state ?q p" using l control_fields(6,7) [OF q1(2)] t plus1_count [OF t]
      by (auto simp: lock_state_def held_def)
    moreover have "deferred r ?q" if "deferred r q" "tx_locked p" for r
      using that puts_deferred(1) [OF q1(4,2) t, of r] l by (auto simp: lock_state_def held_def)
    moreover have "deferred r ?q" if "deferred r q" "is_send r" for r
      using that control_fields(4,6) [OF q1(2)] q1(4) by (cases r) (auto simp: puts_def unat_gap)
    moreover have "undisturbed t K K'" if "uxSchedulerSuspended K \<noteq> 0" "\<forall>e\<in>touched c q. ev K t \<noteq> Some (EventList e)" for t
      using u that(1) that(2) False by (auto simp: touched_def)
    ultimately show ?thesis unfolding e k(1) using k by (simp add: isr_good_def)
  qed
next
  case True
  note c = c [unfolded True]
  then have t: "cRxLock q \<noteq> 127" by simp
  show ?thesis unfolding True
  proof (rule isr_get_copy [OF ok(2,1) c])
    assume e: "isr_step IsrReceive q K = Some (q, K)"
    show "returns (isr_step IsrReceive q K) (\<lambda>(q', K'). isr_good IsrReceive q K p q' K')"
      unfolding e using ok l by (simp add: isr_good_def)
  next
    fix q1 assume q1: "any_queue_ok q1" "control q1 = control q" "holder (un q1) = holder (un q)" "fill q = Suc (fill q1)" "fill q \<le> capacity q"
      and e: "isr_step IsrReceive q K = map_option (Pair (if cRxLock q = queueUNLOCKED then q1 else q1\<lparr>cRxLock := cRxLock q + 1\<rparr>))
        (if cRxLock q = queueUNLOCKED then map_option snd (unblock_one (xTasksWaitingToSend q) K) else Some K)"
    let ?q = "if cRxLock q = queueUNLOCKED then q1 else q1\<lparr>cRxLock := cRxLock q + 1\<rparr>"
    from isr_wake [OF ok(1), of "cRxLock q" "xTasksWaitingToSend q"]
    obtain K' where k: "(if cRxLock q = queueUNLOCKED then map_option snd (unblock_one (xTasksWaitingToSend q) K) else Some K) = Some K'"
      "kernel_ok K'" "hush K K'" "pxCurrentTCB K' = pxCurrentTCB K"
      and u: "uxSchedulerSuspended K \<noteq> 0 \<longrightarrow> (\<forall>t. (cRxLock q = queueUNLOCKED \<longrightarrow> ev K t \<noteq> Some (EventList (xTasksWaitingToSend q))) \<longrightarrow> undisturbed t K K')"
      by (rule returnsE) blast
    have "any_queue_ok ?q" "shape ?q = shape q" "holder (un ?q) = holder (un q)" using q1 control_shape [OF q1(2)] by simp_all
    moreover have "lock_state ?q p" using l control_fields(6,7) [OF q1(2)] t plus1_count [OF t]
      by (auto simp: lock_state_def held_def)
    moreover have "deferred r ?q" if "deferred r q" "rx_locked p" for r
      using that control_fields(4,6,7) [OF q1(2)] q1(4,5) plus1_count [OF t] l
      by (cases r) (auto simp: lock_state_def held_def unat_gap)
    moreover have "undisturbed t K K'" if "uxSchedulerSuspended K \<noteq> 0" "\<forall>e\<in>touched IsrReceive q. ev K t \<noteq> Some (EventList e)" for t
      using u that(1) that(2) by (auto simp: touched_def)
    ultimately show "returns (isr_step IsrReceive q K) (\<lambda>(q', K'). isr_good IsrReceive q K p q' K')"
      unfolding e k(1) using k by (simp add: isr_good_def)
  qed
qed

end
