(* ===== verification/RTOS_World.thy ===== *)
theory RTOS_World
  imports RTOS_Calls
begin

text \<open>
  The system of tasks, queues and interrupts as a transition system: a task in a blocking call stands at
  one of its points, interrupts strike at any of them, and tasks change wherever the scheduler is active.
  One invariant covers the kernel, all queues and all calls; its consequences are that no call runs into
  undefined behaviour, that queues are unlocked whenever the scheduler is active, that an item or a space
  that arrives while a task goes to sleep wakes a waiting task, and that a mutex has one holder.
\<close>

unbundle bit_operations_syntax

section \<open>Tasks, queues and interrupts together\<close>

text \<open>
  Queue \<open>i\<close> has the event lists \<open>2 * i\<close> and \<open>2 * i + 1\<close>. A task in the middle of a call has a frame: which
  queue, which call, and where it stands.
\<close>

record world =
  krn :: kernel
  qs :: "nat \<Rightarrow> queue"
  frames :: "tid \<Rightarrow> (nat \<times> request \<times> call_frame) option"

abbreviation current :: "world \<Rightarrow> tid" where "current W \<equiv> pxCurrentTCB (krn W)"

text \<open>One step of the call the running task is in.\<close>

definition proceed :: "world \<Rightarrow> world option" where
  "proceed W = do {
     (i, r, f) \<leftarrow> frames W (current W);
     (fo, q, K) \<leftarrow> call_step r f (qs W i) (krn W);
     Some (W\<lparr>krn := K, qs := (qs W)(i := q), frames := (frames W)(current W := map_option (\<lambda>f. (i, r, f)) fo)\<rparr>) }"

definition isr :: "isr_call \<Rightarrow> nat \<Rightarrow> world \<Rightarrow> world option" where
  "isr c i W = map_option (\<lambda>(q, K). W\<lparr>krn := K, qs := (qs W)(i := q)\<rparr>) (isr_step c (qs W i) (krn W))"

definition kernel_move :: "world \<Rightarrow> kernel option \<Rightarrow> world option" where
  "kernel_move W = map_option (\<lambda>K. W\<lparr>krn := K\<rparr>)"

text \<open>
  What may happen next. A task that is not in a queue call makes any call of the scheduler's interface
  (\<open>calls\<close>); interrupts and context switches may come at any time, so between any two points of a call.
\<close>

inductive moves :: "world \<Rightarrow> world option \<Rightarrow> bool" where
  enter: "running (krn W) \<Longrightarrow> frames W (current W) = None \<Longrightarrow> ucNotifyState (tcbs (krn W) (current W)) \<noteq> Waiting \<Longrightarrow>
    request_ok r (current W) (qs W i) \<Longrightarrow> moves W (Some (W\<lparr>frames := (frames W)(current W \<mapsto> (i, r, call_start junk n))\<rparr>))"
| proceed: "frames W (current W) = Some (i, r, f) \<Longrightarrow> (\<not> suspended_at (point f) \<Longrightarrow> running (krn W)) \<Longrightarrow>
    hazard_free r f (qs W i) (krn W) \<Longrightarrow> moves W (proceed W)"
| other: "frames W (current W) = None \<Longrightarrow> calls (krn W) m \<Longrightarrow> moves W (kernel_move W m)"
| interrupt: "interrupt (krn W) m \<Longrightarrow> moves W (kernel_move W m)"
| switch: "st (krn W) t = Some (Ready p) \<Longrightarrow> moves W (kernel_move W (vTaskSwitchContext (krn W)))"
| isr: "isr_allowed c (qs W i) \<Longrightarrow> moves W (isr c i W)"

inductive_cases movesE: "moves W r"

section \<open>The invariant\<close>

definition frame_point :: "world \<Rightarrow> nat \<Rightarrow> call_point" where
  "frame_point W i = (case frames W (current W) of Some (j, r, f) \<Rightarrow> if i = j then point f else Attempt | None \<Rightarrow> Attempt)"

definition queues_ok :: "world \<Rightarrow> bool" where
  "queues_ok W \<longleftrightarrow> (\<forall>i. any_queue_ok (qs W i) \<and> xTasksWaitingToSend (qs W i) = 2 * i \<and> xTasksWaitingToReceive (qs W i) = 2 * i + 1 \<and>
     lock_state (qs W i) (frame_point W i))"

definition frames_ok :: "world \<Rightarrow> bool" where
  "frames_ok W \<longleftrightarrow> (\<forall>t i r f. frames W t = Some (i, r, f) \<longrightarrow> t \<noteq> NULL \<and> request_ok r t (qs W i) \<and> inherit_ok r f (qs W i) \<and>
     ucNotifyState (tcbs (krn W) t) \<noteq> Waiting \<and> (t \<noteq> current W \<longrightarrow> \<not> suspended_at (point f)) \<and>
     (t = current W \<longrightarrow> frame_ok (krn W) (qs W i) r f))"

definition world_ok :: "world \<Rightarrow> bool" where
  "world_ok W \<longleftrightarrow> kernel_ok (krn W) \<and> queues_ok W \<and> frames_ok W"

lemma world_okD:
  assumes "world_ok W"
  shows "kernel_ok (krn W)" "any_queue_ok (qs W i)" "xTasksWaitingToSend (qs W i) = 2 * i" "xTasksWaitingToReceive (qs W i) = 2 * i + 1"
    "lock_state (qs W i) (frame_point W i)"
  using assms unfolding world_ok_def queues_ok_def by blast+

lemma frames_okD:
  assumes "world_ok W" "frames W t = Some (i, r, f)"
  shows "request_ok r t (qs W i)" "inherit_ok r f (qs W i)" "ucNotifyState (tcbs (krn W) t) \<noteq> Waiting"
    "t \<noteq> current W \<Longrightarrow> \<not> suspended_at (point f)" "t = current W \<Longrightarrow> frame_ok (krn W) (qs W i) r f" "t \<noteq> NULL"
  using assms unfolding world_ok_def frames_ok_def by blast+

lemma queue_lists_differ: "world_ok W \<Longrightarrow> xTasksWaitingToSend (qs W i) \<noteq> xTasksWaitingToReceive (qs W i)"
  using world_okD(3,4) by (metis n_not_Suc_n add.commute plus_1_eq_Suc)

text \<open>Outside the critical stretch of a call nothing is locked, and nothing more is asked of the frame.\<close>

lemma not_suspended_point:
  assumes "\<not> suspended_at p" shows "\<not> before_place p" "\<not> tx_locked p" "\<not> rx_locked p" "p \<notin> {TestQueue, Inherit, PlaceOnList}" "p \<noteq> UnlockTx a" "p \<noteq> UnlockRx a"
  using assms by (cases p; simp)+

lemma frame_ok_free: "\<not> suspended_at (point f) \<Longrightarrow> frame_ok K q r f"
  using not_suspended_point [of "point f"] by (auto simp: frame_ok_def)

lemma lock_state_free: "\<not> suspended_at p \<Longrightarrow> lock_state q p = lock_state q Attempt"
  using not_suspended_point [of p] by (simp add: lock_state_def)

lemma lock_state_queue: "world_ok W \<Longrightarrow> frames W (current W) = Some (i, r, f) \<Longrightarrow> lock_state (qs W i) (point f)"
  using world_okD(5) [of W i] by (simp add: frame_point_def)

lemma request_ok_shape:
  assumes "shape q' = shape q" "holder (un q') = holder (un q) \<or> holder (un q) \<noteq> t"
  shows "request_ok r t q \<Longrightarrow> request_ok r t q'"
  using shape_fields [OF assms(1)] assms(2) by (cases r) auto

lemma inherit_ok_shape: "shape q' = shape q \<Longrightarrow> inherit_ok r f q' = inherit_ok r f q"
  using shape_fields(1) [of q' q] by (simp add: inherit_ok_def)

lemma frame_undisturbed:
  assumes f: "frame_ok K q r f" and u: "undisturbed (pxCurrentTCB K) K K'" and s: "shape q' = shape q"
    and d: "tx_locked (point f) \<and> rx_locked (point f) \<Longrightarrow> deferred r q \<Longrightarrow> deferred r q'"
      "rx_locked (point f) \<Longrightarrow> is_send r \<Longrightarrow> deferred r q \<Longrightarrow> deferred r q'"
  shows "frame_ok K' q' r f"
proof -
  have "wait_list r q' = wait_list r q" using shape_fields [OF s] by (cases r) auto
  moreover have "able K \<Longrightarrow> able K'" using u by (simp add: able_def undisturbed_def)
  ultimately show ?thesis using f u d by (auto simp: frame_ok_def undisturbed_def)
qed

section \<open>Interrupts and switches keep it\<close>

definition steady :: "kernel \<Rightarrow> kernel \<Rightarrow> bool" where
  "steady K K' \<longleftrightarrow> pxCurrentTCB K' = pxCurrentTCB K \<and> uxSchedulerSuspended K' = uxSchedulerSuspended K \<and>
     uxCurrentNumberOfTasks K' = uxCurrentNumberOfTasks K"

lemma undisturbed_steady: "undisturbed t K K' \<Longrightarrow> steady K K'"
  by (simp add: undisturbed_def steady_def)

lemma notify_wake_steady:
  assumes "uxSchedulerSuspended K \<noteq> 0" "notify_wake_from_isr u K = Some (w, K')"
  shows "steady K K'"
proof -
  obtain t where "t \<noteq> u" by (metis n_not_Suc_n)
  from notify_wake_suspended [OF assms this] show ?thesis using undisturbed_steady by blast
qed

lemma steady_trans: "steady K K1 \<Longrightarrow> steady K1 K2 \<Longrightarrow> steady K K2"
  by (simp add: steady_def)

lemma steady_set_tcb: "steady K (set_tcb t f K)"
  using set_tcb_ctl [of t f K] by (simp add: steady_def ctl_def)

lemma interrupt_steady:
  assumes i: "interrupt K (Some K')" and s: "uxSchedulerSuspended K \<noteq> 0"
  shows "steady K K'"
  using i
proof cases
  case 1
  then show ?thesis using s by (simp add: suspended_tick steady_def)
next
  case (2 u)
  have "steady K (insert_event_end PendingReadyList u K)"
    by (simp add: steady_def kernel_simps del: insert_event_end.simps)
  then show ?thesis using 2 s
    by (cases "prvTaskIsTaskSuspended u K") (simp_all add: xTaskResumeFromISR_def steady_def del: insert_event_end.simps)
next
  case (3 u v a)
  obtain r x where v: "notify_value a v (tcbs K u) = (r, x)" by fastforce
  let ?K = "set_tcb u (\<lambda>c. c\<lparr>ucNotifyState := Received, ulNotifiedValue := x\<rparr>) K"
  have s: "uxSchedulerSuspended ?K \<noteq> 0" using s by (simp add: set_tcb_def)
  show ?thesis
  proof (cases "ucNotifyState (tcbs K u) = Waiting")
    case True
    then obtain w where "notify_wake_from_isr u ?K = Some (w, K')" using 3 v
      by (cases "notify_wake_from_isr u ?K") (auto simp: xTaskGenericNotifyFromISR_def Let_def)
    from notify_wake_steady [OF s this] show ?thesis by (rule steady_trans [OF steady_set_tcb])
  next
    case False
    then have "K' = ?K" using 3 v by (simp add: xTaskGenericNotifyFromISR_def Let_def)
    then show ?thesis using steady_set_tcb by (simp only:)
  qed
next
  case (4 u)
  let ?K = "set_tcb u (\<lambda>c. c\<lparr>ucNotifyState := Received, ulNotifiedValue := ulNotifiedValue c + 1\<rparr>) K"
  have s: "uxSchedulerSuspended ?K \<noteq> 0" using s by (simp add: set_tcb_def)
  show ?thesis
  proof (cases "ucNotifyState (tcbs K u) = Waiting")
    case True
    then have "vTaskNotifyGiveFromISR u K = notify_wake_from_isr u ?K"
      unfolding vTaskNotifyGiveFromISR_def Let_def by (rule if_P)
    then have "map_option snd (notify_wake_from_isr u ?K) = Some K'" using sym [OF 4(1)] by (simp only:)
    from map_snd_SomeD [OF this] obtain w where "notify_wake_from_isr u ?K = Some (w, K')" ..
    from notify_wake_steady [OF s this] show ?thesis by (rule steady_trans [OF steady_set_tcb])
  next
    case False
    then have "vTaskNotifyGiveFromISR u K = Some (False, ?K)"
      unfolding vTaskNotifyGiveFromISR_def Let_def by (rule if_not_P)
    with 4(1) have "K' = ?K" by (simp only: option.map snd_conv option.inject)
    then show ?thesis using steady_set_tcb by (simp only:)
  qed
qed

lemma interrupt_hush:
  assumes ok: "kernel_ok K" and i: "interrupt K (Some K')" shows "hush K K'"
proof -
  have "silent K (Some K')" using i
  proof cases
    case 1 then show ?thesis using silent_tick [OF ok] by (simp only:)
  qed (use silent_wakes in \<open>simp_all only:\<close>)
  then show ?thesis by simp
qed

text \<open>The kernel may change as it likes when no call is in its critical stretch.\<close>

definition calm :: "world \<Rightarrow> bool" where
  "calm W \<longleftrightarrow> (\<forall>i r f. frames W (current W) = Some (i, r, f) \<longrightarrow> \<not> suspended_at (point f))"

lemma calm_frame:
  assumes ok: "world_ok W" and c: "calm W"
    and f: "frames W t = Some (i, r, f)"
  shows "\<not> suspended_at (point f)"
  using frames_okD(4) [OF ok f] c f by (cases "t = current W") (auto simp: calm_def)

lemma calm_locks:
  assumes ok: "world_ok W" and c: "calm W"
  shows "lock_state (qs W i) Attempt" "\<not> suspended_at (frame_point (W\<lparr>krn := K\<rparr>) i)"
proof -
  show n: "\<not> suspended_at (frame_point (W\<lparr>krn := K\<rparr>) i)" for K
    using calm_frame [OF ok c] by (auto simp: frame_point_def split: option.split)
  show "lock_state (qs W i) Attempt" using world_okD(5) [OF ok, of i] lock_state_free [OF n [of "krn W"], of "qs W i"] by simp
qed

lemma calm_ok:
  assumes ok: "world_ok W" and c: "calm W"
    and K: "kernel_ok K'" "\<And>t. frames W t \<noteq> None \<Longrightarrow> ucNotifyState (tcbs (krn W) t) \<noteq> Waiting \<Longrightarrow> ucNotifyState (tcbs K' t) \<noteq> Waiting"
  shows "world_ok (W\<lparr>krn := K'\<rparr>)"
proof -
  have "queues_ok (W\<lparr>krn := K'\<rparr>)" unfolding queues_ok_def
  proof (intro allI conjI)
    fix i show "lock_state (qs (W\<lparr>krn := K'\<rparr>) i) (frame_point (W\<lparr>krn := K'\<rparr>) i)"
      using calm_locks(1) [OF ok c, of i] lock_state_free [OF calm_locks(2) [OF ok c]] by simp
  qed (use world_okD [OF ok] in simp_all)
  moreover have "frames_ok (W\<lparr>krn := K'\<rparr>)" unfolding frames_ok_def
  proof (intro allI impI)
    fix t i r f assume "frames (W\<lparr>krn := K'\<rparr>) t = Some (i, r, f)"
    then have f: "frames W t = Some (i, r, f)" by simp
    have "\<not> suspended_at (point f)" by (rule calm_frame [OF ok c f])
    then show "t \<noteq> NULL \<and> request_ok r t (qs (W\<lparr>krn := K'\<rparr>) i) \<and> inherit_ok r f (qs (W\<lparr>krn := K'\<rparr>) i) \<and>
      ucNotifyState (tcbs (krn (W\<lparr>krn := K'\<rparr>)) t) \<noteq> Waiting \<and> (t \<noteq> current (W\<lparr>krn := K'\<rparr>) \<longrightarrow> \<not> suspended_at (point f)) \<and>
      (t = current (W\<lparr>krn := K'\<rparr>) \<longrightarrow> frame_ok (krn (W\<lparr>krn := K'\<rparr>)) (qs (W\<lparr>krn := K'\<rparr>) i) r f)"
      using frames_okD [OF ok f] K(2) [of t] f frame_ok_free by simp
  qed
  ultimately show ?thesis using K(1) by (simp add: world_ok_def)
qed

text \<open>And otherwise as long as it leaves the running task alone.\<close>

definition spares :: "kernel \<Rightarrow> kernel \<Rightarrow> bool" where
  "spares K K' \<longleftrightarrow> steady K K' \<and> hush K K' \<and>
     (able K \<or> (\<exists>e. ev K (pxCurrentTCB K) = Some (EventList e)) \<longrightarrow> undisturbed (pxCurrentTCB K) K K')"

lemma frame_spared:
  assumes f: "frame_ok K q r f" and u: "spares K K'" and s: "shape q' = shape q"
    and d: "tx_locked (point f) \<and> rx_locked (point f) \<Longrightarrow> deferred r q \<Longrightarrow> deferred r q'"
      "rx_locked (point f) \<Longrightarrow> is_send r \<Longrightarrow> deferred r q \<Longrightarrow> deferred r q'"
  shows "frame_ok K' q' r f"
proof (cases "able K \<or> (\<exists>e. ev K (pxCurrentTCB K) = Some (EventList e))")
  case True
  then show ?thesis using u frame_undisturbed [OF f _ s d] by (simp add: spares_def)
next
  case False
  then show ?thesis using f u by (auto simp: spares_def steady_def frame_ok_def)
qed

lemma spares_ok:
  assumes ok: "world_ok W" and K: "kernel_ok K'" "spares (krn W) K'"
  shows "world_ok (W\<lparr>krn := K'\<rparr>)"
proof -
  have c: "pxCurrentTCB K' = current W" and h: "hush (krn W) K'" using K(2) by (simp_all add: spares_def steady_def)
  have "frame_point (W\<lparr>krn := K'\<rparr>) = frame_point W" by (simp add: frame_point_def c fun_eq_iff)
  then have "queues_ok (W\<lparr>krn := K'\<rparr>)" using ok by (simp add: world_ok_def queues_ok_def)
  moreover have "frames_ok (W\<lparr>krn := K'\<rparr>)" unfolding frames_ok_def
  proof (intro allI impI)
    fix t i r f assume "frames (W\<lparr>krn := K'\<rparr>) t = Some (i, r, f)"
    then have f: "frames W t = Some (i, r, f)" by simp
    have "t = current W \<Longrightarrow> frame_ok K' (qs W i) r f" using frame_spared [OF _ K(2) refl] frames_okD(5) [OF ok f] by blast
    then show "t \<noteq> NULL \<and> request_ok r t (qs (W\<lparr>krn := K'\<rparr>) i) \<and> inherit_ok r f (qs (W\<lparr>krn := K'\<rparr>) i) \<and>
      ucNotifyState (tcbs (krn (W\<lparr>krn := K'\<rparr>)) t) \<noteq> Waiting \<and> (t \<noteq> current (W\<lparr>krn := K'\<rparr>) \<longrightarrow> \<not> suspended_at (point f)) \<and>
      (t = current (W\<lparr>krn := K'\<rparr>) \<longrightarrow> frame_ok (krn (W\<lparr>krn := K'\<rparr>)) (qs (W\<lparr>krn := K'\<rparr>) i) r f)"
      using frames_okD(1-4,6) [OF ok f] h c by (auto simp: hush_def)
  qed
  ultimately show ?thesis using K(1) by (simp add: world_ok_def)
qed

lemma frame_suspended:
  assumes "world_ok W" "frames W (current W) = Some (i, r, f)" "uxSchedulerSuspended (krn W) = 0"
  shows "\<not> suspended_at (point f)"
  using frames_okD(5) [OF assms(1,2) refl] assms(3) by (auto simp: frame_ok_def)

lemma interrupt_ok:
  assumes ok: "world_ok W" and i: "interrupt (krn W) m"
  shows "returns (kernel_move W m) world_ok"
proof -
  obtain K' where m: "m = Some K'" "kernel_ok K'" using calls_ok [OF interrupt_calls [OF i] world_okD(1) [OF ok]] by (rule returnsE)
  have i: "interrupt (krn W) (Some K')" using i m by simp
  have h: "hush (krn W) K'" by (rule interrupt_hush [OF world_okD(1) [OF ok] i])
  have "world_ok (W\<lparr>krn := K'\<rparr>)"
  proof (cases "\<exists>i r f. frames W (current W) = Some (i, r, f) \<and> suspended_at (point f)")
    case True
    then obtain j r f where f: "frames W (current W) = Some (j, r, f)" "suspended_at (point f)" by blast
    have s: "uxSchedulerSuspended (krn W) \<noteq> 0" using frames_okD(5) [OF ok f(1) refl] f(2) by (simp add: frame_ok_def)
    have "undisturbed (current W) (krn W) K'" if "able (krn W) \<or> (\<exists>e. ev (krn W) (current W) = Some (EventList e))"
      using interrupt_undisturbed [OF i s frames_okD(3) [OF ok f(1)]] that by (auto simp: able_def)
    then have "spares (krn W) K'" using interrupt_steady [OF i s] h by (simp add: spares_def)
    then show ?thesis by (rule spares_ok [OF ok m(2)])
  next
    case False
    then show ?thesis using h by (intro calm_ok [OF ok _ m(2)]) (auto simp: hush_def calm_def)
  qed
  then show ?thesis by (simp add: kernel_move_def m(1))
qed

lemma switch_ok:
  assumes ok: "world_ok W" and t: "st (krn W) t = Some (Ready p)"
  shows "returns (kernel_move W (vTaskSwitchContext (krn W))) world_ok"
proof -
  obtain K' where m: "vTaskSwitchContext (krn W) = Some K'" "kernel_ok K'" using vTaskSwitchContext_ok [OF world_okD(1) [OF ok] t] by (rule returnsE)
  have h: "hush (krn W) K'" using silent_switch [of "krn W"] m(1) by (simp add: silent_def)
  have "world_ok (W\<lparr>krn := K'\<rparr>)"
  proof (cases "uxSchedulerSuspended (krn W) = 0")
    case True
    then show ?thesis using h frame_suspended [OF ok _ True] by (intro calm_ok [OF ok _ m(2)]) (auto simp: hush_def calm_def)
  next
    case False
    then have "K' = krn W\<lparr>xYieldPending := True\<rparr>" using m(1) by (simp add: vTaskSwitchContext_def)
    then have "spares (krn W) K'" using h by (simp add: spares_def steady_def)
    then show ?thesis by (rule spares_ok [OF ok m(2)])
  qed
  then show ?thesis by (simp add: kernel_move_def m(1))
qed

lemma other_ok:
  assumes ok: "world_ok W" and n: "frames W (current W) = None" and c: "calls (krn W) m"
  shows "returns (kernel_move W m) world_ok"
proof -
  obtain K' where m: "m = Some K'" "kernel_ok K'" using calls_ok [OF c world_okD(1) [OF ok]] by (rule returnsE)
  have "ucNotifyState (tcbs K' t) \<noteq> Waiting" if "frames W t \<noteq> None" "ucNotifyState (tcbs (krn W) t) \<noteq> Waiting" for t
    using calls_keep_others [OF world_okD(1) [OF ok] c [unfolded m(1)], of t] that n by metis
  then have "world_ok (W\<lparr>krn := K'\<rparr>)" using n by (intro calm_ok [OF ok _ m(2)]) (auto simp: calm_def)
  then show ?thesis by (simp add: kernel_move_def m(1))
qed

section \<open>The steps of calls keep it\<close>

lemma no_event_NULL: "kernel_ok K \<Longrightarrow> ev K NULL = None"
  using tasks_okD(4) [OF core_okD(2) [OF kernel_okD(1)]] by (cases "ev K NULL") auto

lemma enter_ok:
  assumes ok: "world_ok W" and r: "running (krn W)" "frames W (current W) = None" "ucNotifyState (tcbs (krn W) (current W)) \<noteq> Waiting"
    "request_ok r (current W) (qs W i)"
  shows "world_ok (W\<lparr>frames := (frames W)(current W \<mapsto> (i, r, call_start junk n))\<rparr>)"
proof -
  let ?W = "W\<lparr>frames := (frames W)(current W \<mapsto> (i, r, call_start junk n))\<rparr>"
  have "calm W" using r(2) by (simp add: calm_def)
  note l = calm_locks(1) [OF ok this]
  have "frame_point ?W j = Attempt" for j by (simp add: frame_point_def call_start_def)
  then have "queues_ok ?W" using l world_okD [OF ok] by (simp add: queues_ok_def)
  moreover have "current W \<noteq> NULL"
    using tasks_okD(3) [OF core_okD(2) [OF kernel_okD(1) [OF world_okD(1) [OF ok]]]] r(1) by (auto simp: running_def)
  then have "frames_ok ?W" using r(3,4) frames_okD [OF ok] unfolding frames_ok_def
    by (auto simp: call_start_def inherit_ok_def frame_ok_free)
  ultimately show ?thesis using world_okD(1) [OF ok] by (simp add: world_ok_def)
qed

text \<open>What other calls are told of a queue by the step of one task or interrupt.\<close>

lemma other_frames:
  assumes ok: "world_ok W" and f: "frames W t = Some (j, r, f)" and t: "t \<noteq> current W"
    and q: "shape q' = shape (qs W i)" "holder (un q') = holder (un (qs W i)) \<or> handover r' (current W) (holder (un (qs W i))) (holder (un q'))"
  shows "request_ok r t (((qs W)(i := q')) j)" "inherit_ok r f (((qs W)(i := q')) j)" "\<not> suspended_at (point f)" "t \<noteq> NULL"
proof -
  note f = frames_okD [OF ok f]
  have "holder (un (qs W i)) = NULL \<or> holder (un (qs W i)) = current W" if "handover r' (current W) (holder (un (qs W i))) (holder (un q'))"
    using that by (cases r') auto
  then have "holder (un q') = holder (un (qs W i)) \<or> holder (un (qs W i)) \<noteq> t" using q(2) t f(6) by auto
  then show "request_ok r t (((qs W)(i := q')) j)" using f(1) request_ok_shape [OF q(1), of t r] by (cases "j = i") auto
  show "inherit_ok r f (((qs W)(i := q')) j)" using f(2) inherit_ok_shape [OF q(1), of r f] by (cases "j = i") auto
  show "\<not> suspended_at (point f)" "t \<noteq> NULL" using f(4,6) t by simp_all
qed

lemma proceed_parts:
  assumes ok: "world_ok W" and f: "frames W (current W) = Some (i, r, f)" and run: "\<not> suspended_at (point f) \<Longrightarrow> running (krn W)"
    and z: "hazard_free r f (qs W i) (krn W)"
  obtains fo q K where "call_step r f (qs W i) (krn W) = Some (fo, q, K)" "good r (qs W i) (krn W) fo q K"
    "proceed W = Some (W\<lparr>krn := K, qs := (qs W)(i := q), frames := (frames W)(current W := map_option (\<lambda>f. (i, r, f)) fo)\<rparr>)"
proof -
  note F = frames_okD [OF ok f]
  from call_step_good [OF world_okD(1,2) [OF ok] F(1) F(5) [OF refl] lock_state_queue [OF ok f] F(2) run queue_lists_differ [OF ok] F(3) z]
  obtain fo q K where s: "call_step r f (qs W i) (krn W) = Some (fo, q, K)" "good r (qs W i) (krn W) fo q K" by (auto elim: returnsE)
  then show ?thesis using that f by (simp add: proceed_def)
qed

lemma proceed_ok:
  assumes ok: "world_ok W" and f: "frames W (current W) = Some (i, r, f)" and run: "\<not> suspended_at (point f) \<Longrightarrow> running (krn W)"
    and z: "hazard_free r f (qs W i) (krn W)"
  shows "returns (proceed W) world_ok"
proof -
  note F = frames_okD [OF ok f]
  from proceed_parts [OF assms] obtain fo q K where s: "call_step r f (qs W i) (krn W) = Some (fo, q, K)" and g: "good r (qs W i) (krn W) fo q K"
    by blast
  define W' where "W' = W\<lparr>krn := K, qs := (qs W)(i := q), frames := (frames W)(current W := map_option (\<lambda>f. (i, r, f)) fo)\<rparr>"
  have g: "kernel_ok K" "any_queue_ok q" "shape q = shape (qs W i)" "pxCurrentTCB K = current W" "hush (krn W) K"
    and h: "holder (un q) = holder (un (qs W i)) \<or> handover r (current W) (holder (un (qs W i))) (holder (un q))"
      "fo \<noteq> None \<Longrightarrow> holder (un q) = holder (un (qs W i))"
    and c: "case fo of None \<Rightarrow> lock_state q Attempt | Some f \<Rightarrow> lock_state q (point f) \<and> frame_ok K q r f \<and> inherit_ok r f q"
    using g by (auto simp: good_def)
  have p: "frame_point W' j = (case fo of Some f \<Rightarrow> if j = i then point f else Attempt | None \<Rightarrow> Attempt)" for j
    by (simp add: W'_def frame_point_def g(4) split: option.split)
  have "lock_state (qs W j) Attempt" if "j \<noteq> i" for j using world_okD(5) [OF ok, of j] f that by (simp add: frame_point_def)
  moreover have "qs W' = (qs W)(i := q)" by (simp add: W'_def)
  ultimately have "queues_ok W'" using world_okD(2-4) [OF ok] shape_fields [OF g(3)] g(2) c
    by (auto simp: queues_ok_def p split: option.splits)
  moreover have "frames_ok W'" unfolding frames_ok_def
  proof (intro allI impI)
    fix t j r' f' assume f': "frames W' t = Some (j, r', f')"
    show "t \<noteq> NULL \<and> request_ok r' t (qs W' j) \<and> inherit_ok r' f' (qs W' j) \<and> ucNotifyState (tcbs (krn W') t) \<noteq> Waiting \<and>
      (t \<noteq> current W' \<longrightarrow> \<not> suspended_at (point f')) \<and> (t = current W' \<longrightarrow> frame_ok (krn W') (qs W' j) r' f')"
    proof (cases "t = current W")
      case True
      then have "fo = Some f'" "j = i" "r' = r" using f' by (auto simp: W'_def)
      moreover have "request_ok r t q" using F(1) request_ok_shape [OF g(3), of t r] h(2) True calculation(1) by simp
      ultimately show ?thesis using c F(3,6) g(4,5) True by (auto simp: W'_def hush_def)
    next
      case False
      then have "frames W t = Some (j, r', f')" using f' by (simp add: W'_def)
      then show ?thesis using other_frames [OF ok _ False g(3) h(1)] frames_okD(3) [OF ok] False g(4,5) by (simp add: W'_def hush_def) blast
    qed
  qed
  ultimately have "world_ok W'" using g(1) by (simp add: world_ok_def W'_def)
  then show ?thesis unfolding proceed_def f bind.bind_lunit prod.case s by (simp add: W'_def)
qed

lemma frame_kept:
  assumes f: "frame_ok K q r f" and k: "steady K K'" and s: "shape q' = shape q"
    and u: "able K \<or> point f = UnlockTx Blocked \<or> point f = UnlockRx Blocked \<and> is_send r \<Longrightarrow> undisturbed (pxCurrentTCB K) K K'"
    and d: "tx_locked (point f) \<and> rx_locked (point f) \<Longrightarrow> deferred r q \<Longrightarrow> deferred r q'"
      "rx_locked (point f) \<Longrightarrow> is_send r \<Longrightarrow> deferred r q \<Longrightarrow> deferred r q'"
  shows "frame_ok K' q' r f"
proof (cases "able K \<or> point f = UnlockTx Blocked \<or> point f = UnlockRx Blocked \<and> is_send r")
  case True
  then show ?thesis using frame_undisturbed [OF f u s d] by blast
next
  case False
  then show ?thesis using f k by (auto simp: steady_def frame_ok_def)
qed

lemma locked_held: "held c True \<Longrightarrow> c \<noteq> queueUNLOCKED"
  by (auto simp: held_def)

lemma wait_list_untouched:
  assumes l: "lock_state q (point f)" and p: "point f = UnlockTx Blocked \<or> point f = UnlockRx Blocked \<and> is_send r"
    and n: "xTasksWaitingToSend q \<noteq> xTasksWaitingToReceive q"
  shows "wait_list r q \<notin> touched c q"
  using p
proof
  assume "point f = UnlockTx Blocked"
  then show ?thesis using l locked_held by (auto simp: lock_state_def touched_def)
next
  assume p: "point f = UnlockRx Blocked \<and> is_send r"
  then have "wait_list r q = xTasksWaitingToSend q" by (cases r) auto
  then show ?thesis using l p n locked_held by (auto simp: lock_state_def touched_def)
qed

lemma isr_ok:
  assumes ok: "world_ok W" and c: "isr_allowed c (qs W i)"
  shows "returns (isr c i W) world_ok"
proof -
  let ?q = "qs W i"
  have l: "lock_state ?q (frame_point W i)" by (rule world_okD(5) [OF ok])
  from isr_step_good [OF world_okD(1,2) [OF ok] c l]
  obtain q K where s: "isr_step c ?q (krn W) = Some (q, K)" and g: "isr_good c ?q (krn W) (frame_point W i) q K" by (auto elim: returnsE)
  define W' where "W' = W\<lparr>krn := K, qs := (qs W)(i := q)\<rparr>"
  have g: "kernel_ok K" "any_queue_ok q" "shape q = shape ?q" "pxCurrentTCB K = current W" "hush (krn W) K"
    and h: "holder (un q) = holder (un ?q)" and l': "lock_state q (frame_point W i)"
    and d: "tx_locked (frame_point W i) \<and> rx_locked (frame_point W i) \<Longrightarrow> deferred r ?q \<Longrightarrow> deferred r q"
      "rx_locked (frame_point W i) \<Longrightarrow> is_send r \<Longrightarrow> deferred r ?q \<Longrightarrow> deferred r q"
    and u: "uxSchedulerSuspended (krn W) \<noteq> 0 \<longrightarrow> (\<forall>t. (\<forall>e\<in>touched c ?q. ev (krn W) t \<noteq> Some (EventList e)) \<longrightarrow> undisturbed t (krn W) K)" for r
    using g unfolding isr_good_def by blast+
  have "frame_point W' = frame_point W" by (simp add: W'_def frame_point_def g(4) fun_eq_iff)
  then have "queues_ok W'" using world_okD(2-5) [OF ok] shape_fields [OF g(3)] g(2) l' by (auto simp: queues_ok_def W'_def)
  moreover have "frames_ok W'" unfolding frames_ok_def
  proof (intro allI impI)
    fix t j r f assume "frames W' t = Some (j, r, f)"
    then have f: "frames W t = Some (j, r, f)" by (simp add: W'_def)
    note F = frames_okD [OF ok f]
    have "frame_ok K (((qs W)(i := q)) j) r f" if t: "t = current W"
    proof (cases "suspended_at (point f)")
      case False then show ?thesis by (rule frame_ok_free)
    next
      case True
      note f' = F(5) [OF t]
      have s: "uxSchedulerSuspended (krn W) \<noteq> 0" using f' True by (simp add: frame_ok_def)
      have st: "steady (krn W) K" using u s undisturbed_steady no_event_NULL [OF world_okD(1) [OF ok]] by (metis option.distinct(1))
      have p: "frame_point W j = point f" using f t by (simp add: frame_point_def)
      have "undisturbed (current W) (krn W) K" if a: "able (krn W) \<or> point f = UnlockTx Blocked \<or> point f = UnlockRx Blocked \<and> is_send r"
      proof -
        have "ev (krn W) (current W) \<noteq> Some (EventList e)" if e: "e \<in> touched c ?q" for e
        proof (cases "able (krn W)")
          case False
          then have v: "ev (krn W) (current W) = Some (EventList (wait_list r (qs W j)))" and b: "point f = UnlockTx Blocked \<or> point f = UnlockRx Blocked \<and> is_send r"
            using a f' by (auto simp: frame_ok_def)
          have "wait_list r (qs W j) \<noteq> e"
          proof (cases "i = j")
            case True
            then show ?thesis using e wait_list_untouched [OF _ b queue_lists_differ [OF ok]] lock_state_queue [OF ok] f t by blast
          next
            case False
            have "wait_list r (qs W j) = 2 * j \<or> wait_list r (qs W j) = 2 * j + 1" using world_okD(3,4) [OF ok, of j] by (cases r) auto
            moreover have "e = 2 * i \<or> e = 2 * i + 1" using e world_okD(3,4) [OF ok, of i] by (auto simp: touched_def split: if_splits)
            ultimately show ?thesis using False by presburger
          qed
          then show ?thesis using v by simp
        qed (simp add: able_def)
        then show ?thesis using u s by blast
      qed
      then show ?thesis using frame_kept [OF f' st, of "((qs W)(i := q)) j"] d g(3) p by (cases "j = i") auto
    qed
    then show "t \<noteq> NULL \<and> request_ok r t (qs W' j) \<and> inherit_ok r f (qs W' j) \<and> ucNotifyState (tcbs (krn W') t) \<noteq> Waiting \<and>
      (t \<noteq> current W' \<longrightarrow> \<not> suspended_at (point f)) \<and> (t = current W' \<longrightarrow> frame_ok (krn W') (qs W' j) r f)"
      using F(1-4,6) request_ok_shape [OF g(3), of t r] inherit_ok_shape [OF g(3), of r f] h g(4,5) by (auto simp: W'_def hush_def)
  qed
  ultimately have "world_ok W'" using g(1) by (simp add: world_ok_def W'_def)
  then show ?thesis unfolding isr_def s by (simp add: W'_def)
qed

section \<open>What can happen\<close>

text \<open>A system starts with queues as their creation leaves them and no task in a call.\<close>

inductive possible :: "world \<Rightarrow> bool" where
  start: "reachable (krn W) \<Longrightarrow> frames W = (\<lambda>t. None) \<Longrightarrow> (\<And>i. any_queue_ok (qs W i)) \<Longrightarrow>
    (\<And>i. xTasksWaitingToSend (qs W i) = 2 * i \<and> xTasksWaitingToReceive (qs W i) = 2 * i + 1) \<Longrightarrow>
    (\<And>i. cRxLock (qs W i) = queueUNLOCKED \<and> cTxLock (qs W i) = queueUNLOCKED) \<Longrightarrow> possible W"
| move: "possible W \<Longrightarrow> moves W (Some W') \<Longrightarrow> possible W'"

lemma moves_ok:
  assumes "world_ok W" "moves W r"
  shows "returns r world_ok"
  using assms(2)
proof cases
  case enter then show ?thesis using enter_ok [OF assms(1)] by simp
next
  case proceed then show ?thesis using proceed_ok [OF assms(1)] by simp
next
  case other then show ?thesis using other_ok [OF assms(1)] by simp
next
  case interrupt then show ?thesis using interrupt_ok [OF assms(1)] by simp
next
  case switch then show ?thesis using switch_ok [OF assms(1)] by simp
next
  case isr then show ?thesis using isr_ok [OF assms(1)] by simp
qed

lemma possible_ok: "possible W \<Longrightarrow> world_ok W"
proof (induction rule: possible.induct)
  case (start W)
  have "frame_point W i = Attempt" for i by (simp add: frame_point_def start(2))
  then show ?case using start reachable_ok [OF start(1)]
    by (simp add: world_ok_def queues_ok_def frames_ok_def lock_state_def held_def)
next
  case (move W W')
  then show ?case using moves_ok by fastforce
qed

section \<open>What follows\<close>

lemma locked_where:
  assumes "world_ok W" "cTxLock (qs W i) \<noteq> queueUNLOCKED \<or> cRxLock (qs W i) \<noteq> queueUNLOCKED"
  obtains r f where "frames W (current W) = Some (i, r, f)" "suspended_at (point f)" "uxSchedulerSuspended (krn W) = 1"
proof -
  have "tx_locked (frame_point W i) \<or> rx_locked (frame_point W i)"
    using world_okD(5) [OF assms(1), of i] assms(2) by (auto simp: lock_state_def held_def split: if_splits)
  then have s: "suspended_at (frame_point W i)" using not_suspended_point(2,3) by blast
  then obtain r f where f: "frames W (current W) = Some (i, r, f)" "point f = frame_point W i"
    by (auto simp: frame_point_def split: option.splits if_splits)
  then show ?thesis using that frames_okD(5) [OF assms(1) f(1) refl] s by (auto simp: frame_ok_def)
qed

lemma sint_small:
  assumes "unat (c :: 8 word) < 128" shows "sint c = int (unat c)"
proof -
  have "signed_take_bit 7 (int n) = int n" if "n < 128" for n using that by (intro signed_take_bit_int_eq_self) simp_all
  from this [OF assms] show ?thesis by (simp add: sint_uint)
qed

lemma wakes_waiting:
  assumes ok: "kernel_ok K" and s: "uxSchedulerSuspended K \<noteq> 0" and t: "ev K t = Some (EventList e)" and c: "0 < unat c" "unat c < 128"
  shows "\<exists>K' u us. unlock_loop c e K = Some K' \<and> events K e = u # us \<and> ev K' u = Some PendingReadyList"
proof -
  have "t \<in> set (events K e)" using t core_okD(1) [OF kernel_okD(1) [OF ok]] by (simp add: lists_ok_def flip: event_items.simps)
  then obtain u us where u: "events K e = u # us" by (cases "events K e") auto
  have "sint c = int (unat c)" using c(2) by (rule sint_small)
  then have "0 < sint c" using c(1) by linarith
  then show ?thesis using unlock_loop_suspended [OF ok s, of c e] u by (auto simp: returns_def)
qed



text \<open>
  C4: A queue is locked only while the running task is inside one of its calls on that queue with the
  scheduler suspended. In particular all queues are unlocked whenever the scheduler is active, so no
  task ever leaves a locked queue behind for others.
\<close>

theorem queues_unlocked:
  assumes "possible W"
  shows "(cTxLock (qs W i) \<noteq> queueUNLOCKED \<or> cRxLock (qs W i) \<noteq> queueUNLOCKED \<longrightarrow>
      (\<exists>r f. frames W (current W) = Some (i, r, f) \<and> suspended_at (point f))) \<and>
    (uxSchedulerSuspended (krn W) = 0 \<longrightarrow> cTxLock (qs W i) = queueUNLOCKED \<and> cRxLock (qs W i) = queueUNLOCKED)"
  using locked_where [OF possible_ok [OF assms], of i] by (metis zero_neq_one)

text \<open>
  C2: No wake-up is lost between the last test of a queue and the sleep. A task has found the queue empty
  and has placed itself on the list of receivers; an item that an interrupt sends from then on until the
  queue is unlocked is not announced to anyone at once. But the step that unlocks the queue then wakes
  the first of the receivers, and in the same way the first of the senders when space has become free.
\<close>

theorem no_lost_wakeup:
  assumes "possible W" "frames W (current W) = Some (i, r, f)"
  shows "(\<not> is_send r \<and> point f = UnlockTx Blocked \<and> 0 < uxMessagesWaiting (qs W i) \<longrightarrow>
      (\<exists>W' u us. proceed W = Some W' \<and> events (krn W) (xTasksWaitingToReceive (qs W i)) = u # us \<and> ev (krn W') u = Some PendingReadyList)) \<and>
    (is_send r \<and> point f = UnlockRx Blocked \<and> uxMessagesWaiting (qs W i) < uxLength (qs W i) \<longrightarrow>
      (\<exists>W' u us. proceed W = Some W' \<and> events (krn W) (xTasksWaitingToSend (qs W i)) = u # us \<and> ev (krn W') u = Some PendingReadyList))"
proof -
  note ok = possible_ok [OF assms(1)]
  note f = frames_okD(5) [OF ok assms(2) refl] and l = lock_state_queue [OF ok assms(2)]
  have w: "\<exists>K' u us. unlock_loop c e (krn W) = Some K' \<and> events (krn W) e = u # us \<and> ev K' u = Some PendingReadyList"
    if "suspended_at (point f)" "ev (krn W) (current W) = Some (EventList e)" "0 < unat c" "unat c < 128" for c e
    using that f by (intro wakes_waiting [OF world_okD(1) [OF ok]]) (auto simp: frame_ok_def)
  have tx: "\<exists>W' u us. proceed W = Some W' \<and> events (krn W) (xTasksWaitingToReceive (qs W i)) = u # us \<and> ev (krn W') u = Some PendingReadyList"
    if "\<not> is_send r" "point f = UnlockTx Blocked" "0 < uxMessagesWaiting (qs W i)"
  proof -
    have "wait_list r (qs W i) = xTasksWaitingToReceive (qs W i)" "deferred r (qs W i) = (fill (qs W i) \<le> unat (cTxLock (qs W i)))"
      using that(1) by (cases r; simp)+
    then show ?thesis using w [of "xTasksWaitingToReceive (qs W i)" "cTxLock (qs W i)"] f l that assms(2)
      by (auto simp: frame_ok_def lock_state_def held_def word_less_nat_alt proceed_def call_waits wait_step_def unlock_tx_def)
  qed
  have rx: "\<exists>W' u us. proceed W = Some W' \<and> events (krn W) (xTasksWaitingToSend (qs W i)) = u # us \<and> ev (krn W') u = Some PendingReadyList"
    if "is_send r" "point f = UnlockRx Blocked" "uxMessagesWaiting (qs W i) < uxLength (qs W i)"
  proof -
    have "wait_list r (qs W i) = xTasksWaitingToSend (qs W i)" "deferred r (qs W i) = (unat (uxLength (qs W i) - uxMessagesWaiting (qs W i)) \<le> unat (cRxLock (qs W i)))"
      using that(1) by (cases r; simp)+
    moreover have "0 < unat (uxLength (qs W i) - uxMessagesWaiting (qs W i))" using that(3) by (simp add: unat_gap word_less_nat_alt)
    ultimately show ?thesis using w [of "xTasksWaitingToSend (qs W i)" "cRxLock (qs W i)"] f l that assms(2)
      by (auto simp: frame_ok_def lock_state_def held_def proceed_def call_waits wait_step_def unlock_rx_def)
  qed
  show ?thesis using tx rx by blast
qed

text \<open>
  C3: A mutex has at most one holder. It can be taken exactly when it has none, and it changes hands in two
  ways only: a task that takes it while nobody holds it becomes the holder, and the holder gives it back.
\<close>

theorem mutex_exclusion:
  assumes "possible W" "moves W (Some W')" "is_mutex (qs W i)" "uxItemSize (qs W i) = 0"
  shows "(uxMessagesWaiting (qs W' i) = 0 \<longleftrightarrow> holder (un (qs W' i)) \<noteq> NULL) \<and>
    (holder (un (qs W' i)) = holder (un (qs W i)) \<or>
     (\<exists>r f. frames W (current W) = Some (i, r, f) \<and> frames W' (current W) = None \<and>
        handover r (current W) (holder (un (qs W i))) (holder (un (qs W' i)))))"
proof -
  note ok = possible_ok [OF assms(1)]
  have k: "qs W' = qs W" if "Some W' = kernel_move W m" for m using that by (cases m) (auto simp: kernel_move_def)
  have "shape (qs W' i) = shape (qs W i) \<and> (holder (un (qs W' i)) = holder (un (qs W i)) \<or>
     (\<exists>r f. frames W (current W) = Some (i, r, f) \<and> frames W' (current W) = None \<and>
        handover r (current W) (holder (un (qs W i))) (holder (un (qs W' i)))))"
    using assms(2)
  proof cases
    case (proceed j r f)
    from proceed_parts [OF ok proceed(2-4)] obtain fo q K where g: "good r (qs W j) (krn W) fo q K"
      and e: "proceed W = Some (W\<lparr>krn := K, qs := (qs W)(j := q), frames := (frames W)(current W := map_option (\<lambda>f. (j, r, f)) fo)\<rparr>)" by blast
    show ?thesis
    proof (cases "j = i")
      case True
      then show ?thesis using e proceed(1,2) g by (auto simp: good_def)
    qed (use e proceed(1) in simp)
  next
    case (isr c j)
    from isr_step_good [OF world_okD(1,2) [OF ok] isr(2) world_okD(5) [OF ok]] obtain q K where
      g: "isr_step c (qs W j) (krn W) = Some (q, K)" "isr_good c (qs W j) (krn W) (frame_point W j) q K" by (auto elim: returnsE)
    then show ?thesis using isr(1) by (auto simp: isr_def isr_good_def)
  qed (use k in auto)
  moreover have "any_queue_ok (qs W' i)" using world_okD(2) moves_ok [OF ok assms(2)] by simp
  ultimately show ?thesis using shape_fields [of "qs W' i" "qs W i"] assms(3,4) by (auto simp: any_queue_ok_def semaphore_ok_def)
qed

section \<open>A concrete system\<close>

text \<open>Queue 1 is a mutex nobody holds, all others hold two bytes; task 3 is running.\<close>

definition demo_mutex :: queue where
  "demo_mutex = demo_queue\<lparr>un := SemaphoreData NULL 0, pcHead := 0, uxLength := 1, uxItemSize := 0, uxMessagesWaiting := 1, storage := []\<rparr>"

definition demo_world :: world where
  "demo_world = \<lparr>krn = demo, qs = (\<lambda>i. (if i = 1 then demo_mutex else demo_queue)
     \<lparr>xTasksWaitingToSend := 2 * i, xTasksWaitingToReceive := 2 * i + 1\<rparr>), frames = (\<lambda>t. None)\<rparr>"

abbreviation calling :: "nat \<Rightarrow> request \<Rightarrow> call_frame \<Rightarrow> world" where
  "calling i r f \<equiv> demo_world\<lparr>frames := (\<lambda>t. None)(3 \<mapsto> (i, r, f))\<rparr>"

lemma queue_ok_lists [simp]: "queue_ok (q\<lparr>xTasksWaitingToSend := a, xTasksWaitingToReceive := b\<rparr>) = queue_ok q"
  by (simp add: queue_ok_def ring_ok_def room_ok_def slot_addr_def)

lemma demo_world_possible: "possible demo_world"
proof (rule possible.start)
  fix i
  show "any_queue_ok (qs demo_world i)" using demo_queue_ok
    by (simp add: demo_world_def any_queue_ok_def semaphore_ok_def demo_mutex_def) (simp add: demo_queue_def)
qed (simp_all add: demo_world_def demo_reachable demo_mutex_def demo_queue_def)

lemma demo_current: "krn demo_world = demo" "pxCurrentTCB demo = 3" "frames demo_world t = None" "uxSchedulerSuspended demo = 0"
  "ucNotifyState (tcbs demo t) = NotWaiting"
  by (simp_all add: demo_world_def demo_state) (simp add: demo_def demo_boot_def new_task_simps start_scheduler_def demo_tcb_def)

lemma calling_possible:
  assumes "request_ok r 3 (qs demo_world i)"
  shows "possible (calling i r (call_start junk n))"
proof -
  have "moves demo_world (Some (demo_world\<lparr>frames := (frames demo_world)(current demo_world \<mapsto> (i, r, call_start junk n))\<rparr>))"
    using assms by (intro enter) (simp_all add: demo_current demo_running)
  then have "possible (demo_world\<lparr>frames := (frames demo_world)(current demo_world \<mapsto> (i, r, call_start junk n))\<rparr>)"
    by (rule possible.move [OF demo_world_possible])
  moreover have "frames demo_world = (\<lambda>t. None)" by (simp add: demo_world_def)
  ultimately show ?thesis by (simp add: demo_current)
qed

lemma calling_moves:
  assumes "request_ok r 3 (qs demo_world i)" "hazard_free r f (qs demo_world i) demo"
  shows "moves (calling i r f) (proceed (calling i r f))"
  by (rule proceed) (use assms in \<open>simp_all add: demo_current demo_running\<close>)


lemma queues_unlocked_witness:
  "cTxLock (qs demo_world 0) = queueUNLOCKED \<and> cRxLock (qs demo_world 0) = queueUNLOCKED"
  using queues_unlocked [OF demo_world_possible] by (simp add: demo_current)

lemma mutex_exclusion_witness:
  "\<exists>W'. proceed (calling 1 Take (call_start (vTaskInternalSetTimeOutState demo) 5)) = Some W' \<and>
     (uxMessagesWaiting (qs W' 1) = 0 \<longleftrightarrow> holder (un (qs W' 1)) \<noteq> NULL)"
proof -
  let ?W = "calling 1 Take (call_start (vTaskInternalSetTimeOutState demo) 5)"
  have r: "request_ok Take 3 (qs demo_world 1)" "is_mutex (qs ?W 1)" "uxItemSize (qs ?W 1) = 0" by (simp_all add: demo_world_def demo_mutex_def)
  have p: "possible ?W" by (rule calling_possible [OF r(1)])
  have m: "moves ?W (proceed ?W)" by (rule calling_moves [OF r(1)]) (simp add: call_start_def)
  obtain W' where "proceed ?W = Some W'" using moves_ok [OF possible_ok [OF p] m] by (auto simp: returns_def)
  then show ?thesis using mutex_exclusion [OF p _ r(2,3), of W'] m by auto
qed

text \<open>
  A receiver goes to sleep on the empty queue 0; before it has unlocked the queue, an interrupt sends an
  item.
\<close>

definition sleepy :: "call_point \<Rightarrow> call_frame" where
  "sleepy p = \<lparr>point = p, xTicksToWait = 5, xEntryTimeSet = True, xTimeOut = vTaskInternalSetTimeOutState demo, xInheritanceOccurred = False\<rparr>"

lemma possible_step:
  assumes "possible W" "frames W (current W) = Some (i, r, f)" "\<not> suspended_at (point f) \<longrightarrow> running (krn W)"
    "hazard_free r f (qs W i) (krn W)" "call_step r f (qs W i) (krn W) = Some (fo, q, K)"
  shows "possible (W\<lparr>krn := K, qs := (qs W)(i := q), frames := (frames W)(current W := map_option (\<lambda>f. (i, r, f)) fo)\<rparr>)"
proof -
  have "proceed W = Some (W\<lparr>krn := K, qs := (qs W)(i := q), frames := (frames W)(current W := map_option (\<lambda>f. (i, r, f)) fo)\<rparr>)"
    using assms(2,5) by (simp add: proceed_def)
  moreover have "moves W (proceed W)" using assms(3,4) by (intro proceed [OF assms(2)]) simp_all
  ultimately show ?thesis using assms(1) possible.move by simp
qed

definition dozing :: "call_point \<Rightarrow> queue \<Rightarrow> kernel \<Rightarrow> world" where
  "dozing p q K = demo_world\<lparr>krn := K, qs := (qs demo_world)(0 := q), frames := (\<lambda>t. None)(3 \<mapsto> (0, Receive, sleepy p))\<rparr>"

lemma dozing_step:
  assumes "possible (dozing p q K)" "pxCurrentTCB K = 3" "suspended_at p \<or> K = demo"
    and "call_step Receive (sleepy p) q K = Some (Some (sleepy p'), q', K')" "pxCurrentTCB K' = 3"
  shows "possible (dozing p' q' K')"
proof -
  let ?W = "dozing p q K"
  have f: "frames ?W (current ?W) = Some (0, Receive, sleepy p)" using assms(2) by (simp add: dozing_def)
  have "\<not> suspended_at (point (sleepy p)) \<longrightarrow> running (krn ?W)" using assms(3) demo_running by (auto simp: sleepy_def dozing_def)
  from possible_step [OF assms(1) f this, of "Some (sleepy p')" q' K'] assms(2,4) show ?thesis
    by (simp add: dozing_def)
qed

lemma dozing_place: "\<exists>q. possible (dozing PlaceOnList q (vTaskSuspendAll demo)) \<and> q = (qs demo_world 0)\<lparr>cRxLock := 0, cTxLock := 0\<rparr>"
proof -
  let ?q = "qs demo_world 0" and ?S = "vTaskSuspendAll demo"
  let ?l = "?q\<lparr>cRxLock := 0, cTxLock := 0\<rparr>"
  have q: "uxMessagesWaiting ?q = 0" "cRxLock ?q = queueUNLOCKED" "cTxLock ?q = queueUNLOCKED" by (simp_all add: demo_world_def demo_queue_def)
  have c: "pxCurrentTCB ?S = 3" by (simp add: vTaskSuspendAll_def demo_current)
  let ?j = "vTaskInternalSetTimeOutState demo"
  have "possible (calling 0 Receive (call_start ?j 5))"
    by (rule calling_possible) (simp add: demo_world_def demo_queue_def)
  from possible_step [OF this, of 0 Receive "call_start ?j 5" "Some (sleepy SuspendAll)" ?q demo]
  have "possible (dozing SuspendAll ?q demo)"
    using q by (simp add: dozing_def demo_current demo_running call_start_def xQueueReceive_def finish_def note_time_def sleepy_def fun_upd_idem)
  then have "possible (dozing LockQueue ?q ?S)"
    by (rule dozing_step) (simp_all add: demo_current c call_waits sleepy_def wait_step_def del: call_step.simps)
  then have "possible (dozing CheckTimeOut ?l ?S)"
    by (rule dozing_step) (simp_all add: c call_waits sleepy_def wait_step_def prvLockQueue_def Let_def q del: call_step.simps)
  then have "possible (dozing TestQueue ?l ?S)"
    by (rule dozing_step)
       (simp_all add: demo_current call_waits sleepy_def wait_step_def xTaskCheckForTimeOut_def Let_def vTaskInternalSetTimeOutState_def vTaskSuspendAll_def
         del: call_step.simps)
  then have "possible (dozing PlaceOnList ?l ?S)"
    by (rule dozing_step) (simp_all add: c sleepy_def xQueueReceive_def finish_def prvIsQueueEmpty_def q)
  then show ?thesis by blast
qed

lemma no_lost_wakeup_witness:
  "\<exists>W W' u us. possible W \<and> 0 < uxMessagesWaiting (qs W 0) \<and> proceed W = Some W' \<and>
     events (krn W) 1 = u # us \<and> ev (krn W') u = Some PendingReadyList"
proof -
  let ?q = "(qs demo_world 0)\<lparr>cRxLock := 0, cTxLock := 0\<rparr>" and ?S = "vTaskSuspendAll demo"
  let ?W = "dozing PlaceOnList ?q ?S"
  have p: "possible ?W" using dozing_place by blast
  note ok = possible_ok [OF p]
  have c: "pxCurrentTCB ?S = 3" by (simp add: vTaskSuspendAll_def demo_current)
  have f: "frames ?W (current ?W) = Some (0, Receive, sleepy PlaceOnList)" using c by (simp add: dozing_def)
  have q: "qs ?W 0 = ?q" "krn ?W = ?S" by (simp_all add: dozing_def)
  have pt: "point (sleepy PlaceOnList) = PlaceOnList" by (simp add: sleepy_def)
  have n: "ucNotifyState (tcbs ?S (pxCurrentTCB ?S)) \<noteq> Waiting" by (simp add: vTaskSuspendAll_def demo_current)
  note F = frames_okD [OF ok f]
  from place_good [OF world_okD(1,2) [OF ok] F(5) [OF refl] lock_state_queue [OF ok f] F(2) pt, unfolded q, OF n]
  obtain K where K: "vTaskPlaceOnEventList (wait_list Receive ?q) (xTicksToWait (sleepy PlaceOnList)) ?S = Some K"
    "pxCurrentTCB K = 3" using c by (auto simp: returns_def good_def)
  have s: "call_step Receive (sleepy PlaceOnList) ?q ?S = Some (Some (sleepy (UnlockTx Blocked)), ?q, K)"
    unfolding call_places [OF pt] K(1) by (simp add: sleepy_def)
  have p1: "possible (dozing (UnlockTx Blocked) ?q K)"
    by (rule dozing_step [OF p c _ s K(2)]) simp
  have "\<exists>q'. isr_step (IsrSend [7] queueSEND_TO_BACK) ?q K = Some (q', K) \<and> uxMessagesWaiting q' = 1 \<and> xTasksWaitingToReceive q' = 1"
    by (simp add: demo_world_def demo_queue_def xQueueGenericSendFromISR_def prvCopyDataToQueue_def store_item_def rd_bytes_def wr_bytes_def)
  then obtain q' where q': "isr_step (IsrSend [7] queueSEND_TO_BACK) ?q K = Some (q', K)" "uxMessagesWaiting q' = 1" "xTasksWaitingToReceive q' = 1" by blast
  have "moves (dozing (UnlockTx Blocked) ?q K) (isr (IsrSend [7] queueSEND_TO_BACK) 0 (dozing (UnlockTx Blocked) ?q K))"
    by (rule moves.isr) (simp add: dozing_def demo_world_def demo_queue_def)
  moreover have e: "krn (dozing (UnlockTx Blocked) ?q K) = K" "qs (dozing (UnlockTx Blocked) ?q K) 0 = ?q" by (simp_all add: dozing_def)
  have "isr (IsrSend [7] queueSEND_TO_BACK) 0 (dozing (UnlockTx Blocked) ?q K) = Some (dozing (UnlockTx Blocked) q' K)"
    unfolding isr_def e q'(1) by (simp add: dozing_def)
  ultimately have p2: "possible (dozing (UnlockTx Blocked) q' K)" using possible.move [OF p1] by simp
  have f2: "frames (dozing (UnlockTx Blocked) q' K) (current (dozing (UnlockTx Blocked) q' K)) = Some (0, Receive, sleepy (UnlockTx Blocked))"
    using K(2) by (simp add: dozing_def)
  have m: "qs (dozing (UnlockTx Blocked) q' K) 0 = q'" "krn (dozing (UnlockTx Blocked) q' K) = K" "point (sleepy (UnlockTx Blocked)) = UnlockTx Blocked"
    by (simp_all add: dozing_def sleepy_def)
  define W where "W = dozing (UnlockTx Blocked) q' K"
  have "\<exists>W' u us. proceed W = Some W' \<and> events (krn W) 1 = u # us \<and> ev (krn W') u = Some PendingReadyList"
    using no_lost_wakeup [OF p2 f2] m q'(2,3) by (simp add: W_def)
  moreover have "0 < uxMessagesWaiting (qs W 0)" "possible W" using m q'(2) p2 by (simp_all add: W_def)
  ultimately show ?thesis by blast
qed

end
