(* ===== verification/Spec2Isabelle.thy ===== *)
theory Spec2Isabelle
  imports MQTT_Task RTOS_Create RTOS_World
begin

text \<open>
  A verification library for the firmware of an MQTT sensor node.
\<close>

end
